(* ===== verification/WT_Prelude.thy ===== *)
theory WT_Prelude
  imports Main "HOL-Library.Word" "HOL-Library.Sublist" "HOL-Library.Code_Target_Nat" "HOL-Library.Char_ord"
begin

text \<open>
  Shared vocabulary of the development: the widths of Go's integer types, byte slices and
  strings, big-endian integers (\<open>encoding/binary\<close>), the functions of the \<open>strings\<close> package
  that the code calls, signed 64-bit arithmetic, and the lemma collections that carry the
  component proofs.

  A Go \<open>[]byte\<close> is a list of \<open>8 word\<close>, a Go \<open>string\<close> is a HOL \<open>string\<close> (a HOL character is
  one byte), and the conversions \<open>[]byte(s)\<close> and \<open>string(b)\<close> are \<open>bytes_of\<close> and
  \<open>string_of\<close>. A call that returns an error is a value of a sum type with the error on the
  left.
\<close>

unbundle bit_operations_syntax

named_theorems wire_simps \<open>equations that evaluate encoders and decoders of the wire format\<close>
named_theorems guard_defs \<open>definitions of the checks that guard an operation\<close>
named_theorems inv_intros \<open>preservation of component invariants\<close>

section \<open>Types\<close>

type_synonym byte = "8 word"
type_synonym bytes = "8 word list"
type_synonym uint16 = "16 word"
type_synonym uint32 = "32 word"
type_synonym uint64 = "64 word"

section \<open>Bytes and strings\<close>

definition bytes_of :: "string \<Rightarrow> bytes" where
  "bytes_of = map of_char"

definition string_of :: "bytes \<Rightarrow> string" where
  "string_of = map (\<lambda>b. char_of (unat b))"

lemma unat_of_char [simp]: "unat (of_char c :: byte) = of_char c"
proof -
  have "unat (of_nat (of_char c) :: byte) = of_char c"
    using nat_of_char_less_256 [of c] by (simp only: unat_of_nat) simp
  then show ?thesis by (simp add: of_nat_of_char)
qed

lemma of_char_char_of_unat [simp]: "of_char (char_of (unat b)) = (b :: byte)"
proof -
  have "(of_char (char_of (unat b)) :: byte) = of_nat (of_char (char_of (unat b)))"
    by (rule of_nat_of_char [symmetric])
  also have "\<dots> = of_nat (unat b)"
    using unsigned_less [where ?'a = nat, of b] by (simp only: of_char_of) simp
  finally show ?thesis by simp
qed

lemma string_of_bytes_of [simp]: "string_of (bytes_of s) = s"
  by (simp add: string_of_def bytes_of_def comp_def map_idI)

lemma bytes_of_string_of [simp]: "bytes_of (string_of b) = b"
  by (simp add: string_of_def bytes_of_def comp_def map_idI)

lemma length_bytes_of [simp]: "length (bytes_of s) = length s"
  by (simp add: bytes_of_def)

lemma string_of_eq_iff [simp]: "string_of a = string_of b \<longleftrightarrow> a = b"
  by (metis bytes_of_string_of)

lemma string_of_eq_bytes: "string_of b = s \<longleftrightarrow> b = bytes_of s"
  by auto

section \<open>Big-endian integers\<close>

text \<open>\<open>binary.BigEndian.AppendUint32\<close>, \<open>PutUint64\<close> and \<open>Uint32\<close> of the Go library.\<close>

definition be32 :: "uint32 \<Rightarrow> bytes" where
  "be32 w = [ucast (drop_bit 24 w), ucast (drop_bit 16 w), ucast (drop_bit 8 w), ucast w]"

definition be64 :: "uint64 \<Rightarrow> bytes" where
  "be64 w = be32 (ucast (drop_bit 32 w)) @ be32 (ucast w)"

fun get32 :: "bytes \<Rightarrow> uint32" where
  "get32 (a # b # c # d # _) =
     push_bit 24 (ucast a) OR push_bit 16 (ucast b) OR push_bit 8 (ucast c) OR ucast d"
| "get32 _ = 0"

lemma length_be32 [simp]: "length (be32 w) = 4"
  by (simp add: be32_def)

lemma length_be64 [simp]: "length (be64 w) = 8"
  by (simp add: be64_def)

lemma get32_be32_append [simp]: "get32 (be32 w @ xs) = w"
proof -
  have "push_bit 24 (ucast (ucast (drop_bit 24 w) :: byte))
     OR push_bit 16 (ucast (ucast (drop_bit 16 w) :: byte))
     OR push_bit 8 (ucast (ucast (drop_bit 8 w) :: byte)) OR ucast (ucast w :: byte) = w"
    (is "?l = w")
  proof (rule bit_word_eqI)
    fix n assume "n < LENGTH(32)"
    then consider "n < 8" | "8 \<le> n" "n < 16" | "16 \<le> n" "n < 24" | "24 \<le> n" "n < 32"
      by fastforce
    then show "bit ?l n \<longleftrightarrow> bit w n" by cases (auto simp: bit_simps)
  qed
  then show ?thesis by (simp add: be32_def)
qed

lemma get32_be32 [simp]: "get32 (be32 w) = w"
  using get32_be32_append [of w "[]"] by simp

lemma be32_get32: "length xs = 4 \<Longrightarrow> be32 (get32 xs) = xs"
proof -
  assume "length xs = 4"
  then obtain a b c d where xs: "xs = [a, b, c, d]"
    by (auto simp: numeral_eq_Suc length_Suc_conv)
  show ?thesis
    unfolding xs
    by (simp add: be32_def)
      (intro conjI; rule bit_word_eqI, auto simp: bit_simps dest: bit_imp_le_length)
qed

lemma be32_inject [simp]: "be32 a = be32 b \<longleftrightarrow> a = b"
  by (metis get32_be32)

lemma be32_append_inject: "be32 a @ xs = be32 b @ ys \<longleftrightarrow> a = b \<and> xs = ys"
  by (metis append_eq_append_conv get32_be32 length_be32)

lemma be64_inject [simp]: "be64 a = be64 b \<longleftrightarrow> a = b"
proof
  assume "be64 a = be64 b"
  then have hi: "(ucast (drop_bit 32 a) :: uint32) = ucast (drop_bit 32 b)"
    and lo: "(ucast a :: uint32) = ucast b"
    by (simp_all add: be64_def be32_append_inject)
  show "a = b"
  proof (rule bit_word_eqI)
    fix n assume n: "n < LENGTH(64)"
    show "bit a n \<longleftrightarrow> bit b n"
    proof (cases "n < 32")
      case True
      with lo show ?thesis by (auto simp: bit_eq_iff bit_simps)
    next
      case False
      with n hi [unfolded bit_eq_iff, rule_format, of "n - 32"] show ?thesis
        by (simp add: bit_simps)
    qed
  qed
qed simp

lemma unat_of_nat_small32: "n < 2 ^ 32 \<Longrightarrow> unat (of_nat n :: uint32) = n"
  by (simp add: unat_of_nat)

lemma unat_of_nat_small8: "n < 256 \<Longrightarrow> unat (of_nat n :: byte) = n"
  by (simp add: unat_of_nat)

section \<open>The strings package\<close>

text \<open>\<open>strings.Split\<close> for a one-byte separator, \<open>HasPrefix\<close>, \<open>HasSuffix\<close>, \<open>Contains\<close>,
  \<open>ContainsAny\<close>, \<open>LastIndexByte\<close> (as the text after it), \<open>TrimRight\<close>.\<close>

fun splitOn :: "char \<Rightarrow> string \<Rightarrow> string list" where
  "splitOn sep [] = [[]]"
| "splitOn sep (c # cs) =
     (if c = sep then [] # splitOn sep cs
      else (case splitOn sep cs of [] \<Rightarrow> [[c]] | w # ws \<Rightarrow> (c # w) # ws))"

definition hasPrefix :: "string \<Rightarrow> string \<Rightarrow> bool" where
  "hasPrefix s p \<longleftrightarrow> take (length p) s = p"

definition hasSuffix :: "string \<Rightarrow> string \<Rightarrow> bool" where
  "hasSuffix s p \<longleftrightarrow> length p \<le> length s \<and> drop (length s - length p) s = p"

fun containsStr :: "string \<Rightarrow> string \<Rightarrow> bool" where
  "containsStr [] p \<longleftrightarrow> p = []"
| "containsStr (c # cs) p \<longleftrightarrow> hasPrefix (c # cs) p \<or> containsStr cs p"

definition containsAny :: "string \<Rightarrow> string \<Rightarrow> bool" where
  "containsAny s chars \<longleftrightarrow> (\<exists>c \<in> set s. c \<in> set chars)"

definition trimRight :: "string \<Rightarrow> string \<Rightarrow> string" where
  "trimRight s cutset = rev (dropWhile (\<lambda>c. c \<in> set cutset) (rev s))"

text \<open>
  White space as \<open>unicode.IsSpace\<close> sees it, by the UTF-8 encodings of its members. The lead
  byte of each never occurs inside another encoding, so that a byte-wise scan finds exactly
  the white space of the decoded text.
\<close>

definition space_encodings :: "string list" where
  "space_encodings =
     [[CHR 0x09], [CHR 0x0A], [CHR 0x0B], [CHR 0x0C], [CHR 0x0D], [CHR 0x20],
      [CHR 0xC2, CHR 0x85], [CHR 0xC2, CHR 0xA0], [CHR 0xE1, CHR 0x9A, CHR 0x80],
      [CHR 0xE2, CHR 0x80, CHR 0x80], [CHR 0xE2, CHR 0x80, CHR 0x81],
      [CHR 0xE2, CHR 0x80, CHR 0x82], [CHR 0xE2, CHR 0x80, CHR 0x83],
      [CHR 0xE2, CHR 0x80, CHR 0x84], [CHR 0xE2, CHR 0x80, CHR 0x85],
      [CHR 0xE2, CHR 0x80, CHR 0x86], [CHR 0xE2, CHR 0x80, CHR 0x87],
      [CHR 0xE2, CHR 0x80, CHR 0x88], [CHR 0xE2, CHR 0x80, CHR 0x89],
      [CHR 0xE2, CHR 0x80, CHR 0x8A], [CHR 0xE2, CHR 0x80, CHR 0xA8],
      [CHR 0xE2, CHR 0x80, CHR 0xA9], [CHR 0xE2, CHR 0x80, CHR 0xAF],
      [CHR 0xE2, CHR 0x81, CHR 0x9F], [CHR 0xE3, CHR 0x80, CHR 0x80]]"

definition space_prefix :: "string \<Rightarrow> nat" where
  "space_prefix s = (case find (hasPrefix s) space_encodings of None \<Rightarrow> 0 | Some e \<Rightarrow> length e)"

definition space_suffix :: "string \<Rightarrow> nat" where
  "space_suffix s = (case find (hasSuffix s) space_encodings of None \<Rightarrow> 0 | Some e \<Rightarrow> length e)"

lemma space_encodings_nonempty: "e \<in> set space_encodings \<Longrightarrow> 0 < length e"
  by (auto simp: space_encodings_def)

lemma space_prefix_le: "space_prefix s \<le> length s"
  by (auto simp: space_prefix_def hasPrefix_def find_Some_iff split: option.splits)
    (metis length_take min.cobounded1 min.commute)

lemma space_suffix_le: "space_suffix s \<le> length s"
  by (auto simp: space_suffix_def hasSuffix_def find_Some_iff split: option.splits)

function trimLeftSpace :: "string \<Rightarrow> string" where
  "trimLeftSpace s =
     (if space_prefix s = 0 then s else trimLeftSpace (drop (space_prefix s) s))"
  by pat_completeness auto
termination
proof (relation "measure length")
  fix s assume "space_prefix s \<noteq> 0"
  then show "(drop (space_prefix s) s, s) \<in> measure length"
    using space_prefix_le [of s] by simp
qed simp

function trimRightSpace :: "string \<Rightarrow> string" where
  "trimRightSpace s =
     (if space_suffix s = 0 then s else trimRightSpace (take (length s - space_suffix s) s))"
  by pat_completeness auto
termination
proof (relation "measure length")
  fix s assume "space_suffix s \<noteq> 0"
  then show "(take (length s - space_suffix s) s, s) \<in> measure length"
    using space_suffix_le [of s] by simp
qed simp

declare trimLeftSpace.simps [simp del] trimRightSpace.simps [simp del]

definition trimSpace :: "string \<Rightarrow> string" where
  "trimSpace s = trimRightSpace (trimLeftSpace s)"

text \<open>\<open>strings.Fields\<close>: the maximal runs without white space; \<open>w\<close> is the current run, reversed.\<close>

function fieldsFrom :: "string \<Rightarrow> string \<Rightarrow> string list" where
  "fieldsFrom w [] = (if w = [] then [] else [rev w])"
| "fieldsFrom w (c # cs) =
     (if space_prefix (c # cs) = 0 then fieldsFrom (c # w) cs
      else (if w = [] then [] else [rev w])
             @ fieldsFrom [] (drop (space_prefix (c # cs)) (c # cs)))"
  by pat_completeness auto
termination
proof (relation "measure (\<lambda>(w, s). length s)")
  fix w c cs assume "space_prefix (c # cs) \<noteq> 0"
  then show "(([], drop (space_prefix (c # cs)) (c # cs)), w, c # cs)
      \<in> measure (\<lambda>(w, s). length s)"
    using space_prefix_le [of "c # cs"] by (simp del: drop_Cons')
qed simp_all

definition stringFields :: "string \<Rightarrow> string list" where
  "stringFields s = fieldsFrom [] s"

lemma splitOn_nonempty [simp]: "splitOn sep s \<noteq> []"
  by (induction s) (auto split: list.splits)

lemma splitOn_no_sep: "sep \<notin> set s \<Longrightarrow> splitOn sep s = [s]"
  by (induction s) auto

lemma splitOn_append_sep: "splitOn sep (s @ sep # t) = splitOn sep s @ splitOn sep t"
  by (induction s) (auto split: list.splits)

lemma splitOn_word_no_sep: "w \<in> set (splitOn sep s) \<Longrightarrow> sep \<notin> set w"
proof (induction s arbitrary: w)
  case (Cons c cs)
  show ?case
  proof (cases "splitOn sep cs")
    case Nil
    then show ?thesis by simp
  next
    case (Cons v vs)
    then have "sep \<notin> set v" "\<forall>u \<in> set vs. sep \<notin> set u"
      using Cons.IH by auto
    then show ?thesis using Cons Cons.prems by (auto split: if_splits)
  qed
qed simp

lemma hasPrefix_append [simp]: "hasPrefix (p @ s) p"
  by (simp add: hasPrefix_def)

lemma hasPrefix_iff: "hasPrefix s p \<longleftrightarrow> (\<exists>t. s = p @ t)"
  by (auto simp: hasPrefix_def) (metis append_take_drop_id)

lemma hasSuffix_iff: "hasSuffix s p \<longleftrightarrow> (\<exists>t. s = t @ p)"
  by (auto simp: hasSuffix_def) (metis append_take_drop_id)

lemma containsStr_iff: "containsStr s p \<longleftrightarrow> (\<exists>a b. s = a @ p @ b)"
proof (induction s)
  case (Cons c cs)
  have "(\<exists>a b. c # cs = a @ p @ b) \<longleftrightarrow> hasPrefix (c # cs) p \<or> (\<exists>a b. cs = a @ p @ b)"
    unfolding hasPrefix_iff by (metis Cons_eq_append_conv append_Cons append_Nil)
  with Cons show ?case by simp
qed auto

section \<open>Decimal numbers\<close>

definition isDigit :: "char \<Rightarrow> bool" where
  "isDigit c \<longleftrightarrow> CHR ''0'' \<le> c \<and> c \<le> CHR ''9''"

fun decimal :: "nat \<Rightarrow> string \<Rightarrow> nat" where
  "decimal acc [] = acc"
| "decimal acc (c # cs) = decimal (acc * 10 + (of_char c - 48)) cs"

definition digit_char :: "nat \<Rightarrow> char" where
  "digit_char d = char_of (48 + d)"

text \<open>\<open>dec w n\<close>: the last \<open>w\<close> decimal digits of \<open>n\<close>; \<open>showNat n\<close>: its shortest decimal form.\<close>

fun dec :: "nat \<Rightarrow> nat \<Rightarrow> string" where
  "dec 0 n = []"
| "dec (Suc w) n = dec w (n div 10) @ [digit_char (n mod 10)]"

fun showNat :: "nat \<Rightarrow> string" where
  "showNat n = (if n < 10 then [digit_char n] else showNat (n div 10) @ [digit_char (n mod 10)])"

declare showNat.simps [simp del]

lemma of_char_digit [simp]: "d < 10 \<Longrightarrow> of_char (digit_char d) = (48 + d :: nat)"
  by (simp add: digit_char_def)

lemma isDigit_iff: "isDigit c \<longleftrightarrow> 48 \<le> (of_char c :: nat) \<and> of_char c \<le> (57 :: nat)"
  by (simp add: isDigit_def less_eq_char_def)

lemma isDigit_digit [simp]: "d < 10 \<Longrightarrow> isDigit (digit_char d)"
  by (simp add: isDigit_iff)

lemma length_dec [simp]: "length (dec w n) = w"
  by (induction w arbitrary: n) simp_all

lemma dec_digits: "c \<in> set (dec w n) \<Longrightarrow> isDigit c"
  by (induction w arbitrary: n) auto

lemma decimal_append: "decimal acc (s @ t) = decimal (decimal acc s) t"
  by (induction s arbitrary: acc) simp_all

lemma decimal_shift: "decimal acc s = acc * 10 ^ length s + decimal 0 s"
proof (induction s arbitrary: acc)
  case (Cons c s)
  have "decimal acc (c # s) = decimal (acc * 10 + (of_char c - 48)) s" by simp
  also have "\<dots> = (acc * 10 + (of_char c - 48)) * 10 ^ length s + decimal 0 s"
    by (rule Cons.IH)
  also have "decimal 0 (c # s) = (of_char c - 48) * 10 ^ length s + decimal 0 s"
    using Cons.IH [of "of_char c - 48"] by simp
  ultimately show ?case by (simp add: algebra_simps)
qed simp

lemma decimal_zeros: "decimal 0 (s @ replicate k (CHR ''0'')) = decimal 0 s * 10 ^ k"
proof -
  have "decimal acc (replicate k (CHR ''0'')) = acc * 10 ^ k" for acc
    by (induction k arbitrary: acc) simp_all
  then show ?thesis by (simp add: decimal_append)
qed

lemma decimal_dec: "decimal 0 (dec w n) = n mod 10 ^ w"
proof (induction w arbitrary: n)
  case (Suc w)
  have "decimal 0 (dec (Suc w) n) = (n div 10 mod 10 ^ w) * 10 + n mod 10"
    by (simp add: decimal_append Suc)
  also have "\<dots> = n mod 10 ^ Suc w"
    by (simp add: mod_mult2_eq)
  finally show ?case .
qed simp

section \<open>Text without surrounding white space\<close>

definition visible :: "char \<Rightarrow> bool" where
  "visible c \<longleftrightarrow> (0x21 :: nat) \<le> of_char c \<and> of_char c \<le> (0x7E :: nat)"

lemma space_encodings_visible: "e \<in> set space_encodings \<Longrightarrow> \<not> visible (hd e) \<and> \<not> visible (last e)"
  by (auto simp: space_encodings_def visible_def)

lemma space_prefix_visible: "visible (hd s) \<Longrightarrow> space_prefix s = 0"
  using space_encodings_visible space_encodings_nonempty
  by (fastforce simp: space_prefix_def hasPrefix_iff find_Some_iff split: option.splits)

lemma space_suffix_visible: "visible (last s) \<Longrightarrow> space_suffix s = 0"
  using space_encodings_visible space_encodings_nonempty
  by (fastforce simp: space_suffix_def hasSuffix_iff find_Some_iff split: option.splits)

lemma trimSpace_visible: "visible (hd s) \<Longrightarrow> visible (last s) \<Longrightarrow> trimSpace s = s"
  by (simp add: trimSpace_def trimLeftSpace.simps trimRightSpace.simps
      space_prefix_visible space_suffix_visible)

lemma visible_digit: "isDigit c \<Longrightarrow> visible c"
  by (simp add: visible_def isDigit_iff)

section \<open>Decimal text\<close>

lemma isDigit_digit_char [simp]: "d < 10 \<Longrightarrow> isDigit (digit_char d)"
  by (simp add: isDigit_iff)

lemma showNat_digits: "list_all isDigit (showNat n)"
proof (induction n rule: showNat.induct)
  case (1 n)
  then show ?case by (subst showNat.simps) auto
qed

lemma showNat_nonempty [simp]: "showNat n \<noteq> []"
  by (subst showNat.simps) simp

lemma decimal_showNat [simp]: "decimal 0 (showNat n) = n"
proof (induction n rule: showNat.induct)
  case (1 n)
  then show ?case by (subst showNat.simps) (auto simp: decimal_append)
qed

lemma showNat_leading: "hd (showNat n) = CHR ''0'' \<Longrightarrow> n = 0"
proof (induction n rule: showNat.induct)
  case (1 n)
  show ?case
  proof (cases "n < 10")
    case True
    with 1(2) have "digit_char n = CHR ''0''" by (subst (asm) showNat.simps) simp
    then have "of_char (digit_char n) = (48 :: nat)" by simp
    with True show ?thesis by simp
  next
    case False
    with 1(2) have "hd (showNat (n div 10)) = CHR ''0''" by (subst (asm) showNat.simps) simp
    with 1(1) False show ?thesis by simp
  qed
qed

lemma showNat_0 [simp]: "showNat 0 = ''0''"
  by code_simp

end
