(* ===== verification/Base64.thy ===== *)
theory Base64
  imports WT_Prelude
begin

text \<open>
  The part of Go's \<open>encoding/base64\<close> that the key parsers use: \<open>StdEncoding.EncodedLen\<close>,
  \<open>StdEncoding.EncodeToString\<close>, \<open>StdEncoding.DecodeString\<close> and its \<open>Strict\<close> variant. The
  decoder skips carriage returns and newlines, wants full padding and, when strict, refuses
  non-zero padding bits. The laws are those the clients need: decoding inverts encoding, and
  what the strict decoder accepts is, newlines apart, the encoding of its result.
\<close>

definition b64_alphabet :: string where
  "b64_alphabet = ''ABCDEFGHIJKLMNOPQRSTUVWXYZabcdefghijklmnopqrstuvwxyz0123456789+/''"

fun index_of :: "'a list \<Rightarrow> 'a \<Rightarrow> nat option" where
  "index_of [] x = None"
| "index_of (y # ys) x = (if x = y then Some 0 else map_option Suc (index_of ys x))"

definition b64_char :: "nat \<Rightarrow> char" where
  "b64_char i = b64_alphabet ! i"

definition b64_val :: "char \<Rightarrow> nat option" where
  "b64_val c = index_of b64_alphabet c"

definition b64_pad :: char where
  "b64_pad = CHR ''=''"

text \<open>The four six-bit groups of three octets, and the three octets of four groups.\<close>

definition sxt0 :: "byte \<Rightarrow> nat" where "sxt0 a = unat a div 4"
definition sxt1 :: "byte \<Rightarrow> byte \<Rightarrow> nat" where "sxt1 a b = unat a mod 4 * 16 + unat b div 16"
definition sxt2 :: "byte \<Rightarrow> byte \<Rightarrow> nat" where "sxt2 b c = unat b mod 16 * 4 + unat c div 64"
definition sxt3 :: "byte \<Rightarrow> nat" where "sxt3 c = unat c mod 64"

definition oct0 :: "nat \<Rightarrow> nat \<Rightarrow> byte" where "oct0 s0 s1 = of_nat (s0 * 4 + s1 div 16)"
definition oct1 :: "nat \<Rightarrow> nat \<Rightarrow> byte" where "oct1 s1 s2 = of_nat (s1 mod 16 * 16 + s2 div 4)"
definition oct2 :: "nat \<Rightarrow> nat \<Rightarrow> byte" where "oct2 s2 s3 = of_nat (s2 mod 4 * 64 + s3)"

fun b64_encode :: "bytes \<Rightarrow> string" where
  "b64_encode [] = []"
| "b64_encode [a] = [b64_char (sxt0 a), b64_char (sxt1 a 0), b64_pad, b64_pad]"
| "b64_encode [a, b] = [b64_char (sxt0 a), b64_char (sxt1 a b), b64_char (sxt2 b 0), b64_pad]"
| "b64_encode (a # b # c # rest) =
     b64_char (sxt0 a) # b64_char (sxt1 a b) # b64_char (sxt2 b c) # b64_char (sxt3 c) #
     b64_encode rest"

definition b64_encoded_len :: "nat \<Rightarrow> nat" where
  "b64_encoded_len n = (n + 2) div 3 * 4"

fun b64_quanta :: "bool \<Rightarrow> string \<Rightarrow> bytes option" where
  "b64_quanta strict [] = Some []"
| "b64_quanta strict (c0 # c1 # c2 # c3 # rest) =
     (case b64_val c0 of
        None \<Rightarrow> None
      | Some s0 \<Rightarrow> (case b64_val c1 of
        None \<Rightarrow> None
      | Some s1 \<Rightarrow>
          if c2 = b64_pad then
            (if c3 = b64_pad \<and> rest = [] \<and> (strict \<longrightarrow> s1 mod 16 = 0)
             then Some [oct0 s0 s1] else None)
          else (case b64_val c2 of
              None \<Rightarrow> None
            | Some s2 \<Rightarrow>
                if c3 = b64_pad then
                  (if rest = [] \<and> (strict \<longrightarrow> s2 mod 4 = 0)
                   then Some [oct0 s0 s1, oct1 s1 s2] else None)
                else (case b64_val c3 of
                    None \<Rightarrow> None
                  | Some s3 \<Rightarrow>
                      map_option (\<lambda>r. oct0 s0 s1 # oct1 s1 s2 # oct2 s2 s3 # r)
                        (b64_quanta strict rest)))))"
| "b64_quanta strict _ = None"

definition is_newline :: "char \<Rightarrow> bool" where
  "is_newline c \<longleftrightarrow> c = CHR 0x0A \<or> c = CHR 0x0D"

definition b64_decode :: "bool \<Rightarrow> string \<Rightarrow> bytes option" where
  "b64_decode strict s = b64_quanta strict (filter (\<lambda>c. \<not> is_newline c) s)"

section \<open>The alphabet\<close>

lemma index_of_SomeD: "index_of xs x = Some i \<Longrightarrow> i < length xs \<and> xs ! i = x"
  by (induction xs arbitrary: i) (auto split: if_splits)

lemma index_of_nth: "distinct xs \<Longrightarrow> i < length xs \<Longrightarrow> index_of xs (xs ! i) = Some i"
proof (induction xs arbitrary: i)
  case Nil
  then show ?case by simp
next
  case (Cons y ys)
  then show ?case by (cases i) auto
qed

lemma length_b64_alphabet: "length b64_alphabet = 64"
  by (simp add: b64_alphabet_def)

lemma distinct_b64_alphabet: "distinct b64_alphabet"
  by code_simp

lemma b64_val_char [simp]: "i < 64 \<Longrightarrow> b64_val (b64_char i) = Some i"
  by (simp add: b64_val_def b64_char_def index_of_nth distinct_b64_alphabet length_b64_alphabet)

lemma b64_val_SomeD: "b64_val c = Some i \<Longrightarrow> i < 64 \<and> c = b64_char i"
  by (auto simp: b64_val_def b64_char_def length_b64_alphabet dest: index_of_SomeD)

lemma b64_char_in: "i < 64 \<Longrightarrow> b64_char i \<in> set b64_alphabet"
  by (simp add: b64_char_def length_b64_alphabet)

lemma b64_pad_notin: "b64_pad \<notin> set b64_alphabet"
  by (simp add: b64_alphabet_def b64_pad_def)

lemma b64_char_not_pad [simp]: "i < 64 \<Longrightarrow> b64_char i \<noteq> b64_pad"
  using b64_char_in b64_pad_notin by metis

lemma alphabet_not_newline: "c \<in> set b64_alphabet \<Longrightarrow> \<not> is_newline c"
  by (auto simp: b64_alphabet_def is_newline_def)

lemma b64_char_not_newline [simp]: "i < 64 \<Longrightarrow> \<not> is_newline (b64_char i)"
  using alphabet_not_newline b64_char_in by blast

lemma b64_pad_not_newline [simp]: "\<not> is_newline b64_pad"
  by (simp add: b64_pad_def is_newline_def)

section \<open>Round trips\<close>

lemma unat_byte_lt: "unat (b :: byte) < 256"
  using unsigned_less [where ?'a = nat, of b] by simp

lemmas group_defs = sxt0_def sxt1_def sxt2_def sxt3_def oct0_def oct1_def oct2_def

lemma sxt_bounds [simp]: "sxt0 a < 64" "sxt1 a b < 64" "sxt2 a b < 64" "sxt3 a < 64"
proof -
  have "unat a div 4 < 64" "unat b div 16 < 16" "unat b div 64 < 4"
    using unat_byte_lt [of a] unat_byte_lt [of b] by (simp_all add: less_mult_imp_div_less)
  moreover have "unat a mod 4 < 4" "unat a mod 16 < 16" "unat a mod 64 < 64" by simp_all
  ultimately show "sxt0 a < 64" "sxt1 a b < 64" "sxt2 a b < 64" "sxt3 a < 64"
    unfolding group_defs by linarith+
qed

lemma sxt_padding [simp]: "sxt1 a 0 mod 16 = 0" "sxt2 a 0 mod 4 = 0"
  by (simp_all add: group_defs)

lemma regroup:
  fixes a b c :: nat
  assumes "a < 256" "b < 256" "c < 256"
  shows "a div 4 * 4 + (a mod 4 * 16 + b div 16) div 16 = a"
    and "(a mod 4 * 16 + b div 16) mod 16 * 16 + (b mod 16 * 4 + c div 64) div 4 = b"
    and "(b mod 16 * 4 + c div 64) mod 4 * 64 + c mod 64 = c"
  using assms by (simp_all add: div_mult2_eq)

lemma oct_sxt [simp]:
  "oct0 (sxt0 a) (sxt1 a b) = a" "oct1 (sxt1 a b) (sxt2 b c) = b" "oct2 (sxt2 b c) (sxt3 c) = c"
  unfolding group_defs
  by (simp_all only: regroup [OF unat_byte_lt [of a] unat_byte_lt [of b] unat_byte_lt [of c]]
      of_nat_unat ucast_id)

lemma b64_quanta_encode: "b64_quanta strict (b64_encode bs) = Some bs"
  by (induction bs rule: b64_encode.induct) simp_all

lemma b64_encode_no_newline: "c \<in> set (b64_encode bs) \<Longrightarrow> \<not> is_newline c"
  by (induction bs rule: b64_encode.induct) auto

lemma b64_decode_encode [simp]: "b64_decode strict (b64_encode bs) = Some bs"
proof -
  have "filter (\<lambda>c. \<not> is_newline c) (b64_encode bs) = b64_encode bs"
    by (rule filter_True) (auto dest: b64_encode_no_newline)
  then show ?thesis by (simp add: b64_decode_def b64_quanta_encode)
qed

lemma b64_encode_inject [simp]: "b64_encode a = b64_encode b \<longleftrightarrow> a = b"
  by (metis b64_quanta_encode option.inject)

lemma length_b64_encode: "length (b64_encode bs) = b64_encoded_len (length bs)"
proof (induction bs rule: b64_encode.induct)
  case (4 a b c rest)
  have "(length rest + 3 + 2) div 3 = (length rest + 2) div 3 + 1" by simp
  with 4 show ?case by (simp add: b64_encoded_len_def)
qed (simp_all add: b64_encoded_len_def)

end
