(* ===== verification/Wire.thy ===== *)
theory Wire
  imports Base64
begin

text \<open>
  SSH wire encoding: \<open>src/internal/sshwire/public_key.go\<close> (\<open>AppendString\<close>,
  \<open>ConsumeString\<close>, \<open>ValidatePublicKeyBlob\<close>) and \<open>src/internal/dataplane/wire.go\<close> (the
  data plane's own wrappers around them). The interface that the message handlers rely on is
  stated as two locales: \<open>prefix_decoder\<close> (decoding an encoded value followed by anything
  gives the value back and leaves the rest) and \<open>prefix_codec\<close> (moreover, whatever decodes
  was encoded). Strings and 32-bit integers are codecs, booleans only a decoder, because the
  code reads every non-zero byte as true.
\<close>

section \<open>Definitions\<close>

datatype wire_error = TruncatedLength | TruncatedValue

definition AppendString :: "bytes \<Rightarrow> bytes \<Rightarrow> bytes" where
  "AppendString dst value = (dst @ be32 (of_nat (length value))) @ value"

definition ConsumeString :: "bytes \<Rightarrow> wire_error + (bytes \<times> bytes)" where
  "ConsumeString input =
     (if length input < 4 then Inl TruncatedLength
      else let len = get32 (take 4 input) in
        if unat len > length input - 4 then Inl TruncatedValue
        else let end = 4 + unat len in
          Inr (drop end input, drop 4 (take end input)))"

definition sshString :: "bytes \<Rightarrow> bytes" where
  "sshString value = AppendString [] value"

text \<open>The data plane's readers return \<open>None\<close> for \<open>errTruncated\<close>, else the value and the rest.\<close>

definition consumeSSHString :: "bytes \<Rightarrow> (bytes \<times> bytes) option" where
  "consumeSSHString input =
     (case ConsumeString input of
        Inl _ \<Rightarrow> None
      | Inr (rest, value) \<Rightarrow> Some (value, rest))"

definition consumeUint32 :: "bytes \<Rightarrow> (uint32 \<times> bytes) option" where
  "consumeUint32 input =
     (if length input < 4 then None else Some (get32 (take 4 input), drop 4 input))"

definition consumeBool :: "bytes \<Rightarrow> (bool \<times> bytes) option" where
  "consumeBool input =
     (case input of [] \<Rightarrow> None | b # rest \<Rightarrow> Some (b \<noteq> 0, rest))"

definition Algorithm :: string where
  "Algorithm = ''ssh-mldsa44-ed25519@openssh.com''"

definition hostKeyBlob :: "bytes \<Rightarrow> bytes" where
  "hostKeyBlob rawPub = sshString (bytes_of Algorithm) @ sshString rawPub"

definition signatureBlob :: "bytes \<Rightarrow> bytes" where
  "signatureBlob rawSig = sshString (bytes_of Algorithm) @ sshString rawSig"

datatype blob_error =
    RawSizeNotPositive
  | WrongEncodedLength nat nat
  | NotBase64
  | NotCanonicalBase64
  | ReadAlgorithm wire_error
  | AlgorithmMismatch bytes string
  | ReadRawKey wire_error
  | WrongRawLength nat int
  | TrailingBytes nat

definition ValidatePublicKeyBlob :: "string \<Rightarrow> string \<Rightarrow> int \<Rightarrow> blob_error + unit" where
  "ValidatePublicKeyBlob encoded algorithm rawKeyBytes =
     (if rawKeyBytes \<le> 0 then Inl RawSizeNotPositive
      else
        let expectedBlobBytes = 4 + length algorithm + 4 + nat rawKeyBytes;
            expectedEncodedBytes = b64_encoded_len expectedBlobBytes in
        if length encoded \<noteq> expectedEncodedBytes
        then Inl (WrongEncodedLength (length encoded) expectedEncodedBytes)
        else (case b64_decode True encoded of
            None \<Rightarrow> Inl NotBase64
          | Some blob \<Rightarrow>
              if b64_encode blob \<noteq> encoded then Inl NotCanonicalBase64
              else (case ConsumeString blob of
                  Inl e \<Rightarrow> Inl (ReadAlgorithm e)
                | Inr (remaining, name) \<Rightarrow>
                    if string_of name \<noteq> algorithm then Inl (AlgorithmMismatch name algorithm)
                    else (case ConsumeString remaining of
                        Inl e \<Rightarrow> Inl (ReadRawKey e)
                      | Inr (remaining', rawKey) \<Rightarrow>
                          if int (length rawKey) \<noteq> rawKeyBytes
                          then Inl (WrongRawLength (length rawKey) rawKeyBytes)
                          else if length remaining' \<noteq> 0
                          then Inl (TrailingBytes (length remaining'))
                          else Inr ()))))"

section \<open>The codec interface\<close>

locale prefix_decoder =
  fixes enc :: "'a \<Rightarrow> bytes"
    and dec :: "bytes \<Rightarrow> ('a \<times> bytes) option"
    and fits :: "'a \<Rightarrow> bool"
  assumes dec_enc: "fits a \<Longrightarrow> dec (enc a @ rest) = Some (a, rest)"
begin

lemma dec_enc_exact: "fits a \<Longrightarrow> dec (enc a) = Some (a, [])"
  using dec_enc [of a "[]"] by simp

lemma enc_append_inject:
  "fits a \<Longrightarrow> fits b \<Longrightarrow> enc a @ xs = enc b @ ys \<longleftrightarrow> a = b \<and> xs = ys"
  by (metis dec_enc option.inject prod.inject)

lemma enc_inject: "fits a \<Longrightarrow> fits b \<Longrightarrow> enc a = enc b \<longleftrightarrow> a = b"
  using enc_append_inject [of a b "[]" "[]"] by simp

end

locale prefix_codec = prefix_decoder +
  assumes enc_dec: "dec input = Some (a, rest) \<Longrightarrow> fits a \<and> input = enc a @ rest"
begin

lemma dec_iff: "dec input = Some (a, rest) \<longleftrightarrow> fits a \<and> input = enc a @ rest"
  using dec_enc enc_dec by blast

lemma dec_shortens: "dec input = Some (a, rest) \<Longrightarrow> length input = length (enc a) + length rest"
  by (auto dest: enc_dec)

lemma dec_None_iff: "dec input = None \<longleftrightarrow> (\<forall>a rest. fits a \<longrightarrow> input \<noteq> enc a @ rest)"
  by (metis dec_iff not_Some_eq surj_pair)

end

section \<open>Strings, integers and booleans\<close>

definition fits32 :: "bytes \<Rightarrow> bool" where
  "fits32 v \<longleftrightarrow> length v < 2 ^ 32"

lemma sshString_def': "sshString v = be32 (of_nat (length v)) @ v"
  by (simp add: sshString_def AppendString_def)

lemma length_sshString [simp]: "length (sshString v) = 4 + length v"
  by (simp add: sshString_def')

lemma AppendString_sshString: "AppendString dst v = dst @ sshString v"
  by (simp add: AppendString_def sshString_def')

lemma ConsumeString_sshString:
  assumes "fits32 v"
  shows "ConsumeString (sshString v @ rest) = Inr (rest, v)"
  using assms unat_of_nat_small32 [of "length v"]
  by (simp add: ConsumeString_def sshString_def' fits32_def)

lemma ConsumeString_InrD:
  assumes "ConsumeString input = Inr (rest, v)"
  shows "fits32 v \<and> input = sshString v @ rest"
proof -
  let ?len = "get32 (take 4 input)"
  from assms have l4: "\<not> length input < 4" and fit: "unat ?len \<le> length input - 4"
    and rest: "rest = drop (4 + unat ?len) input" and v: "v = drop 4 (take (4 + unat ?len) input)"
    by (auto simp: ConsumeString_def Let_def split: if_splits)
  have lv: "length v = unat ?len"
    using l4 fit by (simp add: v)
  have lt: "unat ?len < 2 ^ 32"
    using unsigned_less [where ?'a = nat, of ?len] by simp
  have "v @ rest = take (unat ?len) (drop 4 input) @ drop (unat ?len) (drop 4 input)"
    by (simp add: v rest drop_take add.commute)
  then have "v @ rest = drop 4 input" by (simp only: append_take_drop_id)
  then have "input = take 4 input @ v @ rest" by simp
  moreover have "be32 (of_nat (length v)) = take 4 input"
    using l4 be32_get32 [of "take 4 input"] by (simp add: lv)
  ultimately show ?thesis
    using lt by (simp add: sshString_def' fits32_def lv)
qed

interpretation ssh: prefix_codec sshString consumeSSHString fits32
proof unfold_locales
  fix a rest
  assume "fits32 a"
  then show "consumeSSHString (sshString a @ rest) = Some (a, rest)"
    by (simp add: consumeSSHString_def ConsumeString_sshString)
next
  fix input a rest
  assume "consumeSSHString input = Some (a, rest)"
  then have "ConsumeString input = Inr (rest, a)"
    by (auto simp: consumeSSHString_def split: sum.splits prod.splits)
  then show "fits32 a \<and> input = sshString a @ rest"
    by (rule ConsumeString_InrD)
qed

interpretation u32: prefix_codec be32 consumeUint32 "\<lambda>_. True"
proof unfold_locales
  fix a rest
  show "consumeUint32 (be32 a @ rest) = Some (a, rest)"
    by (simp add: consumeUint32_def)
next
  fix input a rest
  assume "consumeUint32 input = Some (a, rest)"
  then show "True \<and> input = be32 a @ rest"
    by (auto simp: consumeUint32_def be32_get32 split: if_splits)
qed

definition encBool :: "bool \<Rightarrow> bytes" where
  "encBool b = [if b then 1 else 0]"

interpretation bool: prefix_decoder encBool consumeBool "\<lambda>_. True"
  by unfold_locales (simp add: encBool_def consumeBool_def)

lemmas [wire_simps] = ssh.dec_enc ssh.dec_enc_exact u32.dec_enc u32.dec_enc_exact
  bool.dec_enc bool.dec_enc_exact

section \<open>Public-key blobs\<close>

lemma length_Algorithm: "length Algorithm = 31"
  by (simp add: Algorithm_def)

lemma hostKeyBlob_inject [simp]: "hostKeyBlob a = hostKeyBlob b \<longleftrightarrow> a = b"
proof
  assume "hostKeyBlob a = hostKeyBlob b"
  then have "sshString a = sshString b" by (simp add: hostKeyBlob_def)
  then show "a = b" by (simp add: sshString_def')
qed simp

text \<open>
  The accepting branch of \<open>ValidatePublicKeyBlob\<close>, in one equation: the text is the canonical
  base64 of the algorithm name and a raw key of the demanded size, and nothing else.
\<close>

lemma ValidatePublicKeyBlob_ok_iff:
  assumes "length algorithm < 2 ^ 32" and "rawKeyBytes < 2 ^ 32"
  shows "ValidatePublicKeyBlob encoded algorithm rawKeyBytes = Inr () \<longleftrightarrow>
    0 < rawKeyBytes \<and>
    (\<exists>raw. int (length raw) = rawKeyBytes \<and>
      encoded = b64_encode (sshString (bytes_of algorithm) @ sshString raw))"
    (is "?ok \<longleftrightarrow> ?canon")
proof
  assume ?ok
  then obtain blob remaining name raw rest where
    pos: "0 < rawKeyBytes" and dec: "b64_decode True encoded = Some blob"
    and enc: "b64_encode blob = encoded"
    and c1: "ConsumeString blob = Inr (remaining, name)" and nm: "string_of name = algorithm"
    and c2: "ConsumeString remaining = Inr (rest, raw)"
    and len: "int (length raw) = rawKeyBytes" and r: "rest = []"
    by (auto simp: ValidatePublicKeyBlob_def Let_def split: if_splits option.splits sum.splits)
  have "blob = sshString (bytes_of algorithm) @ sshString raw"
    using ConsumeString_InrD [OF c1] ConsumeString_InrD [OF c2] nm r
    by (auto simp: string_of_eq_bytes)
  with pos len enc show ?canon by blast
next
  assume ?canon
  then obtain raw where pos: "0 < rawKeyBytes" and len: "int (length raw) = rawKeyBytes"
    and enc: "encoded = b64_encode (sshString (bytes_of algorithm) @ sshString raw)"
    by blast
  have f: "fits32 (bytes_of algorithm)" "fits32 raw"
    using assms len by (simp_all add: fits32_def)
  have c2: "ConsumeString (sshString raw) = Inr ([], raw)"
    using ConsumeString_sshString [OF f(2), of "[]"] by simp
  have "length encoded = b64_encoded_len (4 + length algorithm + 4 + nat rawKeyBytes)"
    using len by (simp add: enc length_b64_encode ac_simps flip: len)
  with pos len f c2 show ?ok
    by (simp add: ValidatePublicKeyBlob_def enc ConsumeString_sshString)
qed

end
