(* ===== verification/Packet.thy ===== *)
theory Packet
  imports Wire
begin

text \<open>
  The SSH binary packet layer of the data plane: \<open>src/internal/dataplane/packet.go\<close> and
  \<open>writePacket\<close> of \<open>src/internal/dataplane/listen.go\<close>. The stream cipher and the one-time
  authenticator come from \<open>golang.org/x/crypto\<close> and are parameters: \<open>ks key nonce counter i\<close>
  is byte \<open>i\<close> of the ChaCha20 key stream started at block \<open>counter\<close>, and \<open>poly key msg i\<close> is
  byte \<open>i\<close> of the Poly1305 tag. Their constructors fail only for keys or nonces of the wrong size, which
  the array types of the code exclude. \<open>fill\<close> is what \<open>rand.Read\<close> puts into the padding. An
  \<open>io.Reader\<close> is the list of bytes that it will still deliver before it ends.
\<close>

section \<open>Definitions\<close>

type_synonym keystream = "bytes \<Rightarrow> bytes \<Rightarrow> nat \<Rightarrow> nat \<Rightarrow> byte"
type_synonym authenticator = "bytes \<Rightarrow> bytes \<Rightarrow> nat \<Rightarrow> byte"

definition maxPacket :: nat where "maxPacket = 256 * 1024"
definition chachaKeySize :: nat where "chachaKeySize = 32"
definition chachaKeyTotal :: nat where "chachaKeyTotal = 64"
definition poly1305TagSize :: nat where "poly1305TagSize = 16"
definition chachaBlock :: nat where "chachaBlock = 8"

record chachaDirection =
  payloadKey :: bytes
  lengthKey :: bytes

datatype packet_error =
    ShortKey nat
  | EmptyPayload
  | ReadError
  | InvalidPacketLength uint32
  | TagMismatch
  | ShortPacketBody
  | InvalidPadding nat
  | InvalidClearLength uint32
  | InvalidClearPadding

definition newChaChaDirection :: "bytes \<Rightarrow> packet_error + chachaDirection" where
  "newChaChaDirection key =
     (if length key < chachaKeyTotal then Inl (ShortKey (length key))
      else Inr \<lparr>payloadKey = take chachaKeySize key,
                lengthKey = take (chachaKeyTotal - chachaKeySize) (drop chachaKeySize key)\<rparr>)"

definition seqNonce :: "uint64 \<Rightarrow> bytes" where
  "seqNonce seq = replicate 4 0 @ be64 seq"

text \<open>\<open>XORKeyStream\<close> of a fresh cipher positioned at block \<open>counter\<close>.\<close>

definition xorKeyStream :: "keystream \<Rightarrow> bytes \<Rightarrow> bytes \<Rightarrow> nat \<Rightarrow> bytes \<Rightarrow> bytes" where
  "xorKeyStream ks key nonce counter src =
     map2 (\<lambda>i b. b XOR ks key nonce counter i) [0..<length src] src"

definition poly1305Tag ::
  "keystream \<Rightarrow> authenticator \<Rightarrow> bytes \<Rightarrow> bytes \<Rightarrow> bytes \<Rightarrow> bytes \<Rightarrow> bytes" where
  "poly1305Tag ks poly payload_key nonce encLen encBody =
     (let polyKey = xorKeyStream ks payload_key nonce 0 (replicate 32 0);
          msg = encLen @ encBody
      in map (poly polyKey msg) [0..<poly1305TagSize])"

lemma length_poly1305Tag [simp]:
  "length (poly1305Tag ks poly k nonce encLen encBody) = poly1305TagSize"
  by (simp add: poly1305Tag_def Let_def)

definition padPayload :: "(nat \<Rightarrow> byte) \<Rightarrow> bytes \<Rightarrow> nat \<Rightarrow> bytes" where
  "padPayload fill payload block =
     (let padding = block - ((1 + length payload) mod block);
          padding = (if padding < 4 then padding + block else padding)
      in of_nat padding # payload @ map fill [0..<padding])"

definition unpadPayload :: "bytes \<Rightarrow> packet_error + bytes" where
  "unpadPayload body =
     (if length body < 5 then Inl ShortPacketBody
      else let pad = unat (hd body) in
        if pad < 4 \<or> 1 + pad \<ge> length body then Inl (InvalidPadding pad)
        else Inr (drop 1 (take (length body - pad) body)))"

definition seal ::
  "keystream \<Rightarrow> authenticator \<Rightarrow> (nat \<Rightarrow> byte) \<Rightarrow> chachaDirection \<Rightarrow> uint64 \<Rightarrow> bytes
    \<Rightarrow> packet_error + bytes" where
  "seal ks poly fill d seq payload =
     (if length payload = 0 then Inl EmptyPayload
      else
        let body = padPayload fill payload chachaBlock;
            nonce = seqNonce seq;
            encLen = xorKeyStream ks (lengthKey d) nonce 0 (be32 (of_nat (length body)));
            encBody = xorKeyStream ks (payloadKey d) nonce 1 body;
            tag = poly1305Tag ks poly (payloadKey d) nonce encLen encBody
        in Inr (encLen @ encBody @ tag))"

definition openPacket ::
  "keystream \<Rightarrow> authenticator \<Rightarrow> chachaDirection \<Rightarrow> uint64 \<Rightarrow> bytes
    \<Rightarrow> packet_error + (bytes \<times> bytes)" where
  "openPacket ks poly d seq r =
     (if length r < 4 then Inl ReadError
      else
        let encLen = take 4 r;
            r = drop 4 r;
            nonce = seqNonce seq;
            plainLen = xorKeyStream ks (lengthKey d) nonce 0 encLen;
            n = get32 plainLen
        in if n < 5 \<or> unat n > maxPacket then Inl (InvalidPacketLength n)
        else if length r < unat n + poly1305TagSize then Inl ReadError
        else
          let rest = take (unat n + poly1305TagSize) r;
              r = drop (unat n + poly1305TagSize) r;
              encBody = take (unat n) rest;
              got = drop (unat n) rest;
              want = poly1305Tag ks poly (payloadKey d) nonce encLen encBody
          in if got \<noteq> want then Inl TagMismatch
          else
            let body = xorKeyStream ks (payloadKey d) nonce 1 encBody
            in (case unpadPayload body of
                  Inl e \<Rightarrow> Inl e
                | Inr payload \<Rightarrow> Inr (payload, r)))"

definition readClearPacket :: "bytes \<Rightarrow> packet_error + (bytes \<times> bytes)" where
  "readClearPacket r =
     (if length r < 5 then Inl ReadError
      else
        let header = take 5 r;
            r = drop 5 r;
            n = get32 (take 4 header)
        in if n < 12 \<or> unat n > maxPacket then Inl (InvalidClearLength n)
        else if length r < unat n - 1 then Inl ReadError
        else
          let rest = take (unat n - 1) r;
              r = drop (unat n - 1) r;
              pad = unat (header ! 4)
          in if pad < 4 \<or> pad > length rest then Inl InvalidClearPadding
          else Inr (take (length rest - pad) rest, r))"

definition writePacket :: "(nat \<Rightarrow> byte) \<Rightarrow> bytes \<Rightarrow> bytes" where
  "writePacket fill payload =
     (let padding = 8 - ((1 + length payload + 4) mod 8);
          padding = (if padding < 4 then padding + 8 else padding);
          packetLen = 1 + length payload + padding
      in be32 (of_nat packetLen) @ [of_nat padding] @ payload @ map fill [0..<padding])"

section \<open>The stream cipher\<close>

lemma length_xorKeyStream [simp]: "length (xorKeyStream ks k n c src) = length src"
  by (simp add: xorKeyStream_def)

lemma nth_xorKeyStream:
  "i < length src \<Longrightarrow> xorKeyStream ks k n c src ! i = src ! i XOR ks k n c i"
  by (simp add: xorKeyStream_def)

lemma xorKeyStream_involution [simp]:
  "xorKeyStream ks k n c (xorKeyStream ks k n c src) = src"
  by (rule nth_equalityI) (simp_all add: nth_xorKeyStream ac_simps)

lemma xorKeyStream_inject [simp]:
  "xorKeyStream ks k n c a = xorKeyStream ks k n c b \<longleftrightarrow> a = b"
  by (metis xorKeyStream_involution)

lemma seqNonce_inject [simp]: "seqNonce a = seqNonce b \<longleftrightarrow> a = b"
  by (simp add: seqNonce_def)

lemma length_seqNonce: "length (seqNonce seq) = 12"
  by (simp add: seqNonce_def)

section \<open>Padding\<close>

definition pad_len :: "nat \<Rightarrow> nat \<Rightarrow> nat" where
  "pad_len block n =
     (let p = block - n mod block in if p < 4 then p + block else p)"

lemma pad_mod: "(n + (8 - n mod 8)) mod 8 = (0 :: nat)"
proof -
  have "n + (8 - n mod 8) = 8 * (n div 8) + 8"
    using mult_div_mod_eq [of 8 n] mod_less_divisor [of 8 n] by linarith
  then show ?thesis by simp
qed

lemma pad_len_8: "4 \<le> pad_len 8 n" "pad_len 8 n < 12" "(n + pad_len 8 n) mod 8 = 0"
proof -
  have m: "n mod 8 < 8" by simp
  show "4 \<le> pad_len 8 n" and "pad_len 8 n < 12"
    using m by (auto simp: pad_len_def Let_def)
  have "(n + (8 - n mod 8 + 8)) mod 8 = (n + (8 - n mod 8)) mod 8"
    by (metis add.assoc mod_add_self2)
  then show "(n + pad_len 8 n) mod 8 = 0"
    using pad_mod [of n] by (simp add: pad_len_def Let_def)
qed

lemma padPayload_eq:
  "padPayload fill payload 8 =
     of_nat (pad_len 8 (1 + length payload)) # payload
       @ map fill [0..<pad_len 8 (1 + length payload)]"
  by (simp add: padPayload_def pad_len_def Let_def)

lemma writePacket_eq:
  "writePacket fill payload =
     be32 (of_nat (1 + length payload + pad_len 8 (1 + length payload + 4)))
       @ [of_nat (pad_len 8 (1 + length payload + 4))] @ payload
       @ map fill [0..<pad_len 8 (1 + length payload + 4)]"
  by (simp add: writePacket_def pad_len_def Let_def)

lemma unpad_body:
  assumes "4 \<le> p" and "p < 256" and "length pads = p" and "payload \<noteq> []"
  shows "unpadPayload (of_nat p # payload @ pads) = Inr payload"
proof -
  have "0 < length payload" using assms(4) by simp
  then show ?thesis
    using assms unat_of_nat_small8 [of p] by (simp add: unpadPayload_def)
qed

lemma unpadPayload_padPayload:
  assumes "payload \<noteq> []"
  shows "unpadPayload (padPayload fill payload 8) = Inr payload"
  unfolding padPayload_eq
  using assms pad_len_8(1,2) [of "1 + length payload"] by (intro unpad_body) auto

lemma unpadPayload_InrD:
  "unpadPayload body = Inr payload \<Longrightarrow> payload \<noteq> [] \<and> length payload + 5 \<le> length body"
  by (auto simp: unpadPayload_def Let_def split: if_splits)

section \<open>The packet interface\<close>

text \<open>
  What the transport promises to the message layer, whatever the encoding of one packet is:
  packet number \<open>seq\<close> written to a stream is read back from it, and what follows it is left
  alone. Every packet is written with random bytes of its own, so a run of packets is a list of
  pairs of padding and payload. A run of packets written under consecutive numbers is then read back in order.
\<close>

type_synonym padding = "nat \<Rightarrow> byte"

fun write_packets ::
  "(uint64 \<Rightarrow> padding \<Rightarrow> bytes \<Rightarrow> bytes) \<Rightarrow> uint64 \<Rightarrow> (padding \<times> bytes) list \<Rightarrow> bytes" where
  "write_packets frame seq [] = []"
| "write_packets frame seq ((fill, p) # ps) =
     frame seq fill p @ write_packets frame (seq + 1) ps"

fun read_packets ::
  "(uint64 \<Rightarrow> bytes \<Rightarrow> packet_error + (bytes \<times> bytes)) \<Rightarrow> uint64 \<Rightarrow> nat \<Rightarrow> bytes
    \<Rightarrow> packet_error + (bytes list \<times> bytes)" where
  "read_packets unframe seq 0 r = Inr ([], r)"
| "read_packets unframe seq (Suc n) r =
     (case unframe seq r of
        Inl e \<Rightarrow> Inl e
      | Inr (p, r') \<Rightarrow>
          (case read_packets unframe (seq + 1) n r' of
             Inl e \<Rightarrow> Inl e
           | Inr (ps, r'') \<Rightarrow> Inr (p # ps, r'')))"

locale packet_layer =
  fixes frame :: "uint64 \<Rightarrow> padding \<Rightarrow> bytes \<Rightarrow> bytes"
    and unframe :: "uint64 \<Rightarrow> bytes \<Rightarrow> packet_error + (bytes \<times> bytes)"
    and sendable :: "bytes \<Rightarrow> bool"
  assumes unframe_frame: "sendable p \<Longrightarrow> unframe seq (frame seq fill p @ rest) = Inr (p, rest)"
begin

lemma read_write_packets:
  assumes "list_all sendable (map snd ps)"
  shows "read_packets unframe seq (length ps) (write_packets frame seq ps @ rest) =
    Inr (map snd ps, rest)"
  using assms
proof (induction ps arbitrary: seq)
  case (Cons q ps)
  then show ?case by (cases q) (simp add: unframe_frame)
qed simp

lemma frame_inject:
  "sendable p \<Longrightarrow> sendable q \<Longrightarrow> frame seq fill p = frame seq fill' q \<Longrightarrow> p = q"
  using unframe_frame [of p seq fill "[]"] unframe_frame [of q seq fill' "[]"] by simp

end

definition sealable :: "bytes \<Rightarrow> bool" where
  "sealable p \<longleftrightarrow> p \<noteq> [] \<and> 1 + length p + pad_len 8 (1 + length p) \<le> maxPacket"

definition clear_sendable :: "bytes \<Rightarrow> bool" where
  "clear_sendable p \<longleftrightarrow> 1 + length p + pad_len 8 (1 + length p + 4) \<le> maxPacket"

lemma unat_small_maxPacket: "n \<le> maxPacket \<Longrightarrow> unat (of_nat n :: uint32) = n"
  by (rule unat_of_nat_small32) (simp add: maxPacket_def)

lemma readClearPacket_frame:
  assumes "unat n = 1 + length p + length pads" and "12 \<le> unat n" and "unat n \<le> maxPacket"
    and "unat pad = length pads" and "4 \<le> length pads"
  shows "readClearPacket (be32 n @ pad # p @ pads @ rest) = Inr (p, rest)"
proof -
  have "\<not> n < 12" using assms(2) by (simp add: word_less_nat_alt)
  with assms show ?thesis
    by (simp add: readClearPacket_def nth_append)
qed

lemma readClearPacket_writePacket:
  assumes "clear_sendable p"
  shows "readClearPacket (writePacket fill p @ rest) = Inr (p, rest)"
proof -
  let ?pad = "pad_len 8 (1 + length p + 4)"
  let ?n = "1 + length p + ?pad"
  have le: "?n \<le> maxPacket" using assms by (simp add: clear_sendable_def)
  have pad: "4 \<le> ?pad" "?pad < 12" "(1 + length p + 4 + ?pad) mod 8 = 0"
    by (rule pad_len_8)+
  have "(?n + 4) mod 8 = 0" using pad(3) by (simp add: ac_simps)
  with pad(1) have n12: "12 \<le> ?n" by presburger
  have un: "unat (of_nat ?n :: uint32) = ?n" by (rule unat_small_maxPacket [OF le])
  have up: "unat (of_nat ?pad :: byte) = ?pad" using pad(2) by (intro unat_of_nat_small8) simp
  have "readClearPacket (be32 (of_nat ?n) @ of_nat ?pad # p @ map fill [0..<?pad] @ rest) =
      Inr (p, rest)"
    by (rule readClearPacket_frame) (use le n12 un up pad(1) in simp_all)
  then show ?thesis by (simp only: writePacket_eq append_assoc append_Cons append_Nil)
qed

lemma openPacket_frame:
  assumes len: "unat n = length encBody" and n5: "5 \<le> unat n" and max: "unat n \<le> maxPacket"
    and tag: "tag = poly1305Tag ks poly (payloadKey d) (seqNonce seq) encLen encBody"
    and encLen: "encLen = xorKeyStream ks (lengthKey d) (seqNonce seq) 0 (be32 n)"
  shows "openPacket ks poly d seq (encLen @ encBody @ tag @ rest) =
    (case unpadPayload (xorKeyStream ks (payloadKey d) (seqNonce seq) 1 encBody) of
       Inl e \<Rightarrow> Inl e | Inr payload \<Rightarrow> Inr (payload, rest))"
proof -
  have "\<not> n < 5" using n5 by (simp add: word_less_nat_alt)
  moreover have "length encLen = 4" by (simp add: encLen)
  moreover have "xorKeyStream ks (lengthKey d) (seqNonce seq) 0 encLen = be32 n"
    by (simp add: encLen)
  ultimately show ?thesis
    using len max by (simp add: openPacket_def Let_def tag)
qed

lemma openPacket_seal:
  assumes p: "sealable p"
  shows "\<exists>frame. seal ks poly fill d seq p = Inr frame \<and>
    openPacket ks poly d seq (frame @ rest) = Inr (p, rest)"
proof -
  let ?body = "padPayload fill p chachaBlock" and ?nonce = "seqNonce seq"
  let ?encLen = "xorKeyStream ks (lengthKey d) ?nonce 0 (be32 (of_nat (length ?body)))"
  let ?encBody = "xorKeyStream ks (payloadKey d) ?nonce 1 ?body"
  let ?tag = "poly1305Tag ks poly (payloadKey d) ?nonce ?encLen ?encBody"
  have ne: "p \<noteq> []" using p by (simp add: sealable_def)
  have b8: "?body = padPayload fill p 8" by (simp add: chachaBlock_def)
  have le: "length ?body \<le> maxPacket"
    using p by (simp add: b8 padPayload_eq sealable_def)
  have ge: "5 \<le> length ?body"
    using pad_len_8(1) [of "1 + length p"] by (simp add: b8 padPayload_eq)
  have un: "unat (of_nat (length ?body) :: uint32) = length ?body"
    by (rule unat_small_maxPacket [OF le])
  have "openPacket ks poly d seq (?encLen @ ?encBody @ ?tag @ rest) = Inr (p, rest)"
    using ne un ge le
    by (subst openPacket_frame [where n = "of_nat (length ?body)"])
      (simp_all add: poly1305Tag_def Let_def b8 unpadPayload_padPayload)
  moreover have "seal ks poly fill d seq p = Inr (?encLen @ ?encBody @ ?tag)"
    using ne by (simp add: seal_def Let_def)
  ultimately show ?thesis by simp
qed

interpretation clear: packet_layer "\<lambda>_. writePacket" "\<lambda>_. readClearPacket" clear_sendable
  by unfold_locales (rule readClearPacket_writePacket)

definition sealed_frame ::
  "keystream \<Rightarrow> authenticator \<Rightarrow> chachaDirection \<Rightarrow> uint64 \<Rightarrow> padding \<Rightarrow> bytes \<Rightarrow> bytes" where
  "sealed_frame ks poly d seq fill p =
     (case seal ks poly fill d seq p of Inl _ \<Rightarrow> [] | Inr frame \<Rightarrow> frame)"

interpretation sealed:
  packet_layer "sealed_frame ks poly d" "openPacket ks poly d" sealable
  for ks poly d
proof unfold_locales
  fix p seq fill rest
  assume "sealable p"
  then show "openPacket ks poly d seq (sealed_frame ks poly d seq fill p @ rest) = Inr (p, rest)"
    using openPacket_seal [of p ks poly fill d seq rest] by (auto simp: sealed_frame_def)
qed

section \<open>Properties\<close>

text \<open>
  C1. A run of payloads sealed under consecutive sequence numbers, each with padding bytes of its
  own and followed by anything, is opened under the same numbers into exactly those payloads in
  their order, for every key stream, authenticator, key pair and choice of the paddings. The
  payloads are those that the layer carries: not empty, and at most \<open>maxPacket\<close> bytes long
  together with the padding-length byte and the padding.
\<close>

theorem sealed_stream_roundtrip:
  assumes "list_all sealable (map snd ps)"
  shows "read_packets (openPacket ks poly d) seq (length ps)
           (write_packets (sealed_frame ks poly d) seq ps @ rest) = Inr (map snd ps, rest)"
  using assms by (rule sealed.read_write_packets)

theorem sealed_stream_roundtrip_witness:
  "read_packets (openPacket (\<lambda>_ _ c i. of_nat (c + i)) (\<lambda>_ m i. of_nat (length m + i))
       \<lparr>payloadKey = replicate 32 1, lengthKey = replicate 32 2\<rparr>) 7
       (length [(\<lambda>_. 9, [5, 6]), (\<lambda>i. of_nat i, [2 :: byte])])
     (write_packets (sealed_frame (\<lambda>_ _ c i. of_nat (c + i)) (\<lambda>_ m i. of_nat (length m + i))
       \<lparr>payloadKey = replicate 32 1, lengthKey = replicate 32 2\<rparr>) 7
       [(\<lambda>_. 9, [5, 6]), (\<lambda>i. of_nat i, [2])] @ [42])
   = Inr ([[5, 6], [2]], [42])"
proof -
  have ok: "list_all sealable
      (map snd [(\<lambda>_ :: nat. 9 :: byte, [5, 6]), (\<lambda>i. of_nat i, [2 :: byte])])"
    by (simp add: sealable_def maxPacket_def pad_len_def)
  show ?thesis
    using sealed_stream_roundtrip [OF ok, of "\<lambda>_ _ c i. of_nat (c + i)"
        "\<lambda>_ m i. of_nat (length m + i)"
        "\<lparr>payloadKey = replicate 32 1, lengthKey = replicate 32 2\<rparr>" 7 "[42]"]
    by (simp del: read_packets.simps write_packets.simps)
qed

text \<open>
  C2. What \<open>open\<close> accepts is authenticated as a whole: the bytes consumed are a four-byte
  encrypted length, a body of exactly that length and at most \<open>maxPacket\<close> bytes, and the
  authenticator of both under the sequence number's nonce; the payload is never empty and
  leaves room for at least four bytes of padding.
\<close>

theorem open_accepts_only_authenticated:
  assumes "openPacket ks poly d seq r = Inr (payload, rest)"
  shows "\<exists>encLen encBody.
    r = encLen @ encBody @ poly1305Tag ks poly (payloadKey d) (seqNonce seq) encLen encBody @ rest \<and>
    length encLen = 4 \<and>
    be32 (of_nat (length encBody)) = xorKeyStream ks (lengthKey d) (seqNonce seq) 0 encLen \<and>
    length encBody \<le> maxPacket \<and>
    unpadPayload (xorKeyStream ks (payloadKey d) (seqNonce seq) 1 encBody) = Inr payload \<and>
    payload \<noteq> [] \<and> length payload + 5 \<le> length encBody"
proof -
  let ?encLen = "take 4 r" and ?r = "drop 4 r"
  let ?n = "get32 (xorKeyStream ks (lengthKey d) (seqNonce seq) 0 ?encLen)"
  let ?all = "take (unat ?n + poly1305TagSize) ?r"
  let ?encBody = "take (unat ?n) ?all"
  from assms have l4: "\<not> length r < 4" and nmax: "unat ?n \<le> maxPacket"
    and full: "\<not> length ?r < unat ?n + poly1305TagSize"
    and tag: "drop (unat ?n) ?all =
      poly1305Tag ks poly (payloadKey d) (seqNonce seq) ?encLen ?encBody"
    and unpad: "unpadPayload (xorKeyStream ks (payloadKey d) (seqNonce seq) 1 ?encBody)
      = Inr payload"
    and rest: "rest = drop (unat ?n + poly1305TagSize) ?r"
    by (auto simp: openPacket_def Let_def split: if_splits sum.splits)
  have lb: "length ?encBody = unat ?n" using full by simp
  have "?r = ?all @ rest" by (simp only: rest append_take_drop_id)
  then have "r = ?encLen @ ?all @ rest" by (metis append_take_drop_id)
  also have "?all = ?encBody @ drop (unat ?n) ?all" by (simp only: append_take_drop_id)
  finally have r: "r = ?encLen @ ?encBody @
      poly1305Tag ks poly (payloadKey d) (seqNonce seq) ?encLen ?encBody @ rest"
    by (simp only: tag append_assoc)
  have "be32 (of_nat (length ?encBody)) = be32 ?n" by (simp only: lb of_nat_unat ucast_id)
  also have "\<dots> = xorKeyStream ks (lengthKey d) (seqNonce seq) 0 ?encLen"
    using l4 by (intro be32_get32) simp
  finally have len: "be32 (of_nat (length ?encBody)) =
      xorKeyStream ks (lengthKey d) (seqNonce seq) 0 ?encLen" .
  show ?thesis
    using r len l4 nmax lb unpad unpadPayload_InrD [OF unpad]
    by (intro exI [of _ ?encLen] exI [of _ ?encBody]) simp
qed

theorem open_accepts_only_authenticated_witness:
  "\<exists>encLen encBody.
    [0, 0, 0, 8, 6, 97, 9, 9, 9, 9, 9, 9 :: byte] @ replicate 16 3 @ [42] = encLen @ encBody
      @ poly1305Tag (\<lambda>_ _ _ _. 0) (\<lambda>_ _ _. 3) [] (seqNonce 0) encLen encBody @ [42] \<and>
    length encBody \<le> maxPacket"
proof -
  have acc: "openPacket (\<lambda>_ _ _ _. 0) (\<lambda>_ _ _. 3) \<lparr>payloadKey = [], lengthKey = []\<rparr> 0
      ([0, 0, 0, 8, 6, 97, 9, 9, 9, 9, 9, 9] @ replicate 16 3 @ [42]) = Inr ([97], [42])"
    by code_simp
  show ?thesis
    using open_accepts_only_authenticated [OF acc] by auto
qed

end
