(* ===== verification/Netip.thy ===== *)
theory Netip
  imports WT_Prelude
begin

text \<open>
  The part of Go's \<open>net/netip\<close> that address checks use: \<open>Addr\<close> (the zero value, an IPv4
  address of four bytes, an IPv6 address of sixteen bytes with its zone), \<open>ParseAddr\<close>,
  \<open>Unmap\<close> and \<open>AddrPort\<close>. \<open>ParseAddr\<close> accepts numeric addresses only, which is what makes
  a destination check on its result independent of any name service. \<open>addrString\<close> is
  \<open>Addr.String\<close> and \<open>addrPortString\<close> is \<open>AddrPort.String\<close>.
\<close>

datatype Addr = ZeroAddr | V4 bytes | V6 bytes string

type_synonym AddrPort = "Addr \<times> uint16"

definition is4In6 :: "Addr \<Rightarrow> bool" where
  "is4In6 a = (case a of V6 b _ \<Rightarrow> take 12 b = replicate 10 0 @ [255, 255] | _ \<Rightarrow> False)"

definition Unmap :: "Addr \<Rightarrow> Addr" where
  "Unmap a = (if is4In6 a then (case a of V6 b _ \<Rightarrow> V4 (drop 12 b) | _ \<Rightarrow> a) else a)"

definition parseOctet :: "string \<Rightarrow> byte option" where
  "parseOctet w =
     (if w \<noteq> [] \<and> list_all isDigit w \<and> (length w = 1 \<or> hd w \<noteq> CHR ''0'') \<and> decimal 0 w \<le> 255
      then Some (of_nat (decimal 0 w)) else None)"

fun parseOctets :: "string list \<Rightarrow> bytes option" where
  "parseOctets [] = Some []"
| "parseOctets (w # ws) =
     (case parseOctet w of
        None \<Rightarrow> None
      | Some b \<Rightarrow> map_option ((#) b) (parseOctets ws))"

definition parseIPv4Fields :: "string \<Rightarrow> bytes option" where
  "parseIPv4Fields s =
     (let ws = splitOn (CHR ''.'') s in if length ws = 4 then parseOctets ws else None)"

definition hexVal :: "char \<Rightarrow> nat option" where
  "hexVal c =
     (if CHR ''0'' \<le> c \<and> c \<le> CHR ''9'' then Some (of_char c - 48)
      else if CHR ''a'' \<le> c \<and> c \<le> CHR ''f'' then Some (of_char c - 97 + 10)
      else if CHR ''A'' \<le> c \<and> c \<le> CHR ''F'' then Some (of_char c - 65 + 10)
      else None)"

definition isHex :: "char \<Rightarrow> bool" where
  "isHex c \<longleftrightarrow> hexVal c \<noteq> None"

fun hexNumber :: "nat \<Rightarrow> string \<Rightarrow> nat" where
  "hexNumber acc [] = acc"
| "hexNumber acc (c # cs) = hexNumber (acc * 16 + the (hexVal c)) cs"

text \<open>
  The group loop of the IPv6 parser: \<open>ip\<close> are the bytes parsed so far, \<open>ell\<close> where the
  ellipsis was seen. It yields the bytes, the ellipsis and what is left of the text.
\<close>

function parseGroups :: "bytes \<Rightarrow> nat option \<Rightarrow> string \<Rightarrow> (bytes \<times> nat option \<times> string) option" where
  "parseGroups ip ell s =
     (if length ip \<ge> 16 then Some (ip, ell, s)
      else
        let digits = takeWhile isHex s; rest = dropWhile isHex s in
        if digits = [] \<or> length digits > 4 then None
        else if rest \<noteq> [] \<and> hd rest = CHR ''.'' then
          (if (ell = None \<and> length ip \<noteq> 12) \<or> length ip + 4 > 16 then None
           else (case parseIPv4Fields s of None \<Rightarrow> None | Some b \<Rightarrow> Some (ip @ b, ell, [])))
        else
          let n = hexNumber 0 digits; ip = ip @ [of_nat (n div 256), of_nat (n mod 256)] in
          (case rest of
             [] \<Rightarrow> Some (ip, ell, [])
           | c # rest \<Rightarrow>
               if c \<noteq> CHR '':'' \<or> rest = [] then None
               else if hd rest = CHR '':'' then
                 (if ell \<noteq> None then None
                  else if tl rest = [] then Some (ip, Some (length ip), [])
                  else parseGroups ip (Some (length ip)) (tl rest))
               else parseGroups ip ell rest))"
  by pat_completeness auto
termination
  by (relation "measure (\<lambda>(ip, ell, s). 16 - length ip)") auto

declare parseGroups.simps [simp del]

definition parseIPv6 :: "string \<Rightarrow> Addr option" where
  "parseIPv6 input =
     (let s = takeWhile (\<lambda>c. c \<noteq> CHR ''%'') input;
          tail = dropWhile (\<lambda>c. c \<noteq> CHR ''%'') input;
          zone = drop 1 tail
      in if tail \<noteq> [] \<and> zone = [] then None
      else
        let ell = (if hasPrefix s ''::'' then Some 0 else None);
            s = (if ell = None then s else drop 2 s)
        in if ell \<noteq> None \<and> s = [] then Some (V6 (replicate 16 0) zone)
        else (case parseGroups [] ell s of
            None \<Rightarrow> None
          | Some (ip, ell, left) \<Rightarrow>
              if left \<noteq> [] then None
              else if length ip < 16 then
                (case ell of
                   None \<Rightarrow> None
                 | Some e \<Rightarrow>
                     Some (V6 (take e ip @ replicate (16 - length ip) 0 @ drop e ip) zone))
              else if ell \<noteq> None then None
              else Some (V6 ip zone)))"

fun ParseAddr_at :: "string \<Rightarrow> string \<Rightarrow> Addr option" where
  "ParseAddr_at s [] = None"
| "ParseAddr_at s (c # cs) =
     (if c = CHR ''.'' then map_option V4 (parseIPv4Fields s)
      else if c = CHR '':'' then parseIPv6 s
      else if c = CHR ''%'' then None
      else ParseAddr_at s cs)"

definition ParseAddr :: "string \<Rightarrow> Addr option" where
  "ParseAddr s = ParseAddr_at s s"

section \<open>Formatting and classes\<close>

definition string4 :: "bytes \<Rightarrow> string" where
  "string4 b =
     showNat (unat (b ! 0)) @ ''.'' @ showNat (unat (b ! 1)) @ ''.'' @
     showNat (unat (b ! 2)) @ ''.'' @ showNat (unat (b ! 3))"

definition v6u16 :: "bytes \<Rightarrow> nat \<Rightarrow> nat" where
  "v6u16 b i = unat (b ! (2 * i)) * 256 + unat (b ! (2 * i + 1))"

fun hexDigits :: "nat \<Rightarrow> string" where
  "hexDigits n =
     (if n < 16 then [''0123456789abcdef'' ! n] else hexDigits (n div 16) @ [''0123456789abcdef'' ! (n mod 16)])"

declare hexDigits.simps [simp del]

text \<open>The longest run of at least two zero groups, the first of them on a tie.\<close>

definition zeroRun :: "bytes \<Rightarrow> (nat \<times> nat) option" where
  "zeroRun b =
     foldl (\<lambda>best i.
        let j = i + length (takeWhile (\<lambda>k. v6u16 b k = 0) [i ..< 8]); l = j - i in
        if l \<ge> 2 \<and> l > (case best of None \<Rightarrow> 0 | Some (s, e) \<Rightarrow> e - s) then Some (i, j) else best)
       None [0 ..< 8]"

fun groups6 :: "bytes \<Rightarrow> nat list \<Rightarrow> string" where
  "groups6 b [] = []"
| "groups6 b (i # is) = hexDigits (v6u16 b i) @ concat (map (\<lambda>k. CHR '':'' # hexDigits (v6u16 b k)) is)"

definition string6 :: "bytes \<Rightarrow> string" where
  "string6 b =
     (case zeroRun b of
        None \<Rightarrow> groups6 b [0 ..< 8]
      | Some (s, e) \<Rightarrow> groups6 b [0 ..< s] @ ''::'' @ groups6 b [e ..< 8])"

definition zoneString :: "string \<Rightarrow> string" where
  "zoneString z = (if z = [] then [] else CHR ''%'' # z)"

definition addrString :: "Addr \<Rightarrow> string" where
  "addrString a =
     (case a of
        ZeroAddr \<Rightarrow> ''invalid IP''
      | V4 b \<Rightarrow> string4 b
      | V6 b z \<Rightarrow> (if is4In6 a then ''::ffff:'' @ string4 (drop 12 b) else string6 b) @ zoneString z)"

definition addrPortString :: "AddrPort \<Rightarrow> string" where
  "addrPortString ap =
     (case fst ap of
        ZeroAddr \<Rightarrow> ''invalid AddrPort''
      | V4 b \<Rightarrow> string4 b @ '':'' @ showNat (unat (snd ap))
      | V6 b z \<Rightarrow> ''['' @ addrString (V6 b z) @ '']:'' @ showNat (unat (snd ap)))"

definition isValid :: "Addr \<Rightarrow> bool" where
  "isValid a \<longleftrightarrow> a \<noteq> ZeroAddr"

definition Zone :: "Addr \<Rightarrow> string" where
  "Zone a = (case a of V6 _ z \<Rightarrow> z | _ \<Rightarrow> [])"

definition Is4 :: "Addr \<Rightarrow> bool" where
  "Is4 a = (case a of V4 _ \<Rightarrow> True | _ \<Rightarrow> False)"

definition IsUnspecified :: "Addr \<Rightarrow> bool" where
  "IsUnspecified a \<longleftrightarrow> a = V4 [0, 0, 0, 0] \<or> a = V6 (replicate 16 0) []"

definition IsMulticast :: "Addr \<Rightarrow> bool" where
  "IsMulticast a =
     (case Unmap a of
        ZeroAddr \<Rightarrow> False | V4 b \<Rightarrow> unat (b ! 0) div 16 = 14 | V6 b _ \<Rightarrow> b ! 0 = 255)"

definition IsLoopback :: "Addr \<Rightarrow> bool" where
  "IsLoopback a =
     (case Unmap a of
        ZeroAddr \<Rightarrow> False | V4 b \<Rightarrow> b ! 0 = 127 | V6 b _ \<Rightarrow> b = replicate 15 0 @ [1])"

definition IsLinkLocalUnicast :: "Addr \<Rightarrow> bool" where
  "IsLinkLocalUnicast a =
     (case Unmap a of
        ZeroAddr \<Rightarrow> False
      | V4 b \<Rightarrow> b ! 0 = 169 \<and> b ! 1 = 254
      | V6 b _ \<Rightarrow> b ! 0 = 254 \<and> unat (b ! 1) div 64 = 2)"

section \<open>Facts\<close>

definition wf_addr :: "Addr \<Rightarrow> bool" where
  "wf_addr a =
     (case a of ZeroAddr \<Rightarrow> True | V4 b \<Rightarrow> length b = 4 | V6 b _ \<Rightarrow> length b = 16)"

lemma Unmap_idem [simp]: "Unmap (Unmap a) = Unmap a"
  by (auto simp: Unmap_def is4In6_def split: Addr.splits)

lemma Unmap_V4 [simp]: "Unmap (V4 b) = V4 b"
  by (simp add: Unmap_def is4In6_def)

lemma parseOctets_length: "parseOctets ws = Some b \<Longrightarrow> length b = length ws"
  by (induction ws arbitrary: b) (auto split: option.splits)

lemma parseIPv4Fields_length: "parseIPv4Fields s = Some b \<Longrightarrow> length b = 4"
  by (auto simp: parseIPv4Fields_def Let_def dest: parseOctets_length split: if_splits)

lemma parseGroups_length:
  "parseGroups ip ell s = Some (ip', ell', left) \<Longrightarrow> length ip \<le> 16 \<Longrightarrow> even (length ip) \<Longrightarrow>
     length ip' \<le> 16"
proof (induction ip ell s rule: parseGroups.induct)
  case (1 ip ell s)
  show ?case
  proof (cases "length ip \<ge> 16")
    case True
    with 1 show ?thesis by (simp add: parseGroups.simps)
  next
    case False
    with "1.prems" have le: "Suc (Suc (length ip)) \<le> 16" by presburger
    note IH = "1.IH" [OF False refl refl _ _ refl refl]
    from False le "1.prems" show ?thesis
      by (subst (asm) parseGroups.simps)
        (auto simp: Let_def intro: IH dest!: parseIPv4Fields_length
          split: if_splits option.splits list.splits)
  qed
qed

lemma wf_ParseAddr_at: "ParseAddr_at s t = Some a \<Longrightarrow> wf_addr a"
proof (induction t)
  case (Cons c cs)
  have "wf_addr a" if "parseIPv6 s = Some a"
    using that
    by (auto simp: parseIPv6_def Let_def wf_addr_def dest!: parseGroups_length
        split: if_splits option.splits)
  with Cons show ?case
    by (auto simp: wf_addr_def dest: parseIPv4Fields_length split: if_splits)
qed simp

lemma wf_ParseAddr: "ParseAddr s = Some a \<Longrightarrow> wf_addr a"
  by (simp add: ParseAddr_def wf_ParseAddr_at)

lemma wf_Unmap: "wf_addr a \<Longrightarrow> wf_addr (Unmap a)"
  by (auto simp: wf_addr_def Unmap_def split: Addr.splits)

lemma splitOn_join4:
  "sep \<notin> set a \<Longrightarrow> sep \<notin> set b \<Longrightarrow> sep \<notin> set c \<Longrightarrow> sep \<notin> set d \<Longrightarrow>
   splitOn sep (a @ sep # b @ sep # c @ sep # d) = [a, b, c, d]"
  by (simp add: splitOn_append_sep splitOn_no_sep)

lemma no_dot_digits: "list_all isDigit s \<Longrightarrow> CHR ''.'' \<notin> set s"
  by (auto simp: list_all_iff isDigit_iff)

lemma length_gt_1_hd: "length s \<noteq> 1 \<Longrightarrow> s \<noteq> [] \<Longrightarrow> \<exists>a b t. s = a # b # t"
  by (cases s; cases "tl s") auto

lemma parseOctet_showNat: "parseOctet (showNat (unat (b :: byte))) = Some b"
proof -
  have lt: "unat b < 256" using unsigned_less [where ?'a = nat, of b] by simp
  have "length (showNat (unat b)) = 1 \<or> hd (showNat (unat b)) \<noteq> CHR ''0''"
    using showNat_leading [of "unat b"] showNat_0 by (cases "unat b = 0") auto
  then show ?thesis using lt showNat_digits [of "unat b"] by (simp add: parseOctet_def)
qed

lemma parse_string4:
  assumes "length b = 4" shows "parseIPv4Fields (string4 b) = Some b"
proof -
  have b: "b = [b ! 0, b ! 1, b ! 2, b ! 3]"
    using assms by (auto simp: list_eq_iff_nth_eq less_Suc_eq eval_nat_numeral)
  have nd: "CHR ''.'' \<notin> set (showNat n)" for n
    using no_dot_digits [OF showNat_digits] .
  have "parseIPv4Fields (string4 b) = Some [b ! 0, b ! 1, b ! 2, b ! 3]"
    using nd by (simp add: string4_def parseIPv4Fields_def splitOn_join4 parseOctet_showNat)
  with b show ?thesis by simp
qed

lemma ParseAddr_at_dot:
  "list_all isDigit p \<Longrightarrow> ParseAddr_at s (p @ CHR ''.'' # q) = map_option V4 (parseIPv4Fields s)"
  by (induction p) (auto simp: isDigit_iff)

lemma ParseAddr_string4: "length b = 4 \<Longrightarrow> ParseAddr (addrString (V4 b)) = Some (V4 b)"
  using ParseAddr_at_dot [OF showNat_digits, of "string4 b" "unat (b ! 0)"] parse_string4 [of b]
  by (simp add: ParseAddr_def addrString_def) (simp add: string4_def)

end
