(* ===== verification/Kex.thy ===== *)
theory Kex
  imports Packet Netip
begin

text \<open>
  Algorithm pinning and key exchange of the data plane: the immutable profile
  (\<open>src/internal/profile/profile.go\<close>), the host policy and its checks
  (\<open>src/internal/dataplane/policy.go\<close>), KEXINIT encoding (\<open>kexinit.go\<close>) and inspection,
  the exchange hash and key derivation (\<open>conn.go\<close>), and the hybrid key agreement
  (\<open>kex_hybrid.go\<close>).

  SHA-256, ML-KEM-768 and X25519 are parameters. A digest is the function from an index to a
  byte of the array \<open>[32]byte\<close> that \<open>sha256.Sum256\<close> returns, so that its size is 32 by
  construction.
\<close>

section \<open>Profile and policy\<close>

record Profile =
  ProfileID :: string
  EngineVersion :: string
  OpenSSLVersion :: string
  OpenSSLVersionText :: string
  OpenSSLLinkage :: string
  ExecutableFormat :: string
  KeyExchangeAlgorithm :: string
  AuthenticationKeyType :: string
  RawPublicKeyBytes :: int
  RawSignatureBytes :: int
  Ciphers :: "string list"
  AuthenticationBindingStatus :: string
  SupportStatus :: string

definition CurrentID :: string where
  "CurrentID =
     ''warptweet-tcp1-openssh10.4p1-openssl3.5.7-mlkem768x25519-mldsa44-ed25519-chacha20''"

definition current_profile :: Profile where
  "current_profile = \<lparr>
     ProfileID = CurrentID,
     EngineVersion = ''OpenSSH_10.4p1'',
     OpenSSLVersion = ''3.5.7'',
     OpenSSLVersionText = ''OpenSSL 3.5.7 9 Jun 2026'',
     OpenSSLLinkage = ''static'',
     ExecutableFormat = ''ELF'',
     KeyExchangeAlgorithm = ''mlkem768x25519-sha256'',
     AuthenticationKeyType = ''ssh-mldsa44-ed25519@openssh.com'',
     RawPublicKeyBytes = 1344,
     RawSignatureBytes = 2484,
     Ciphers = [''chacha20-poly1305@openssh.com''],
     AuthenticationBindingStatus = ''openssh-vendor-qualified'',
     SupportStatus = ''published-matrix''\<rparr>"

definition Lookup :: "string \<Rightarrow> string + Profile" where
  "Lookup wanted = (if wanted \<noteq> CurrentID then Inl wanted else Inr current_profile)"

record Policy =
  polProfile :: Profile
  polListen :: AddrPort
  polTarget :: AddrPort
  polManagement :: AddrPort
  polHostKeyPath :: string
  polAuthorizedKeysPath :: string
  polHostSignSocket :: string
  polControlSocket :: string
  polRekeyAfter :: uint64
  polMaxChannels :: int
  polMaxConnsPerSource :: int

definition identification :: "Policy \<Rightarrow> string" where
  "identification policy = ''SSH-2.0-WarpTweet_'' @ ''tcp1''"

definition channelDirectTCPIP :: string where "channelDirectTCPIP = ''direct-tcpip''"
definition globalKeepalive :: string where "globalKeepalive = ''keepalive@openssh.com''"
definition globalNoMoreSess :: string where "globalNoMoreSess = ''no-more-sessions@openssh.com''"

definition allowChannelType :: "Policy \<Rightarrow> string \<Rightarrow> bool" where
  "allowChannelType policy channelType \<longleftrightarrow> channelType = channelDirectTCPIP"

definition allowGlobalRequest :: "Policy \<Rightarrow> string \<Rightarrow> bool" where
  "allowGlobalRequest policy requestType \<longleftrightarrow>
     requestType = globalKeepalive \<or> requestType = globalNoMoreSess"

definition allowDirectTCPIP :: "Policy \<Rightarrow> AddrPort \<Rightarrow> bool" where
  "allowDirectTCPIP policy destination \<longleftrightarrow>
     (let dest = (Unmap (fst destination), snd destination)
      in dest = polTarget policy \<or> dest = polManagement policy)"

definition defaultMaxConnsPerSource :: int where "defaultMaxConnsPerSource = 4"

definition maxConnsPerSource :: "Policy \<Rightarrow> int" where
  "maxConnsPerSource policy =
     (if polMaxConnsPerSource policy < 0 then polMaxConnsPerSource policy
      else if polMaxConnsPerSource policy = 0 then defaultMaxConnsPerSource
      else polMaxConnsPerSource policy)"

section \<open>KEXINIT\<close>

definition sshMsgKexInit :: byte where "sshMsgKexInit = 20"
definition sshMsgDisconnect :: byte where "sshMsgDisconnect = 1"
definition strictKEXServer :: string where "strictKEXServer = ''kex-strict-s-v00@openssh.com''"
definition strictKEXClient :: string where "strictKEXClient = ''kex-strict-c-v00@openssh.com''"

definition appendNameList :: "bytes \<Rightarrow> string \<Rightarrow> bytes" where
  "appendNameList dst names = (dst @ be32 (of_nat (length names))) @ bytes_of names"

text \<open>
  \<open>cookie\<close> is what \<open>rand.Read\<close>, which does not fail, puts into the 16 cookie bytes. A profile without ciphers makes
  the code index an empty slice: the value \<open>None\<close> is that panic.
\<close>

definition marshalKexInitList :: "Policy \<Rightarrow> (nat \<Rightarrow> byte) \<Rightarrow> string \<Rightarrow> bytes option" where
  "marshalKexInitList policy cookie kexNames =
     (let payload = [sshMsgKexInit] @ map cookie [0..<16];
          payload = appendNameList payload kexNames;
          payload = appendNameList payload (AuthenticationKeyType (polProfile policy))
      in case Ciphers (polProfile policy) of [] \<Rightarrow> None | cipher # _ \<Rightarrow>
      let payload = appendNameList payload cipher;
          payload = appendNameList payload cipher;
          payload = appendNameList payload ''none'';
          payload = appendNameList payload ''none'';
          payload = appendNameList payload ''none'';
          payload = appendNameList payload ''none'';
          payload = appendNameList payload '''';
          payload = appendNameList payload '''';
          payload = payload @ [0]
      in Some (payload @ be32 0))"

definition marshalKexInit :: "Policy \<Rightarrow> (nat \<Rightarrow> byte) \<Rightarrow> bytes option" where
  "marshalKexInit policy cookie =
     marshalKexInitList policy cookie
       (KeyExchangeAlgorithm (polProfile policy) @ '','' @ strictKEXServer)"

definition marshalKexInitClient :: "Policy \<Rightarrow> (nat \<Rightarrow> byte) \<Rightarrow> bytes option" where
  "marshalKexInitClient policy cookie =
     marshalKexInitList policy cookie
       (KeyExchangeAlgorithm (polProfile policy) @ '','' @ strictKEXClient)"

definition marshalDisconnect :: "string \<Rightarrow> bytes" where
  "marshalDisconnect description =
     (([sshMsgDisconnect] @ be32 2) @ be32 (of_nat (length description)))
       @ bytes_of description @ be32 0"

definition nameListContains :: "string \<Rightarrow> string \<Rightarrow> bool" where
  "nameListContains list want \<longleftrightarrow> want \<in> set (splitOn (CHR '','') list)"

definition kexBody :: "bytes \<Rightarrow> bytes" where
  "kexBody kex =
     (case kex of b # rest \<Rightarrow> (if b = sshMsgKexInit then rest else kex) | [] \<Rightarrow> kex)"

definition clientOffersStrictKEX :: "bytes \<Rightarrow> bool" where
  "clientOffersStrictKEX kex =
     (let body = kexBody kex in
      if length body < 16 then False
      else (case consumeSSHString (drop 16 body) of
          None \<Rightarrow> False
        | Some (kexList, _) \<Rightarrow> nameListContains (string_of kexList) strictKEXClient))"

text \<open>\<open>NoCipherPanic\<close> is not an error value of the code: indexing an empty cipher list panics.\<close>

datatype offer_error =
    TruncatedClientKexInit
  | TruncatedNameList
  | MissingAlgorithm string
  | NoCipherPanic

definition clientOffersPinnedAlgorithms :: "bytes \<Rightarrow> Policy \<Rightarrow> offer_error + unit" where
  "clientOffersPinnedAlgorithms kex policy =
     (let body = kexBody kex in
      if length body < 16 then Inl TruncatedClientKexInit
      else (case consumeSSHString (drop 16 body) of
          None \<Rightarrow> Inl TruncatedNameList
        | Some (kexList, body) \<Rightarrow> (case consumeSSHString body of
          None \<Rightarrow> Inl TruncatedNameList
        | Some (hostList, body) \<Rightarrow> (case consumeSSHString body of
          None \<Rightarrow> Inl TruncatedNameList
        | Some (c2s, body) \<Rightarrow> (case consumeSSHString body of
          None \<Rightarrow> Inl TruncatedNameList
        | Some (s2c, _) \<Rightarrow>
            if \<not> nameListContains (string_of kexList) (KeyExchangeAlgorithm (polProfile policy))
            then Inl (MissingAlgorithm (KeyExchangeAlgorithm (polProfile policy)))
            else if \<not> nameListContains (string_of hostList) (AuthenticationKeyType (polProfile policy))
            then Inl (MissingAlgorithm (AuthenticationKeyType (polProfile policy)))
            else (case Ciphers (polProfile policy) of
              [] \<Rightarrow> Inl NoCipherPanic
            | cipherName # _ \<Rightarrow>
              if \<not> nameListContains (string_of c2s) cipherName
                \<or> \<not> nameListContains (string_of s2c) cipherName
              then Inl (MissingAlgorithm cipherName)
              else Inr ()))))))"

section \<open>Exchange hash and keys\<close>

type_synonym digest = "bytes \<Rightarrow> nat \<Rightarrow> byte"

definition Sum256 :: "digest \<Rightarrow> bytes \<Rightarrow> bytes" where
  "Sum256 sha m = map (sha m) [0..<32]"

definition appendKexInitHash :: "bytes \<Rightarrow> bytes \<Rightarrow> bytes" where
  "appendKexInitHash dst kex =
     (let body = kexBody kex
      in ((dst @ be32 (of_nat (length body + 1))) @ [sshMsgKexInit]) @ body)"

definition exchangeTranscript ::
  "string \<Rightarrow> string \<Rightarrow> bytes \<Rightarrow> bytes \<Rightarrow> bytes \<Rightarrow> bytes \<Rightarrow> bytes \<Rightarrow> bytes \<Rightarrow> bytes" where
  "exchangeTranscript clientID serverID clientKex serverKex hostBlob clientPub serverPub secret =
     (let b = sshString (bytes_of clientID);
          b = b @ sshString (bytes_of serverID);
          b = appendKexInitHash b clientKex;
          b = appendKexInitHash b serverKex;
          b = b @ sshString hostBlob;
          b = b @ sshString clientPub;
          b = b @ sshString serverPub
      in b @ secret)"

definition exchangeHash ::
  "digest \<Rightarrow> string \<Rightarrow> string \<Rightarrow> bytes \<Rightarrow> bytes \<Rightarrow> bytes \<Rightarrow> bytes \<Rightarrow> bytes \<Rightarrow> bytes \<Rightarrow> bytes" where
  "exchangeHash sha clientID serverID clientKex serverKex hostBlob clientPub serverPub secret =
     Sum256 sha
       (exchangeTranscript clientID serverID clientKex serverKex hostBlob clientPub serverPub secret)"

lemma length_Sum256 [simp]: "length (Sum256 sha m) = 32"
  by (simp add: Sum256_def)

function deriveMore :: "digest \<Rightarrow> bytes \<Rightarrow> bytes \<Rightarrow> nat \<Rightarrow> bytes \<Rightarrow> bytes" where
  "deriveMore sha secret hash need digest =
     (if length digest < need
      then deriveMore sha secret hash need (digest @ Sum256 sha (secret @ hash @ digest))
      else digest)"
  by pat_completeness auto
termination
  by (relation "measure (\<lambda>(sha, secret, hash, need, digest). need - length digest)") auto

declare deriveMore.simps [simp del]

definition deriveOne :: "digest \<Rightarrow> bytes \<Rightarrow> bytes \<Rightarrow> bytes \<Rightarrow> char \<Rightarrow> nat \<Rightarrow> bytes" where
  "deriveOne sha secret hash sessionID letter need =
     (let digest = Sum256 sha (secret @ hash @ [of_char letter] @ sessionID)
      in take need (deriveMore sha secret hash need digest))"

definition deriveKeys :: "digest \<Rightarrow> bytes \<Rightarrow> bytes \<Rightarrow> bytes \<Rightarrow> bytes \<times> bytes" where
  "deriveKeys sha secret hash sessionID =
     (deriveOne sha secret hash sessionID CHR ''C'' chachaKeyTotal,
      deriveOne sha secret hash sessionID CHR ''D'' chachaKeyTotal)"

section \<open>Hybrid key agreement\<close>

definition mlkemPublicKeyBytes :: nat where "mlkemPublicKeyBytes = 1184"
definition mlkemCiphertextBytes :: nat where "mlkemCiphertextBytes = 1088"
definition mlkemSharedBytes :: nat where "mlkemSharedBytes = 32"
definition x25519Size :: nat where "x25519Size = 32"

datatype hybrid_error =
    KexBlobSize nat nat
  | EncapsulationKeyRejected
  | EncapsulateSizes
  | DecapsulationRejected
  | X25519KeyRejected
  | ECDHRejected
  | SharedSecretAllZeros

text \<open>
  The operations of \<open>crypto/mlkem\<close> and \<open>crypto/ecdh\<close> that the exchange calls. \<open>encapsulate\<close>
  gives the shared secret and the ciphertext; the private X25519 key is the key generated for
  this exchange.
\<close>

record hybrid_primitives =
  newEncapsulationKey :: "bytes \<Rightarrow> bool"
  encapsulate :: "bytes \<Rightarrow> bytes \<times> bytes"
  decapsulate :: "bytes \<Rightarrow> bytes \<Rightarrow> bytes option"
  newX25519PublicKey :: "bytes \<Rightarrow> bool"
  x25519PublicOf :: "bytes \<Rightarrow> bytes"
  x25519ECDH :: "bytes \<Rightarrow> bytes \<Rightarrow> bytes option"

fun isZeroAcc :: "byte \<Rightarrow> bytes \<Rightarrow> byte" where
  "isZeroAcc acc [] = acc"
| "isZeroAcc acc (v # vs) = isZeroAcc (acc OR v) vs"

definition isZero :: "bytes \<Rightarrow> bool" where
  "isZero b \<longleftrightarrow> isZeroAcc 0 b = 0"

definition serverHybridEncapsulate ::
  "digest \<Rightarrow> hybrid_primitives \<Rightarrow> bytes \<Rightarrow> bytes \<Rightarrow> hybrid_error + (bytes \<times> bytes)" where
  "serverHybridEncapsulate sha hp serverX clientBlob =
     (let need = mlkemPublicKeyBytes + x25519Size in
      if length clientBlob \<noteq> need then Inl (KexBlobSize (length clientBlob) need)
      else if \<not> newEncapsulationKey hp (take mlkemPublicKeyBytes clientBlob)
      then Inl EncapsulationKeyRejected
      else
        let (kemSecret, ciphertext) = encapsulate hp (take mlkemPublicKeyBytes clientBlob) in
        if length ciphertext \<noteq> mlkemCiphertextBytes \<or> length kemSecret \<noteq> mlkemSharedBytes
        then Inl EncapsulateSizes
        else
          let clientX = drop mlkemPublicKeyBytes clientBlob in
          if \<not> newX25519PublicKey hp clientX then Inl X25519KeyRejected
          else (case x25519ECDH hp serverX clientX of
              None \<Rightarrow> Inl ECDHRejected
            | Some ecdhSecret \<Rightarrow>
                if isZero ecdhSecret then Inl SharedSecretAllZeros
                else
                  let serverBlob = ciphertext @ x25519PublicOf hp serverX;
                      concat = kemSecret @ ecdhSecret
                  in Inr (serverBlob, Sum256 sha concat)))"

definition clientHybridDecapsulate ::
  "digest \<Rightarrow> hybrid_primitives \<Rightarrow> bytes \<Rightarrow> bytes \<Rightarrow> bytes \<Rightarrow> hybrid_error + bytes" where
  "clientHybridDecapsulate sha hp clientMLKEM clientX serverBlob =
     (let need = mlkemCiphertextBytes + x25519Size in
      if length serverBlob \<noteq> need then Inl (KexBlobSize (length serverBlob) need)
      else (case decapsulate hp clientMLKEM (take mlkemCiphertextBytes serverBlob) of
          None \<Rightarrow> Inl DecapsulationRejected
        | Some kemSecret \<Rightarrow>
            let serverX = drop mlkemCiphertextBytes serverBlob in
            if \<not> newX25519PublicKey hp serverX then Inl X25519KeyRejected
            else (case x25519ECDH hp clientX serverX of
                None \<Rightarrow> Inl ECDHRejected
              | Some ecdhSecret \<Rightarrow>
                  if isZero ecdhSecret then Inl SharedSecretAllZeros
                  else Inr (Sum256 sha (kemSecret @ ecdhSecret)))))"

section \<open>Facts\<close>

lemma appendNameList_eq: "appendNameList dst names = dst @ sshString (bytes_of names)"
  by (simp add: appendNameList_def sshString_def')

lemma appendKexInitHash_eq:
  "appendKexInitHash dst kex = dst @ sshString (sshMsgKexInit # kexBody kex)"
  by (simp add: appendKexInitHash_def sshString_def' Let_def)

lemma exchangeTranscript_eq:
  "exchangeTranscript cid sid ckex skex blob cpub spub secret =
     sshString (bytes_of cid) @ sshString (bytes_of sid) @
     sshString (sshMsgKexInit # kexBody ckex) @ sshString (sshMsgKexInit # kexBody skex) @
     sshString blob @ sshString cpub @ sshString spub @ secret"
  by (simp add: exchangeTranscript_def Let_def appendKexInitHash_eq)

lemma isZeroAcc_eq: "isZeroAcc acc b = 0 \<longleftrightarrow> acc = 0 \<and> (\<forall>v \<in> set b. v = 0)"
proof (induction b arbitrary: acc)
  case (Cons v b)
  have "acc OR v = 0 \<longleftrightarrow> acc = 0 \<and> v = 0"
    by (metis or.right_neutral or_eq_0_iff)
  with Cons show ?case by simp
qed simp

lemma isZero_iff: "isZero b \<longleftrightarrow> (\<forall>v \<in> set b. v = 0)"
  by (simp add: isZero_def isZeroAcc_eq)

text \<open>The reference for key derivation: the block stream of RFC 4253, section 7.2.\<close>

fun kdf_stream :: "digest \<Rightarrow> bytes \<Rightarrow> bytes \<Rightarrow> nat \<Rightarrow> bytes" where
  "kdf_stream sha kh seed 0 = []"
| "kdf_stream sha kh seed (Suc n) =
     (let prev = kdf_stream sha kh seed n
      in prev @ Sum256 sha (kh @ (if n = 0 then seed else prev)))"

lemma length_kdf_stream [simp]: "length (kdf_stream sha kh seed n) = 32 * n"
  by (induction n) (simp_all add: Let_def)

lemma take_kdf_stream:
  "need \<le> 32 * m \<Longrightarrow> m \<le> n \<Longrightarrow> take need (kdf_stream sha kh seed n) = take need (kdf_stream sha kh seed m)"
proof (induction n)
  case (Suc n)
  show ?case
  proof (cases "m = Suc n")
    case False
    with Suc show ?thesis by (simp add: Let_def)
  qed simp
qed simp

declare kdf_stream.simps(2) [simp del]

lemma deriveMore_kdf_stream:
  assumes "0 < k"
  shows "\<exists>m \<ge> k. need \<le> 32 * m \<and>
    deriveMore sha secret hash need (kdf_stream sha (secret @ hash) seed k) =
    kdf_stream sha (secret @ hash) seed m"
  using assms
proof (induction "need - 32 * k" arbitrary: k rule: less_induct)
  case less
  let ?ks = "kdf_stream sha (secret @ hash) seed"
  show ?case
  proof (cases "32 * k < need")
    case True
    have "deriveMore sha secret hash need (?ks k) = deriveMore sha secret hash need (?ks (Suc k))"
      using True less.prems by (subst deriveMore.simps) (simp add: kdf_stream.simps(2) Let_def)
    moreover obtain m where "m \<ge> Suc k" "need \<le> 32 * m"
      "deriveMore sha secret hash need (?ks (Suc k)) = ?ks m"
    proof -
      have "need - 32 * Suc k < need - 32 * k" using True by simp
      from less.hyps [OF this] show ?thesis using that by blast
    qed
    ultimately show ?thesis by (metis Suc_leD)
  next
    case False
    then show ?thesis by (subst deriveMore.simps) auto
  qed
qed

lemma deriveOne_kdf_stream:
  assumes "need \<le> 32 * n"
  shows "deriveOne sha secret hash sid letter need =
    take need (kdf_stream sha (secret @ hash) ([of_char letter] @ sid) n)"
proof (cases n)
  case 0
  with assms show ?thesis by (simp add: deriveOne_def)
next
  case (Suc k)
  let ?ks = "kdf_stream sha (secret @ hash) ([of_char letter] @ sid)"
  have first: "Sum256 sha (secret @ hash @ [of_char letter] @ sid) = ?ks 1"
    by (simp add: kdf_stream.simps(2) Let_def)
  obtain m where m: "1 \<le> m" "need \<le> 32 * m" "deriveMore sha secret hash need (?ks 1) = ?ks m"
    using deriveMore_kdf_stream [of 1 need sha secret hash "[of_char letter] @ sid"] by auto
  have "deriveOne sha secret hash sid letter need = take need (?ks m)"
    by (simp only: deriveOne_def Let_def first m(3))
  also have "\<dots> = take need (?ks n)"
  proof (cases "m \<le> n")
    case True
    then show ?thesis using m(2) by (intro take_kdf_stream [symmetric])
  next
    case False
    then show ?thesis using assms by (intro take_kdf_stream) simp_all
  qed
  finally show ?thesis .
qed

lemma direction_kdf_stream:
  "newChaChaDirection (kdf_stream sha kh seed 2) =
     Inr \<lparr>payloadKey = Sum256 sha (kh @ seed), lengthKey = Sum256 sha (kh @ Sum256 sha (kh @ seed))\<rparr>"
  by (simp add: newChaChaDirection_def chachaKeyTotal_def chachaKeySize_def numeral_2_eq_2
      kdf_stream.simps(2) Let_def)

lemma consume_names [wire_simps]:
  "length names < 2 ^ 32 \<Longrightarrow>
     consumeSSHString (sshString (bytes_of names) @ rest) = Some (bytes_of names, rest)"
  by (intro ssh.dec_enc) (simp add: fits32_def)

lemma kexBody_Cons [simp]: "kexBody (sshMsgKexInit # rest) = rest"
  by (simp add: kexBody_def)

text \<open>What an accepting inspection of the client's KEXINIT means, read off the bytes.\<close>

lemma offers_iff:
  "clientOffersPinnedAlgorithms kex policy = Inr () \<longleftrightarrow>
    (\<exists>cookie kexList hostList c2s s2c rest.
      length cookie = 16 \<and> fits32 kexList \<and> fits32 hostList \<and> fits32 c2s \<and> fits32 s2c \<and>
      kexBody kex =
        cookie @ sshString kexList @ sshString hostList @ sshString c2s @ sshString s2c @ rest \<and>
      KeyExchangeAlgorithm (polProfile policy) \<in> set (splitOn (CHR '','') (string_of kexList)) \<and>
      AuthenticationKeyType (polProfile policy) \<in> set (splitOn (CHR '','') (string_of hostList)) \<and>
      Ciphers (polProfile policy) \<noteq> [] \<and>
      Ciphers (polProfile policy) ! 0 \<in> set (splitOn (CHR '','') (string_of c2s)) \<and>
      Ciphers (polProfile policy) ! 0 \<in> set (splitOn (CHR '','') (string_of s2c)))"
    (is "?ok \<longleftrightarrow> ?shape")
proof
  assume ?ok
  then obtain kl b1 hl b2 c b3 sc rest where
    l: "\<not> length (kexBody kex) < 16"
    and d: "consumeSSHString (drop 16 (kexBody kex)) = Some (kl, b1)"
      "consumeSSHString b1 = Some (hl, b2)" "consumeSSHString b2 = Some (c, b3)"
      "consumeSSHString b3 = Some (sc, rest)"
    and names: "nameListContains (string_of kl) (KeyExchangeAlgorithm (polProfile policy))"
      "nameListContains (string_of hl) (AuthenticationKeyType (polProfile policy))"
      "Ciphers (polProfile policy) \<noteq> []"
      "nameListContains (string_of c) (Ciphers (polProfile policy) ! 0)"
      "nameListContains (string_of sc) (Ciphers (polProfile policy) ! 0)"
    by (auto simp: clientOffersPinnedAlgorithms_def Let_def
        split: if_splits option.splits list.splits)
  from d have f: "fits32 kl" "fits32 hl" "fits32 c" "fits32 sc"
    and tail: "drop 16 (kexBody kex) =
      sshString kl @ sshString hl @ sshString c @ sshString sc @ rest"
    by (simp_all add: ssh.dec_iff)
  have "kexBody kex = take 16 (kexBody kex) @ drop 16 (kexBody kex)"
    by (rule append_take_drop_id [symmetric])
  then have eq: "kexBody kex = take 16 (kexBody kex) @
      sshString kl @ sshString hl @ sshString c @ sshString sc @ rest"
    by (simp only: tail)
  show ?shape
    using l names
    by (intro exI conjI, rule_tac [6] eq) (use f in \<open>simp_all add: nameListContains_def\<close>)
next
  assume ?shape
  then show ?ok
    by (auto simp: clientOffersPinnedAlgorithms_def nameListContains_def ssh.dec_enc
        split: list.splits)
qed

lemma marshalled_list:
  assumes "polProfile policy = current_profile"
  shows "\<exists>rest. \<forall>names. marshalKexInitList policy cookie names = Some (sshMsgKexInit # map cookie [0..<16] @
    sshString (bytes_of names) @ sshString (bytes_of ''ssh-mldsa44-ed25519@openssh.com'') @
    sshString (bytes_of ''chacha20-poly1305@openssh.com'') @
    sshString (bytes_of ''chacha20-poly1305@openssh.com'') @ rest)"
  by (rule exI, rule allI) (simp add: marshalKexInitList_def assms current_profile_def appendNameList_eq Let_def del: upt_Suc)

lemma deriveKeys_eq:
  "deriveKeys sha secret hash sid =
     (kdf_stream sha (secret @ hash) (67 # sid) 2, kdf_stream sha (secret @ hash) (68 # sid) 2)"
  by (simp add: deriveKeys_def deriveOne_kdf_stream [of _ 2] chachaKeyTotal_def)

lemma hybrid_shared:
  assumes kem: "decapsulate hp dk (snd (encapsulate hp ek)) = Some (fst (encapsulate hp ek))"
    and dh: "x25519ECDH hp sx (x25519PublicOf hp cx) = x25519ECDH hp cx (x25519PublicOf hp sx)"
    and valid: "newX25519PublicKey hp (x25519PublicOf hp sx)"
    and sizes: "length ek = mlkemPublicKeyBytes" "length (x25519PublicOf hp sx) = x25519Size"
    and server: "serverHybridEncapsulate sha hp sx (ek @ x25519PublicOf hp cx) = Inr (blob, shared)"
  shows "clientHybridDecapsulate sha hp dk cx blob = Inr shared"
proof -
  obtain ss ct where enc: "encapsulate hp ek = (ss, ct)" by (cases "encapsulate hp ek")
  from server sizes(1) obtain z where z: "x25519ECDH hp sx (x25519PublicOf hp cx) = Some z"
    and "\<not> isZero z" and "length ct = mlkemCiphertextBytes"
    and "blob = ct @ x25519PublicOf hp sx" and "shared = Sum256 sha (ss @ z)"
    by (auto simp: serverHybridEncapsulate_def Let_def enc split: if_splits option.splits)
  then show ?thesis
    using kem dh valid sizes(2) enc by (simp add: clientHybridDecapsulate_def Let_def)
qed

section \<open>Properties\<close>

text \<open>
  C3. The exchange hash covers its fields unambiguously: two exchanges whose hash input is the
  same byte string, with every field short enough for its 32-bit length, agree in both
  identification strings, the host key, both public values, the shared secret and both KEXINIT
  bodies, a body being the payload without a leading KEXINIT message number. Payloads that begin
  with this number, which are the only ones the code hashes, are equal as a whole. Without that
  number a payload is hashed as if it had it, so that the transcript alone does not tell the two
  apart.
\<close>

theorem exchange_transcript_binds:
  assumes "length cid < 2 ^ 32" "length cid' < 2 ^ 32" "length sid < 2 ^ 32" "length sid' < 2 ^ 32"
    and "length ckex + 1 < 2 ^ 32" "length ckex' + 1 < 2 ^ 32"
    and "length skex + 1 < 2 ^ 32" "length skex' + 1 < 2 ^ 32"
    and "fits32 blob" "fits32 blob'" "fits32 cpub" "fits32 cpub'" "fits32 spub" "fits32 spub'"
    and eq: "exchangeTranscript cid sid ckex skex blob cpub spub secret =
      exchangeTranscript cid' sid' ckex' skex' blob' cpub' spub' secret'"
  shows "cid = cid' \<and> sid = sid' \<and> kexBody ckex = kexBody ckex' \<and> kexBody skex = kexBody skex' \<and>
    blob = blob' \<and> cpub = cpub' \<and> spub = spub' \<and> secret = secret' \<and>
    (take 1 ckex = [sshMsgKexInit] \<longrightarrow> take 1 ckex' = [sshMsgKexInit] \<longrightarrow> ckex = ckex') \<and>
    (take 1 skex = [sshMsgKexInit] \<longrightarrow> take 1 skex' = [sshMsgKexInit] \<longrightarrow> skex = skex')"
proof -
  have kb: "length (kexBody k) \<le> length k" for k
    by (auto simp: kexBody_def split: list.splits)
  have f: "fits32 (bytes_of cid)" "fits32 (bytes_of cid')" "fits32 (bytes_of sid)"
    "fits32 (bytes_of sid')" "fits32 (sshMsgKexInit # kexBody ckex)"
    "fits32 (sshMsgKexInit # kexBody ckex')" "fits32 (sshMsgKexInit # kexBody skex)"
    "fits32 (sshMsgKexInit # kexBody skex')"
    using assms(1-8) kb [of ckex] kb [of ckex'] kb [of skex] kb [of skex']
    by (simp_all add: fits32_def)
  have "bytes_of cid = bytes_of cid' \<and> bytes_of sid = bytes_of sid' \<and>
    kexBody ckex = kexBody ckex' \<and> kexBody skex = kexBody skex' \<and>
    blob = blob' \<and> cpub = cpub' \<and> spub = spub' \<and> secret = secret'"
    using eq f assms(9-14) by (simp add: exchangeTranscript_eq ssh.enc_append_inject)
  moreover have "k = sshMsgKexInit # kexBody k" if "take 1 k = [sshMsgKexInit]" for k
    using that by (cases k) simp_all
  ultimately show ?thesis by (metis string_of_bytes_of)
qed

theorem exchange_transcript_binds_witness:
  "kexBody [20, 1] = kexBody [1 :: byte] \<and> [20, 5 :: byte] = [20, 5] \<and> [9 :: byte] = [9]"
proof -
  have eq: "exchangeTranscript ''C'' ''S'' [20, 1] [20, 5] [1] [2] [3] [9] =
      exchangeTranscript ''C'' ''S'' [1] [20, 5] [1] [2] [3] [9]"
    by code_simp
  show ?thesis
    using exchange_transcript_binds [OF _ _ _ _ _ _ _ _ _ _ _ _ _ _ eq]
    by (simp add: fits32_def)
qed

text \<open>
  C4. Key derivation is the one of RFC 4253, section 7.2. For every letter and every requested
  length it is a prefix of the stream of blocks \<open>K1 = HASH(K || H || X || session_id)\<close>,
  \<open>K2 = HASH(K || H || K1)\<close>, and so on. The two keys of a connection are the first 64 bytes of
  the streams for the letters C (byte 67, client to server) and D (byte 68, server to client),
  and each gives a packet direction whose payload key is \<open>K1\<close> and whose length key is \<open>K2\<close>.
\<close>

theorem derive_keys_is_rfc4253:
  "deriveOne sha secret hash sid letter need =
     take need (kdf_stream sha (secret @ hash) ([of_char letter] @ sid) (Suc need)) \<and>
   deriveKeys sha secret hash sid =
     (kdf_stream sha (secret @ hash) (67 # sid) 2, kdf_stream sha (secret @ hash) (68 # sid) 2) \<and>
   newChaChaDirection (fst (deriveKeys sha secret hash sid)) =
     Inr \<lparr>payloadKey = Sum256 sha (secret @ hash @ [67] @ sid),
          lengthKey = Sum256 sha (secret @ hash @ Sum256 sha (secret @ hash @ [67] @ sid))\<rparr> \<and>
   newChaChaDirection (snd (deriveKeys sha secret hash sid)) =
     Inr \<lparr>payloadKey = Sum256 sha (secret @ hash @ [68] @ sid),
          lengthKey = Sum256 sha (secret @ hash @ Sum256 sha (secret @ hash @ [68] @ sid))\<rparr>"
proof -
  have "deriveOne sha secret hash sid letter need =
     take need (kdf_stream sha (secret @ hash) ([of_char letter] @ sid) (Suc need))"
    by (rule deriveOne_kdf_stream) simp
  then show ?thesis
    by (simp add: deriveKeys_eq direction_kdf_stream)
qed

text \<open>
  C5. No downgrade: the client's KEXINIT passes the inspection exactly when, after the cookie,
  its first four name lists offer the pinned key exchange, the pinned host key algorithm and,
  in both directions, the pinned cipher (the first of the cipher list, which must not be empty).
\<close>

theorem pinned_offer_iff:
  "clientOffersPinnedAlgorithms kex policy = Inr () \<longleftrightarrow>
    (\<exists>cookie kexList hostList c2s s2c rest.
      length cookie = 16 \<and> fits32 kexList \<and> fits32 hostList \<and> fits32 c2s \<and> fits32 s2c \<and>
      kexBody kex =
        cookie @ sshString kexList @ sshString hostList @ sshString c2s @ sshString s2c @ rest \<and>
      KeyExchangeAlgorithm (polProfile policy) \<in> set (splitOn (CHR '','') (string_of kexList)) \<and>
      AuthenticationKeyType (polProfile policy) \<in> set (splitOn (CHR '','') (string_of hostList)) \<and>
      Ciphers (polProfile policy) \<noteq> [] \<and>
      Ciphers (polProfile policy) ! 0 \<in> set (splitOn (CHR '','') (string_of c2s)) \<and>
      Ciphers (polProfile policy) ! 0 \<in> set (splitOn (CHR '','') (string_of s2c)))"
  by (rule offers_iff)

text \<open>
  C6. Both ends of the hybrid exchange agree: when the server accepts the client's blob, the
  client derives the server's shared secret from the server's blob, provided decapsulation
  inverts encapsulation for the client's key pair and X25519 commutes for the two key pairs.
\<close>

theorem hybrid_agreement:
  assumes kem: "decapsulate hp dk (snd (encapsulate hp ek)) = Some (fst (encapsulate hp ek))"
    and dh: "x25519ECDH hp sx (x25519PublicOf hp cx) = x25519ECDH hp cx (x25519PublicOf hp sx)"
    and valid: "newX25519PublicKey hp (x25519PublicOf hp sx)"
    and sizes: "length ek = mlkemPublicKeyBytes" "length (x25519PublicOf hp sx) = x25519Size"
    and server: "serverHybridEncapsulate sha hp sx (ek @ x25519PublicOf hp cx) = Inr (blob, shared)"
  shows "clientHybridDecapsulate sha hp dk cx blob = Inr shared"
  using assms by (rule hybrid_shared)

definition toy_hybrid :: hybrid_primitives where
  "toy_hybrid = \<lparr>
     newEncapsulationKey = (\<lambda>_. True),
     encapsulate = (\<lambda>ek. (replicate 32 (hd ek), replicate 1088 (hd ek))),
     decapsulate = (\<lambda>_ ct. Some (replicate 32 (hd ct))),
     newX25519PublicKey = (\<lambda>_. True),
     x25519PublicOf = (\<lambda>k. k),
     x25519ECDH = (\<lambda>a b. Some (map2 (\<lambda>x y. x XOR y) a b))\<rparr>"

lemma toy_server:
  "serverHybridEncapsulate (\<lambda>m i. m ! i) toy_hybrid (replicate 32 1)
      (replicate 1184 7 @ x25519PublicOf toy_hybrid (replicate 32 2)) =
    Inr (replicate 1088 7 @ replicate 32 1, Sum256 (\<lambda>m i. m ! i) (replicate 32 7 @ replicate 32 3))"
proof -
  have nz: "map2 (\<lambda>x y. x XOR y) (replicate 32 1) (replicate 32 2) = replicate 32 (3 :: byte)"
    by (simp add: zip_replicate)
  show ?thesis
    unfolding serverHybridEncapsulate_def Let_def
    by (simp add: toy_hybrid_def mlkemPublicKeyBytes_def x25519Size_def mlkemCiphertextBytes_def
        mlkemSharedBytes_def nz isZero_iff)
qed

lemma toy_laws:
  "decapsulate toy_hybrid dk (snd (encapsulate toy_hybrid (replicate 1184 7))) =
     Some (fst (encapsulate toy_hybrid (replicate 1184 7)))"
  "x25519ECDH toy_hybrid (replicate 32 1) (x25519PublicOf toy_hybrid (replicate 32 2)) =
     x25519ECDH toy_hybrid (replicate 32 2) (x25519PublicOf toy_hybrid (replicate 32 1))"
  "newX25519PublicKey toy_hybrid (x25519PublicOf toy_hybrid (replicate 32 1))"
  "length (replicate 1184 (7 :: byte)) = mlkemPublicKeyBytes"
  "length (x25519PublicOf toy_hybrid (replicate 32 1)) = x25519Size"
  by (simp_all add: toy_hybrid_def mlkemPublicKeyBytes_def x25519Size_def zip_replicate)

theorem hybrid_agreement_witness:
  "\<exists>blob shared.
     serverHybridEncapsulate (\<lambda>m i. m ! i) toy_hybrid (replicate 32 1)
       (replicate 1184 7 @ replicate 32 2) = Inr (blob, shared) \<and>
     clientHybridDecapsulate (\<lambda>m i. m ! i) toy_hybrid [] (replicate 32 2) blob = Inr shared"
  using hybrid_agreement [OF toy_laws toy_server] toy_server by (auto simp: toy_hybrid_def)

text \<open>
  C27. The two ends interoperate: for the built-in profile, the KEXINIT that the package builds for
  a client, whatever its cookie, is accepted by the inspection for pinned algorithms and offers
  strict key exchange, and the one that it builds for a server offers the pinned algorithms too but
  is not taken for a client's offer of strict key exchange.
\<close>

theorem own_offer_accepted:
  assumes "polProfile policy = current_profile"
  shows "(\<exists>kex. marshalKexInitClient policy cookie = Some kex \<and>
      clientOffersPinnedAlgorithms kex policy = Inr () \<and> clientOffersStrictKEX kex) \<and>
    (\<exists>kex. marshalKexInit policy cookie = Some kex \<and>
      clientOffersPinnedAlgorithms kex policy = Inr () \<and> \<not> clientOffersStrictKEX kex)"
proof -
  let ?k = "''mlkem768x25519-sha256''" and ?a = "''ssh-mldsa44-ed25519@openssh.com''"
    and ?c = "''chacha20-poly1305@openssh.com''"
  let ?client = "?k @ '','' @ strictKEXClient" and ?server = "?k @ '','' @ strictKEXServer"
  have split: "splitOn (CHR '','') ?client = [?k, strictKEXClient]"
    "splitOn (CHR '','') ?server = [?k, strictKEXServer]"
    "splitOn (CHR '','') ?a = [?a]" "splitOn (CHR '','') ?c = [?c]" "strictKEXServer \<noteq> strictKEXClient"
    "?k \<noteq> strictKEXClient" "length ?client < 2 ^ 32" "length ?server < 2 ^ 32"
    by code_simp+
  have fits: "fits32 (bytes_of ?client)" "fits32 (bytes_of ?server)" "fits32 (bytes_of ?a)" "fits32 (bytes_of ?c)"
    using split(7,8) by (simp_all add: fits32_def)
  obtain rest where body: "marshalKexInitList policy cookie names = Some (sshMsgKexInit # map cookie [0..<16] @
      sshString (bytes_of names) @ sshString (bytes_of ?a) @ sshString (bytes_of ?c) @ sshString (bytes_of ?c) @ rest)"
    for names
    using marshalled_list [OF assms] by blast
  have offer: "clientOffersPinnedAlgorithms (sshMsgKexInit # map cookie [0..<16] @
      sshString (bytes_of names) @ sshString (bytes_of ?a) @ sshString (bytes_of ?c) @ sshString (bytes_of ?c) @ rest)
      policy = Inr ()"
    if "fits32 (bytes_of names)" "?k \<in> set (splitOn (CHR '','') names)" for names
    unfolding offers_iff kexBody_Cons assms
    by (rule exI [of _ "map cookie [0..<16]"], rule exI [of _ "bytes_of names"], rule exI [of _ "bytes_of ?a"],
        rule exI [of _ "bytes_of ?c"], rule exI [of _ "bytes_of ?c"], rule exI [of _ rest])
      (use that fits split in \<open>simp add: current_profile_def\<close>)
  have strict: "clientOffersStrictKEX (sshMsgKexInit # map cookie [0..<16] @ sshString (bytes_of names) @ more) \<longleftrightarrow>
      strictKEXClient \<in> set (splitOn (CHR '','') names)" if "fits32 (bytes_of names)" for names more
    using ssh.dec_enc [OF that] by (simp add: clientOffersStrictKEX_def nameListContains_def)
  have names: "KeyExchangeAlgorithm (polProfile policy) = ?k" by (simp add: assms current_profile_def)
  show ?thesis
    unfolding marshalKexInitClient_def marshalKexInit_def names body
    using offer [of ?client] offer [of ?server] strict [OF fits(1)] strict [OF fits(2)] fits(1,2) split by simp
qed

definition sample_policy :: Policy where
  "sample_policy = \<lparr>
     polProfile = current_profile, polListen = (V4 [192, 0, 2, 10], 22), polTarget = (V4 [10, 0, 0, 5], 8080),
     polManagement = (V4 [127, 0, 0, 1], 29723), polHostKeyPath = [], polAuthorizedKeysPath = [],
     polHostSignSocket = [], polControlSocket = [], polRekeyAfter = 0, polMaxChannels = 1,
     polMaxConnsPerSource = 0\<rparr>"

theorem own_offer_accepted_witness:
  "\<exists>kex. marshalKexInitClient sample_policy (\<lambda>_. 7) = Some kex \<and>
     clientOffersPinnedAlgorithms kex sample_policy = Inr () \<and> clientOffersStrictKEX kex"
proof -
  have "polProfile sample_policy = current_profile" by (simp add: sample_policy_def)
  from own_offer_accepted [OF this] show ?thesis by blast
qed

end
