(* ===== verification/Go_Time.thy ===== *)
theory Go_Time
  imports WT_Prelude
begin

text \<open>
  The part of Go's \<open>time\<close> package that grants use. A \<open>time.Time\<close> is the number of nanoseconds
  since the zero time 0001-01-01T00:00:00Z; its seconds are a signed 64-bit number and
  \<open>Add\<close> saturates there. A \<open>time.Duration\<close> is a signed 64-bit number of nanoseconds, with
  \<open>int64\<close> as the wrap-around of its arithmetic. \<open>Format\<close> and \<open>Parse\<close> are those of the layout
  RFC3339Nano for UTC, on the proleptic Gregorian calendar; like the library, the parser also
  takes a one-digit hour and a comma before the fraction.
\<close>

type_synonym time = int
type_synonym duration = int

definition int64 :: "int \<Rightarrow> int" where
  "int64 x = signed_take_bit 63 x"

lemma int64_id: "- (2 ^ 63) \<le> x \<Longrightarrow> x < 2 ^ 63 \<Longrightarrow> int64 x = x"
  by (simp add: int64_def signed_take_bit_int_eq_self)

definition Second :: duration where "Second = 1000000000"
definition Minute :: duration where "Minute = 60 * Second"
definition Hour :: duration where "Hour = 60 * Minute"
definition Day :: duration where "Day = 24 * Hour"

definition zeroTime :: time where "zeroTime = 0"

definition isZeroTime :: "time \<Rightarrow> bool" where
  "isZeroTime t \<longleftrightarrow> t = 0"

definition maxSeconds :: int where "maxSeconds = 2 ^ 63 - 1"

definition timeAdd :: "time \<Rightarrow> duration \<Rightarrow> time" where
  "timeAdd t d =
     (let n = t + d in
      max (- maxSeconds) (min maxSeconds (n div Second)) * Second + n mod Second)"

lemma timeAdd_exact:
  assumes "- maxSeconds * Second \<le> t + d" and "t + d < (maxSeconds + 1) * Second"
  shows "timeAdd t d = t + d"
proof -
  have "- maxSeconds \<le> (t + d) div Second" "(t + d) div Second \<le> maxSeconds"
    using assms by (simp_all add: Second_def maxSeconds_def)
  then show ?thesis by (simp add: timeAdd_def Let_def)
qed

section \<open>Calendar\<close>

text \<open>
  Days are counted from 0001-01-01. Years are taken to begin on the first of March, so that a
  leap day is the last day of its year: \<open>cent\<close>, \<open>quad\<close> and \<open>yq\<close> are the century of the
  400-year cycle, the four-year cycle of the century and the year of that.
\<close>

definition cent_of :: "int \<Rightarrow> int" where "cent_of doe = min 3 (doe div 36524)"
definition doc_of :: "int \<Rightarrow> int" where "doc_of doe = doe - cent_of doe * 36524"
definition yq_of :: "int \<Rightarrow> int" where "yq_of doq = min 3 (doq div 365)"

definition yoe_of :: "int \<Rightarrow> int" where
  "yoe_of doe =
     100 * cent_of doe + 4 * (doc_of doe div 1461) + yq_of (doc_of doe mod 1461)"

definition doy_of :: "int \<Rightarrow> int" where
  "doy_of doe = doc_of doe mod 1461 - 365 * yq_of (doc_of doe mod 1461)"

definition month_start :: "int \<Rightarrow> int" where
  "month_start mp = (153 * mp + 2) div 5"

definition civil :: "int \<Rightarrow> int \<times> int \<times> int" where
  "civil days =
     (let z = days + 306; era = z div 146097; doe = z mod 146097;
          doy = doy_of doe; mp = (5 * doy + 2) div 153;
          d = doy - month_start mp + 1; m = (if mp < 10 then mp + 3 else mp - 9)
      in (yoe_of doe + era * 400 + (if m \<le> 2 then 1 else 0), m, d))"

definition days_of :: "int \<Rightarrow> int \<Rightarrow> int \<Rightarrow> int" where
  "days_of y m d =
     (let y = (if m \<le> 2 then y - 1 else y); era = y div 400; yoe = y mod 400;
          mp = (if m > 2 then m - 3 else m + 9); doy = month_start mp + d - 1
      in era * 146097 + (365 * yoe + yoe div 4 - yoe div 100 + doy) - 306)"

definition isLeap :: "int \<Rightarrow> bool" where
  "isLeap y \<longleftrightarrow> y mod 4 = 0 \<and> (y mod 100 \<noteq> 0 \<or> y mod 400 = 0)"

definition daysIn :: "int \<Rightarrow> int \<Rightarrow> int" where
  "daysIn y m =
     (if m = 2 then (if isLeap y then 29 else 28)
      else if m = 4 \<or> m = 6 \<or> m = 9 \<or> m = 11 then 30 else 31)"

definition nanosPerDay :: int where "nanosPerDay = 86400 * 1000000000"

definition timeYear :: "time \<Rightarrow> int" where
  "timeYear t = fst (civil (t div nanosPerDay))"

section \<open>Format and Parse\<close>

definition appendInt :: "int \<Rightarrow> nat \<Rightarrow> string" where
  "appendInt x width =
     (let n = nat \<bar>x\<bar>
      in (if x < 0 then ''-'' else '''') @ (if n < 10 ^ width then dec width n else showNat n))"

definition appendFrac :: "nat \<Rightarrow> string" where
  "appendFrac ns = (if ns = 0 then [] else ''.'' @ trimRight (dec 9 ns) ''0'')"

definition formatUTC :: "time \<Rightarrow> string" where
  "formatUTC t =
     (case civil (t div nanosPerDay) of (y, m, d) \<Rightarrow>
        let ns = nat (t mod nanosPerDay); s = ns div 1000000000
        in appendInt y 4 @ ''-'' @ appendInt m 2 @ ''-'' @ appendInt d 2 @ ''T'' @
           dec 2 (s div 3600) @ '':'' @ dec 2 (s mod 3600 div 60) @ '':'' @ dec 2 (s mod 60) @
           appendFrac (ns mod 1000000000) @ ''Z'')"

definition takeDigits :: "nat \<Rightarrow> string \<Rightarrow> (nat \<times> string) option" where
  "takeDigits n s =
     (if n \<le> length s \<and> list_all isDigit (take n s) then Some (decimal 0 (take n s), drop n s)
      else None)"

definition takeChar :: "char \<Rightarrow> string \<Rightarrow> string option" where
  "takeChar c s = (case s of [] \<Rightarrow> None | x # xs \<Rightarrow> if x = c then Some xs else None)"

text \<open>\<open>getnum\<close> without \<open>fixed\<close>: two digits, or one if the second is none.\<close>

definition takeHour :: "string \<Rightarrow> (nat \<times> string) option" where
  "takeHour s =
     (case takeDigits 2 s of Some r \<Rightarrow> Some r | None \<Rightarrow> takeDigits 1 s)"

definition takeFrac :: "string \<Rightarrow> nat \<times> string" where
  "takeFrac s =
     (case s of
        [] \<Rightarrow> (0, s)
      | c # rest \<Rightarrow>
          let ds = takeWhile isDigit rest; first = take 9 ds in
          if (c = CHR ''.'' \<or> c = CHR '','') \<and> ds \<noteq> []
          then (decimal 0 first * 10 ^ (9 - length first), dropWhile isDigit rest)
          else (0, s))"

definition parseRFC3339 :: "string \<Rightarrow> time option" where
  "parseRFC3339 s =
     (case takeDigits 4 s of None \<Rightarrow> None | Some (y, s) \<Rightarrow>
     (case takeChar (CHR ''-'') s of None \<Rightarrow> None | Some s \<Rightarrow>
     (case takeDigits 2 s of None \<Rightarrow> None | Some (m, s) \<Rightarrow>
     (case takeChar (CHR ''-'') s of None \<Rightarrow> None | Some s \<Rightarrow>
     (case takeDigits 2 s of None \<Rightarrow> None | Some (d, s) \<Rightarrow>
     (case takeChar (CHR ''T'') s of None \<Rightarrow> None | Some s \<Rightarrow>
     (case takeHour s of None \<Rightarrow> None | Some (h, s) \<Rightarrow>
     (case takeChar (CHR '':'') s of None \<Rightarrow> None | Some s \<Rightarrow>
     (case takeDigits 2 s of None \<Rightarrow> None | Some (mi, s) \<Rightarrow>
     (case takeChar (CHR '':'') s of None \<Rightarrow> None | Some s \<Rightarrow>
     (case takeDigits 2 s of None \<Rightarrow> None | Some (sec, s) \<Rightarrow>
     (case takeFrac s of (ns, s) \<Rightarrow>
        if s = ''Z'' \<and> 1 \<le> m \<and> m \<le> 12 \<and> h < 24 \<and> mi < 60 \<and> sec < 60 \<and>
           1 \<le> d \<and> int d \<le> daysIn (int y) (int m)
        then Some (days_of (int y) (int m) (int d) * nanosPerDay
                   + int ((h * 3600 + mi * 60 + sec) * 1000000000 + ns))
        else None))))))))))))"

section \<open>The calendar is consistent\<close>

definition month_ok :: "int \<Rightarrow> int \<Rightarrow> bool" where
  "month_ok doy mp \<longleftrightarrow>
     0 \<le> mp \<and> mp \<le> 11 \<and> 1 \<le> doy - month_start mp + 1 \<and>
     doy - month_start mp + 1 \<le>
       (if mp = 11 then (if doy = 365 then 29 else 28)
        else if mp = 1 \<or> mp = 3 \<or> mp = 6 \<or> mp = 8 then 30 else 31)"

lemma month_of_doy:
  assumes "0 \<le> doy" "doy \<le> 365"
  shows "month_ok doy ((5 * doy + 2) div 153)"
proof -
  define mp where "mp = (5 * doy + 2) div 153"
  have lo: "153 * mp \<le> 5 * doy + 2" and hi: "5 * doy + 2 < 153 * mp + 153"
    unfolding mp_def by linarith+
  have "0 \<le> mp" "mp \<le> 11" using assms lo hi by linarith+
  then have "mp = 0 \<or> mp = 1 \<or> mp = 2 \<or> mp = 3 \<or> mp = 4 \<or> mp = 5 \<or> mp = 6 \<or> mp = 7 \<or> mp = 8 \<or>
      mp = 9 \<or> mp = 10 \<or> mp = 11"
    by presburger
  then have "month_ok doy mp"
    using lo hi assms by (elim disjE) (simp_all add: month_ok_def month_start_def)
  then show ?thesis by (simp add: mp_def)
qed

lemma doc_bounds:
  assumes "0 \<le> doe" "doe < 146097"
  shows "0 \<le> doc_of doe" "doc_of doe \<le> 36524" "cent_of doe < 3 \<Longrightarrow> doc_of doe < 36524"
proof -
  have dm: "doe = 36524 * (doe div 36524) + doe mod 36524" "0 \<le> doe mod 36524" "doe mod 36524 < 36524"
    by simp_all
  consider "doe div 36524 < 3" | "doe div 36524 = 3" | "doe div 36524 = 4"
    using assms by linarith
  then have "0 \<le> doc_of doe \<and> doc_of doe \<le> 36524 \<and> (cent_of doe < 3 \<longrightarrow> doc_of doe < 36524)"
  proof cases
    case 1
    then have "doc_of doe = doe mod 36524"
      by (simp add: doc_of_def cent_of_def minus_div_mult_eq_mod)
    with dm show ?thesis by simp
  next
    case 2
    then have "doc_of doe = doe - 109572" "cent_of doe = 3"
      by (simp_all add: doc_of_def cent_of_def)
    with 2 dm show ?thesis by linarith
  next
    case 3
    then show ?thesis using dm(1) assms by (simp add: doc_of_def cent_of_def)
  qed
  then show "0 \<le> doc_of doe" "doc_of doe \<le> 36524" "cent_of doe < 3 \<Longrightarrow> doc_of doe < 36524"
    by blast+
qed

lemma yq_bounds:
  assumes "0 \<le> r" "r < 1461"
  shows "0 \<le> yq_of r" "yq_of r \<le> 3" "365 * yq_of r \<le> r" "r - 365 * yq_of r \<le> 365"
    "r - 365 * yq_of r = 365 \<Longrightarrow> yq_of r = 3"
proof -
  have dm: "r = 365 * (r div 365) + r mod 365" "0 \<le> r mod 365" "r mod 365 < 365" "0 \<le> r div 365"
    using assms by (simp_all add: pos_imp_zdiv_nonneg_iff)
  consider "r div 365 < 3" | "r div 365 = 3" | "r div 365 = 4" using assms by linarith
  then have "0 \<le> yq_of r \<and> yq_of r \<le> 3 \<and> 365 * yq_of r \<le> r \<and> r - 365 * yq_of r \<le> 365 \<and>
      (r - 365 * yq_of r = 365 \<longrightarrow> yq_of r = 3)"
  proof cases
    case 1
    then have "yq_of r = r div 365" by (simp add: yq_of_def)
    with 1 dm show ?thesis by linarith
  next
    case 2
    then have "yq_of r = 3" by (simp add: yq_of_def)
    with 2 dm show ?thesis by linarith
  next
    case 3
    then have "yq_of r = 3" by (simp add: yq_of_def)
    with 3 dm assms show ?thesis by linarith
  qed
  then show "0 \<le> yq_of r" "yq_of r \<le> 3" "365 * yq_of r \<le> r" "r - 365 * yq_of r \<le> 365"
    "r - 365 * yq_of r = 365 \<Longrightarrow> yq_of r = 3"
    by blast+
qed

lemma cycle:
  assumes "0 \<le> doe" "doe < 146097"
  shows "0 \<le> yoe_of doe" "yoe_of doe \<le> 399" "0 \<le> doy_of doe" "doy_of doe \<le> 365"
    "doy_of doe = 365 \<Longrightarrow> isLeap (yoe_of doe + 1)"
    "365 * yoe_of doe + yoe_of doe div 4 - yoe_of doe div 100 + doy_of doe = doe"
proof -
  define c where "c = cent_of doe"
  define q where "q = doc_of doe div 1461"
  define r where "r = doc_of doe mod 1461"
  define k where "k = yq_of r"
  have c: "0 \<le> c" "c \<le> 3" using assms by (simp_all add: c_def cent_of_def pos_imp_zdiv_nonneg_iff)
  note doc = doc_bounds [OF assms, folded c_def]
  have qr: "doc_of doe = 1461 * q + r" "0 \<le> r" "r < 1461"
    by (simp_all add: q_def r_def)
  have q: "0 \<le> q" "q \<le> 24" using doc qr by linarith+
  note k = yq_bounds [OF qr(2,3), folded k_def]
  have y: "yoe_of doe = 100 * c + 4 * q + k" by (simp add: yoe_of_def c_def q_def k_def r_def)
  have dy: "doy_of doe = r - 365 * k" by (simp add: doy_of_def k_def r_def)
  have y4: "yoe_of doe div 4 = 25 * c + q"
    using k(1,2) unfolding y by linarith
  have y100: "yoe_of doe div 100 = c"
    using k(1,2) q unfolding y by linarith
  have doe: "doe = 36524 * c + doc_of doe" by (simp add: doc_of_def c_def)
  show "0 \<le> yoe_of doe" "yoe_of doe \<le> 399" "0 \<le> doy_of doe" "doy_of doe \<le> 365"
    using c q k(1-4) y dy by linarith+
  show "365 * yoe_of doe + yoe_of doe div 4 - yoe_of doe div 100 + doy_of doe = doe"
    using y dy y4 y100 qr(1) doe by linarith
  assume "doy_of doe = 365"
  then have k3: "k = 3" and r: "r = 1460" using k(5) dy by simp_all
  show "isLeap (yoe_of doe + 1)"
  proof (cases "q = 24")
    case True
    then have "c = 3" using doc(3) qr(1) r c by linarith
    with True k3 show ?thesis by (simp add: y isLeap_def)
  next
    case False
    have e: "yoe_of doe + 1 = 100 * c + (4 * q + 4)" by (simp add: y k3)
    have "(100 * c + (4 * q + 4)) mod 100 = 4 * q + 4" using q False by simp
    moreover have "(100 * c + (4 * q + 4)) mod 4 = 0" by presburger
    ultimately show ?thesis unfolding e isLeap_def using q by linarith
  qed
qed

lemma isLeap_cycle: "isLeap (y + e * 400) \<longleftrightarrow> isLeap y"
proof -
  have "(y + e * 400) mod 4 = y mod 4" using mod_mult_self1 [of y "e * 100" 4] by (simp add: mult.commute)
  moreover have "(y + e * 400) mod 100 = y mod 100"
    using mod_mult_self1 [of y "e * 4" 100] by (simp add: mult.commute)
  ultimately show ?thesis by (simp add: isLeap_def)
qed

lemma civil_valid:
  assumes "civil days = (y, m, d)"
  shows "1 \<le> m" "m \<le> 12" "1 \<le> d" "d \<le> daysIn y m" "d \<le> 31" "days_of y m d = days"
proof -
  define era where "era = (days + 306) div 146097"
  define doe where "doe = (days + 306) mod 146097"
  define doy where "doy = doy_of doe"
  define mp where "mp = (5 * doy + 2) div 153"
  have doe: "0 \<le> doe" "doe < 146097" by (simp_all add: doe_def)
  note cy = cycle [OF doe, folded doy_def]
  have mp: "month_ok doy mp"
    using month_of_doy [OF cy(3,4)] by (simp add: mp_def)
  have eqs: "m = (if mp < 10 then mp + 3 else mp - 9)" "d = doy - month_start mp + 1"
    "y = yoe_of doe + era * 400 + (if m \<le> 2 then 1 else 0)"
    using assms [unfolded civil_def Let_def, folded era_def doe_def, folded doy_def,
        folded mp_def] by auto
  have yy: "(if m \<le> 2 then y - 1 else y) = yoe_of doe + era * 400"
    using eqs(3) by simp
  have ed: "(yoe_of doe + era * 400) div 400 = era" "(yoe_of doe + era * 400) mod 400 = yoe_of doe"
    using cy(1,2) by simp_all
  have mpm: "(if m > 2 then m - 3 else m + 9) = mp"
    using eqs(1) mp by (simp add: month_ok_def)
  have "days_of y m d = era * 146097 + doe - 306"
    using cy(6) unfolding days_of_def Let_def yy ed mpm by (simp add: eqs(2))
  also have "\<dots> = days" by (simp add: era_def doe_def)
  finally show "days_of y m d = days" .
  have leap: "isLeap y" if "doy = 365" "m = 2"
  proof -
    have "isLeap (yoe_of doe + 1)" using cy(5) that by simp
    moreover have y: "y = (yoe_of doe + 1) + era * 400" using eqs(3) that by simp
    ultimately show ?thesis by (simp only: y isLeap_cycle)
  qed
  show "1 \<le> m" "m \<le> 12" "1 \<le> d" using mp eqs(1,2) by (simp_all add: month_ok_def)
  show "d \<le> 31" using mp eqs(2) by (auto simp: month_ok_def split: if_splits)
  show "d \<le> daysIn y m"
  proof (cases "mp = 11")
    case True
    with eqs(1) have "m = 2" by simp
    with True mp leap eqs(2) show ?thesis
      by (auto simp: month_ok_def daysIn_def split: if_splits)
  next
    case False
    with mp eqs(1,2) show ?thesis by (auto simp: month_ok_def daysIn_def)
  qed
qed

section \<open>Parse inverts Format\<close>

lemma takeDigits_dec [simp]:
  "n < 10 ^ w \<Longrightarrow> takeDigits w (dec w n @ rest) = Some (n, rest)"
  by (auto simp: takeDigits_def decimal_dec list_all_iff dest: dec_digits)

lemma takeHour_dec [simp]: "n < 100 \<Longrightarrow> takeHour (dec 2 n @ rest) = Some (n, rest)"
  by (simp add: takeHour_def)

lemma takeChar_Cons [simp]: "takeChar c (c # rest) = Some rest"
  by (simp add: takeChar_def)

lemma appendInt_nonneg: "0 \<le> x \<Longrightarrow> x < 10 ^ w \<Longrightarrow> appendInt x w = dec w (nat x)"
  by (simp add: appendInt_def nat_less_iff)

lemma trimRight_decomp: "\<exists>k. s = trimRight s [c] @ replicate k c"
proof -
  have "rev s = takeWhile (\<lambda>x. x = c) (rev s) @ dropWhile (\<lambda>x. x = c) (rev s)" by simp
  then have "s = rev (dropWhile (\<lambda>x. x = c) (rev s)) @ rev (takeWhile (\<lambda>x. x = c) (rev s))"
    by (metis rev_append rev_rev_ident)
  moreover have "takeWhile (\<lambda>x. x = c) (rev s) =
      replicate (length (takeWhile (\<lambda>x. x = c) (rev s))) c"
    by (rule replicate_length_same [symmetric]) (auto dest: set_takeWhileD)
  ultimately have "s = rev (dropWhile (\<lambda>x. x = c) (rev s)) @
      replicate (length (takeWhile (\<lambda>x. x = c) (rev s))) c"
    by (metis rev_replicate)
  moreover have "trimRight s [c] = rev (dropWhile (\<lambda>x. x = c) (rev s))"
    by (simp add: trimRight_def)
  ultimately show ?thesis by metis
qed

lemma takeFrac_appendFrac:
  assumes "ns < 1000000000"
  shows "takeFrac (appendFrac ns @ ''Z'') = (ns, ''Z'')"
proof (cases "ns = 0")
  case True
  then show ?thesis by (simp add: appendFrac_def takeFrac_def)
next
  case False
  let ?t = "trimRight (dec 9 ns) ''0''"
  obtain k where k: "dec 9 ns = ?t @ replicate k (CHR ''0'')"
    using trimRight_decomp by metis
  have len: "length ?t + k = 9"
    using arg_cong [OF k, of length] by simp
  have val: "decimal 0 ?t * 10 ^ k = ns"
  proof -
    have "decimal 0 ?t * 10 ^ k = decimal 0 (?t @ replicate k (CHR ''0''))"
      by (rule decimal_zeros [symmetric])
    also have "\<dots> = decimal 0 (dec 9 ns)" using k by simp
    also have "\<dots> = ns" using assms by (simp add: decimal_dec)
    finally show ?thesis .
  qed
  have ne: "?t \<noteq> []" using val False by auto
  have "set ?t \<subseteq> set (dec 9 ns)" using k by (metis set_append Un_upper1)
  then have dig: "\<forall>c \<in> set ?t. isDigit c" by (auto dest: dec_digits)
  have notZ: "\<not> isDigit CHR ''Z''" by (simp add: isDigit_iff)
  have tw: "takeWhile isDigit (?t @ ''Z'') = ?t" "dropWhile isDigit (?t @ ''Z'') = ''Z''"
    using dig notZ by (simp_all add: takeWhile_append dropWhile_append)
  have k': "9 - length ?t = k" "take 9 ?t = ?t" using len by simp_all
  show ?thesis
    using False ne val
    by (simp add: appendFrac_def takeFrac_def tw Let_def k' del: length_take)
qed

text \<open>A time that the four-digit years can express, and its fields.\<close>

definition plain_time :: "time \<Rightarrow> bool" where
  "plain_time t \<longleftrightarrow> 0 \<le> timeYear t \<and> timeYear t \<le> 9999"

lemma parse_format:
  assumes "plain_time t"
  shows "parseRFC3339 (formatUTC t) = Some t"
proof -
  obtain y m d where c: "civil (t div nanosPerDay) = (y, m, d)" by (metis prod_cases3)
  note v = civil_valid [OF c]
  have y: "0 \<le> y" "y < 10 ^ 4" using assms c by (simp_all add: plain_time_def timeYear_def)
  define ns where "ns = nat (t mod nanosPerDay)"
  define s where "s = ns div 1000000000"
  have ns: "int ns = t mod nanosPerDay" "ns < 86400 * 1000000000"
    by (simp_all add: ns_def nanosPerDay_def nat_less_iff)
  have s: "s < 86400" using ns(2) by (simp add: s_def less_mult_imp_div_less)
  have hms: "s div 3600 < 24" "s mod 3600 div 60 < 60" "s mod 60 < 60"
    "s div 3600 * 3600 + s mod 3600 div 60 * 60 + s mod 60 = s"
  proof -
    show "s div 3600 < 24" using s by (simp add: less_mult_imp_div_less)
    show "s mod 3600 div 60 < 60" by (simp add: less_mult_imp_div_less)
    show "s mod 60 < 60" by simp
    have "s mod 3600 mod 60 = s mod 60" by (simp add: mod_mod_cancel)
    then show "s div 3600 * 3600 + s mod 3600 div 60 * 60 + s mod 60 = s"
      by (metis div_mult_mod_eq add.assoc)
  qed
  have fmt: "formatUTC t = dec 4 (nat y) @ CHR ''-'' # dec 2 (nat m) @ CHR ''-'' # dec 2 (nat d) @
      CHR ''T'' # dec 2 (s div 3600) @ CHR '':'' # dec 2 (s mod 3600 div 60) @ CHR '':'' #
      dec 2 (s mod 60) @ appendFrac (ns mod 1000000000) @ ''Z''"
    using y v(1-3,5) by (simp add: formatUTC_def c Let_def appendInt_nonneg flip: ns_def s_def)
  have tot: "int (s * 1000000000 + ns mod 1000000000) = t mod nanosPerDay"
    using ns(1) by (simp add: s_def)
  have tail: "takeFrac (appendFrac (ns mod 1000000000) @ ''Z'') = (ns mod 1000000000, ''Z'')"
    by (rule takeFrac_appendFrac) simp
  have bounds: "nat y < 10 ^ 4" "nat m < 10 ^ 2" "nat d < 10 ^ 2" "nat m \<le> 12" "Suc 0 \<le> nat m"
    "Suc 0 \<le> nat d" "int (nat d) \<le> daysIn (int (nat y)) (int (nat m))"
    using y v(1-5) by (simp_all add: nat_less_iff)
  have small: "s div 3600 < 100" "s mod 3600 div 60 < 10 ^ 2" "s mod 60 < 10 ^ 2"
    using hms by simp_all
  have "parseRFC3339 (formatUTC t) =
      Some (days_of y m d * nanosPerDay + int (s * 1000000000 + ns mod 1000000000))"
    unfolding fmt parseRFC3339_def
    using bounds(4-7) hms y(1) v(1,3)
    by (simp add: takeDigits_dec [OF bounds(1)] takeDigits_dec [OF bounds(2)]
        takeDigits_dec [OF bounds(3)] takeHour_dec [OF small(1)] takeDigits_dec [OF small(2)]
        takeDigits_dec [OF small(3)] tail del: takeDigits_dec takeHour_dec)
  also have "\<dots> = Some t" using v(6) tot by simp
  finally show ?thesis .
qed

section \<open>Years and days\<close>

lemma month_start_bounds: "0 \<le> mp \<Longrightarrow> mp \<le> 11 \<Longrightarrow> 0 \<le> month_start mp \<and> month_start mp \<le> 337"
  unfolding month_start_def by linarith

lemma civil_year_bounds:
  assumes "civil days = (y, m, d)"
  shows "1 \<le> y \<Longrightarrow> 365 * y - 680 \<le> days" and "1 \<le> y \<Longrightarrow> days \<le> 366 * y + 200"
    and "y < 0 \<Longrightarrow> days < 0"
proof -
  note v = civil_valid [OF assms]
  define y' where "y' = (if m \<le> 2 then y - 1 else y)"
  define era where "era = y' div 400"
  define yoe where "yoe = y' mod 400"
  define mp where "mp = (if m > 2 then m - 3 else m + 9)"
  have dys: "days = era * 146097 + (365 * yoe + yoe div 4 - yoe div 100 + (month_start mp + d - 1)) - 306"
    using v(6) unfolding days_of_def Let_def y'_def era_def yoe_def mp_def by simp
  have yy: "y' = 400 * era + yoe" "0 \<le> yoe" "yoe < 400"
    by (simp_all add: era_def yoe_def)
  have q: "0 \<le> yoe div 4" "yoe div 4 \<le> 99" "0 \<le> yoe div 100" "yoe div 100 \<le> 3"
    "yoe div 4 \<le> yoe"
    using yy(2,3) by linarith+
  have "0 \<le> month_start mp" "month_start mp \<le> 337"
    using month_start_bounds [of mp] v(1,2) by (simp_all add: mp_def)
  moreover have "daysIn y m \<le> 31" by (simp add: daysIn_def)
  ultimately have doy: "0 \<le> month_start mp + d - 1" "month_start mp + d - 1 \<le> 367"
    using v(3,4) by simp_all
  have y'y: "y - 1 \<le> y'" "y' \<le> y" by (simp_all add: y'_def)
  show "1 \<le> y \<Longrightarrow> 365 * y - 680 \<le> days" "1 \<le> y \<Longrightarrow> days \<le> 366 * y + 200" "y < 0 \<Longrightarrow> days < 0"
    using dys yy q doy y'y by linarith+
qed

lemma timeYear_bounds:
  shows "1 \<le> timeYear t \<Longrightarrow> (365 * timeYear t - 680) * nanosPerDay \<le> t"
    and "1 \<le> timeYear t \<Longrightarrow> t < (366 * timeYear t + 201) * nanosPerDay"
    and "0 \<le> t \<Longrightarrow> 0 \<le> timeYear t"
proof -
  obtain y m d where c: "civil (t div nanosPerDay) = (y, m, d)" by (metis prod_cases3)
  have y: "timeYear t = y" by (simp add: timeYear_def c)
  have t: "t = t div nanosPerDay * nanosPerDay + t mod nanosPerDay" by simp
  have m: "0 \<le> t mod nanosPerDay" "t mod nanosPerDay < nanosPerDay"
    by (simp_all add: nanosPerDay_def)
  note b = civil_year_bounds [OF c]
  show "1 \<le> timeYear t \<Longrightarrow> (365 * timeYear t - 680) * nanosPerDay \<le> t"
    using b(1) t m by (simp add: y nanosPerDay_def)
  show "1 \<le> timeYear t \<Longrightarrow> t < (366 * timeYear t + 201) * nanosPerDay"
    using b(2) t m by (simp add: y nanosPerDay_def)
  show "0 \<le> t \<Longrightarrow> 0 \<le> timeYear t"
    using b(3) by (simp add: y nanosPerDay_def not_le [symmetric]) (metis div_int_pos_iff not_le zero_le_numeral)
qed

text \<open>A valid date determines its day and the day its year.\<close>

definition year_start :: "int \<Rightarrow> int" where
  "year_start y = y div 400 * 146097 + (365 * (y mod 400) + (y mod 400) div 4 - (y mod 400) div 100)"

lemma div_step: "0 < n \<Longrightarrow> (y + 1) div n = y div n + (if (y + 1) mod n = 0 then 1 else 0 :: int)"
proof -
  assume n: "0 < n"
  have dm: "y = n * (y div n) + y mod n" "0 \<le> y mod n" "y mod n < n" using n by simp_all
  show ?thesis
  proof (cases "y mod n = n - 1")
    case True
    then have "y + 1 = n * (y div n) + n" using dm(1) by linarith
    then have "y + 1 = n * (y div n + 1)" by (simp add: distrib_left)
    then show ?thesis using n by simp
  next
    case False
    then have eq: "y + 1 = n * (y div n) + (y mod n + 1)" "0 \<le> y mod n + 1" "y mod n + 1 < n"
      using dm by simp_all
    have "(y + 1) div n = y div n" "(y + 1) mod n = y mod n + 1"
      by (rule int_div_pos_eq [OF eq]) (rule int_mod_pos_eq [OF eq])
    then show ?thesis using dm(2) by simp
  qed
qed

lemma year_start_eq: "year_start y = 365 * y + y div 4 - y div 100 + y div 400"
proof -
  define e where "e = y div 400"
  define k where "k = y mod 400"
  have y: "y = 400 * e + k" by (simp add: e_def k_def)
  have "y div 4 = 100 * e + k div 4" "y div 100 = 4 * e + k div 100"
    unfolding y by linarith+
  then show ?thesis unfolding year_start_def using y by (fold e_def k_def) simp
qed

lemma year_start_step: "year_start (y + 1) = year_start y + 365 + (if isLeap (y + 1) then 1 else 0)"
proof -
  define p4 p100 p400 where p: "p4 \<longleftrightarrow> (y + 1) mod 4 = 0" "p100 \<longleftrightarrow> (y + 1) mod 100 = 0"
    "p400 \<longleftrightarrow> (y + 1) mod 400 = 0"
  have imp: "p400 \<longrightarrow> p100" "p100 \<longrightarrow> p4"
  proof -
    have "(y + 1) mod 400 mod 100 = (y + 1) mod 100" "(y + 1) mod 100 mod 4 = (y + 1) mod 4"
      by (rule mod_mod_cancel, simp)+
    then show "p400 \<longrightarrow> p100" "p100 \<longrightarrow> p4" unfolding p by (metis mod_0)+
  qed
  have "(y + 1) div 4 = y div 4 + (if p4 then 1 else 0)" "(y + 1) div 100 = y div 100 + (if p100 then 1 else 0)"
    "(y + 1) div 400 = y div 400 + (if p400 then 1 else 0)"
    unfolding p by (rule div_step, simp)+
  moreover have "isLeap (y + 1) \<longleftrightarrow> p4 \<and> (\<not> p100 \<or> p400)" by (simp only: isLeap_def p)
  ultimately show ?thesis
    unfolding year_start_eq using imp by (cases p4; cases p100; cases p400) simp_all
qed

lemma year_start_mono: "y < y' \<Longrightarrow> year_start (y + 1) \<le> year_start y'"
proof (induction y' rule: int_gr_induct)
  case (step i)
  then show ?case using year_start_step [of i] by (auto split: if_splits)
qed simp

lemma days_of_split:
  assumes "1 \<le> m" "m \<le> 12" "1 \<le> d" "d \<le> daysIn y m"
  obtains doy where "days_of y m d = year_start (if m \<le> 2 then y - 1 else y) + doy - 306"
    "0 \<le> doy" "doy \<le> 364 + (if isLeap ((if m \<le> 2 then y - 1 else y) + 1) then 1 else 0)"
    "m \<le> 2 \<longleftrightarrow> 306 \<le> doy"
proof -
  let ?mp = "if m > 2 then m - 3 else m + 9"
  have "m = 1 \<or> m = 2 \<or> m = 3 \<or> m = 4 \<or> m = 5 \<or> m = 6 \<or> m = 7 \<or> m = 8 \<or> m = 9 \<or> m = 10 \<or> m = 11 \<or> m = 12"
    using assms(1,2) by presburger
  then have "0 \<le> month_start ?mp + d - 1 \<and>
      month_start ?mp + d - 1 \<le> 364 + (if isLeap ((if m \<le> 2 then y - 1 else y) + 1) then 1 else 0) \<and>
      (m \<le> 2 \<longleftrightarrow> 306 \<le> month_start ?mp + d - 1)"
    using assms(3,4) by (elim disjE) (auto simp: month_start_def daysIn_def)
  then show thesis
    by (intro that [of "month_start ?mp + d - 1"]) (auto simp: days_of_def year_start_def Let_def)
qed

lemma days_of_year:
  assumes "1 \<le> m" "m \<le> 12" "1 \<le> d" "d \<le> daysIn y m"
    and "1 \<le> m'" "m' \<le> 12" "1 \<le> d'" "d' \<le> daysIn y' m'"
    and eq: "days_of y m d = days_of y' m' d'"
  shows "y = y'"
proof -
  define Y where "Y = (if m \<le> 2 then y - 1 else y)"
  define Y' where "Y' = (if m' \<le> 2 then y' - 1 else y')"
  obtain a where a: "days_of y m d = year_start Y + a - 306" "0 \<le> a"
    "a \<le> 364 + (if isLeap (Y + 1) then 1 else 0)" "m \<le> 2 \<longleftrightarrow> 306 \<le> a"
    using days_of_split [OF assms(1-4)] unfolding Y_def by metis
  obtain b where b: "days_of y' m' d' = year_start Y' + b - 306" "0 \<le> b"
    "b \<le> 364 + (if isLeap (Y' + 1) then 1 else 0)" "m' \<le> 2 \<longleftrightarrow> 306 \<le> b"
    using days_of_split [OF assms(5-8)] unfolding Y'_def by metis
  have s: "year_start Y + a < year_start (Y + 1)" "year_start Y' + b < year_start (Y' + 1)"
    using a(3) b(3) year_start_step [of Y] year_start_step [of Y'] by linarith+
  have "\<not> Y < Y'" "\<not> Y' < Y"
    using year_start_mono [of Y Y'] year_start_mono [of Y' Y] a(1,2) b(1,2) s eq by linarith+
  then have "Y = Y'" by simp
  moreover from this have "a = b" using a(1) b(1) eq by simp
  ultimately show ?thesis using a(4) b(4) unfolding Y_def Y'_def by (auto split: if_splits)
qed

lemma timeYear_date:
  assumes "1 \<le> m" "m \<le> 12" "1 \<le> d" "d \<le> daysIn y m" "0 \<le> ns" "ns < nanosPerDay"
  shows "timeYear (days_of y m d * nanosPerDay + ns) = y"
proof -
  have "(days_of y m d * nanosPerDay + ns) div nanosPerDay = days_of y m d"
    using assms(5,6) by (simp add: nanosPerDay_def)
  moreover obtain y' m' d' where c: "civil (days_of y m d) = (y', m', d')" by (metis prod_cases3)
  moreover have "y = y'"
    using civil_valid [OF c] by (intro days_of_year [OF assms(1-4)]) auto
  ultimately show ?thesis by (simp add: timeYear_def)
qed

end
