(* ===== verification/Json.thy ===== *)
theory Json
  imports WT_Prelude
begin

text \<open>
  The part of Go's \<open>encoding/json\<close> that the program reads and writes its documents with. Text
  is a byte string. \<open>parseValue\<close> is one value of a \<open>Decoder\<close>'s input and the text behind
  it, \<open>render\<close> the compact output of \<open>Marshal\<close> with its escaping of HTML characters and of
  invalid UTF-8, and \<open>decodeStruct\<close> the typed decoding of an object into a struct: names
  match a field exactly or, failing that, up to case folding; \<open>null\<close> leaves a field as it
  is; a later member overrides an earlier one. The last part is \<open>internal/strictjson\<close>, the
  preflight over \<open>Decoder.Token\<close> that rejects duplicate member names.
\<close>

datatype json =
    JNull
  | JBool bool
  | JNum string
  | JStr string
  | JArr "json list"
  | JObj "(string \<times> json) list"

section \<open>Runes\<close>

definition inRange :: "nat \<Rightarrow> nat \<Rightarrow> char \<Rightarrow> bool" where
  "inRange lo hi c \<longleftrightarrow> lo \<le> of_char c \<and> of_char c \<le> (hi :: nat)"

definition isCont :: "char \<Rightarrow> bool" where
  "isCont = inRange 0x80 0xBF"

text \<open>The length of the valid UTF-8 sequence at the head of a string, 0 if there is none.\<close>

fun multiLen :: "string \<Rightarrow> nat" where
  "multiLen (a # b # s) =
     (if inRange 0xC2 0xDF a then (if isCont b then 2 else 0)
      else if inRange 0xE0 0xEF a
      then (if inRange (if of_char a = (0xE0 :: nat) then 0xA0 else 0x80)
                 (if of_char a = (0xED :: nat) then 0x9F else 0xBF) b
            then (case s of c # _ \<Rightarrow> if isCont c then 3 else 0 | [] \<Rightarrow> 0) else 0)
      else if inRange 0xF0 0xF4 a
      then (if inRange (if of_char a = (0xF0 :: nat) then 0x90 else 0x80)
                 (if of_char a = (0xF4 :: nat) then 0x8F else 0xBF) b
            then (case s of c # d # _ \<Rightarrow> if isCont c \<and> isCont d then 4 else 0 | _ \<Rightarrow> 0) else 0)
      else 0)"
| "multiLen _ = 0"

definition ascii :: "char \<Rightarrow> bool" where
  "ascii c \<longleftrightarrow> of_char c < (0x80 :: nat)"

definition runeError :: string where
  "runeError = [char_of (0xEF :: nat), char_of (0xBF :: nat), char_of (0xBD :: nat)]"

definition encodeRune :: "nat \<Rightarrow> string" where
  "encodeRune r =
     (if r < 0x80 then [char_of r]
      else if r < 0x800 then [char_of (0xC0 + r div 64), char_of (0x80 + r mod 64)]
      else if 0xD800 \<le> r \<and> r < 0xE000 \<or> 0x10FFFF < r then runeError
      else if r < 0x10000
      then [char_of (0xE0 + r div 4096), char_of (0x80 + r div 64 mod 64), char_of (0x80 + r mod 64)]
      else [char_of (0xF0 + r div 262144), char_of (0x80 + r div 4096 mod 64),
            char_of (0x80 + r div 64 mod 64), char_of (0x80 + r mod 64)])"

function validUTF8 :: "string \<Rightarrow> bool" where
  "validUTF8 [] = True"
| "validUTF8 (c # s) =
     (if ascii c then validUTF8 s
      else multiLen (c # s) \<noteq> 0 \<and> validUTF8 (drop (multiLen (c # s) - 1) s))"
  by pat_completeness auto
termination by (relation "measure length") auto

section \<open>Strings\<close>

definition hexDigit :: "nat \<Rightarrow> char" where
  "hexDigit n = ''0123456789abcdef'' ! n"

definition hexValue :: "char \<Rightarrow> nat option" where
  "hexValue c =
     (let n = of_char c :: nat in
      if 48 \<le> n \<and> n \<le> 57 then Some (n - 48)
      else if 97 \<le> n \<and> n \<le> 102 then Some (n - 87)
      else if 65 \<le> n \<and> n \<le> 70 then Some (n - 55) else None)"

definition htmlSafe :: "char \<Rightarrow> bool" where
  "htmlSafe c \<longleftrightarrow> (0x20 :: nat) \<le> of_char c \<and> c \<notin> set [CHR 0x22, CHR 0x5C, CHR ''<'', CHR ''>'', CHR ''&'']"

definition escapeByte :: "char \<Rightarrow> string" where
  "escapeByte b =
     (if htmlSafe b then [b]
      else if b = CHR 0x5C \<or> b = CHR 0x22 then [CHR 0x5C, b]
      else if b = CHR 0x08 then [CHR 0x5C, CHR ''b'']
      else if b = CHR 0x0C then [CHR 0x5C, CHR ''f'']
      else if b = CHR 0x0A then [CHR 0x5C, CHR ''n'']
      else if b = CHR 0x0D then [CHR 0x5C, CHR ''r'']
      else if b = CHR 0x09 then [CHR 0x5C, CHR ''t'']
      else [CHR 0x5C, CHR ''u'', CHR ''0'', CHR ''0'', hexDigit (of_char b div 16), hexDigit (of_char b mod 16)])"

definition lineSep :: "string \<Rightarrow> bool" where
  "lineSep s \<longleftrightarrow>
     take 3 s = [CHR 0xE2, CHR 0x80, CHR 0xA8] \<or> take 3 s = [CHR 0xE2, CHR 0x80, CHR 0xA9]"

function escape :: "string \<Rightarrow> string" where
  "escape [] = []"
| "escape (c # s) =
     (if ascii c then escapeByte c @ escape s
      else let n = multiLen (c # s) in
        if n = 0 then CHR 0x5C # ''ufffd'' @ escape s
        else if lineSep (c # s)
        then CHR 0x5C # ''u202'' @ [hexDigit (of_char (s ! 1) mod 16)] @ escape (drop (n - 1) s)
        else take n (c # s) @ escape (drop (n - 1) s))"
  by pat_completeness auto
termination by (relation "measure length") auto

definition quote :: "string \<Rightarrow> string" where
  "quote s = CHR 0x22 # escape s @ [CHR 0x22]"

text \<open>The scanner's pass over a string literal, after the opening quote.\<close>

fun lexString :: "string \<Rightarrow> (string \<times> string) option" where
  "lexString [] = None"
| "lexString (c # s) =
     (if c = CHR 0x22 then Some ([], s)
      else if c = CHR 0x5C
      then (case s of
          [] \<Rightarrow> None
        | e # t \<Rightarrow>
            if e \<in> set (CHR 0x22 # CHR 0x5C # ''/bfnrt'')
            then map_option (\<lambda>(r, u). (c # e # r, u)) (lexString t)
            else if e = CHR ''u''
            then (case t of
                h1 # h2 # h3 # h4 # u \<Rightarrow>
                  if list_all (\<lambda>h. hexValue h \<noteq> None) [h1, h2, h3, h4]
                  then map_option (\<lambda>(r, v). (c # e # h1 # h2 # h3 # h4 # r, v)) (lexString u)
                  else None
              | _ \<Rightarrow> None)
            else None)
      else if of_char c < (0x20 :: nat) then None
      else map_option (\<lambda>(r, t). (c # r, t)) (lexString s))"

definition getu4 :: "string \<Rightarrow> nat option" where
  "getu4 s =
     (case s of
        b # u # h1 # h2 # h3 # h4 # _ \<Rightarrow>
          if b = CHR 0x5C \<and> u = CHR ''u''
          then (case map hexValue [h1, h2, h3, h4] of
                  [Some a, Some b, Some c, Some d] \<Rightarrow> Some (((a * 16 + b) * 16 + c) * 16 + d)
                | _ \<Rightarrow> None)
          else None
      | _ \<Rightarrow> None)"

definition surrogatePair :: "nat \<Rightarrow> nat \<Rightarrow> nat option" where
  "surrogatePair r1 r2 =
     (if 0xD800 \<le> r1 \<and> r1 < 0xDC00 \<and> 0xDC00 \<le> r2 \<and> r2 < 0xE000
      then Some ((r1 - 0xD800) * 1024 + (r2 - 0xDC00) + 0x10000) else None)"

definition unescapeLetter :: "char \<Rightarrow> char" where
  "unescapeLetter e =
     (if e = CHR ''b'' then CHR 0x08 else if e = CHR ''f'' then CHR 0x0C
      else if e = CHR ''n'' then CHR 0x0A else if e = CHR ''r'' then CHR 0x0D
      else if e = CHR ''t'' then CHR 0x09 else e)"

function unquote :: "string \<Rightarrow> string" where
  "unquote [] = []"
| "unquote (c # s) =
     (if c = CHR 0x5C
      then (case getu4 (c # s) of
          Some r \<Rightarrow>
            if 0xD800 \<le> r \<and> r < 0xE000
            then (case Option.bind (getu4 (drop 5 s)) (surrogatePair r) of
                    Some p \<Rightarrow> encodeRune p @ unquote (drop 11 s)
                  | None \<Rightarrow> runeError @ unquote (drop 5 s))
            else encodeRune r @ unquote (drop 5 s)
        | None \<Rightarrow> (case s of [] \<Rightarrow> [] | e # t \<Rightarrow> unescapeLetter e # unquote t))
      else if ascii c then c # unquote s
      else let n = multiLen (c # s) in
        if n = 0 then runeError @ unquote s
        else take n (c # s) @ unquote (drop (n - 1) s))"
  by pat_completeness auto
termination by (relation "measure length") auto

section \<open>Numbers and values\<close>

definition isSpace :: "char \<Rightarrow> bool" where
  "isSpace c \<longleftrightarrow> c \<in> set [CHR 0x20, CHR 0x09, CHR 0x0D, CHR 0x0A]"

definition skipSpace :: "string \<Rightarrow> string" where
  "skipSpace = dropWhile isSpace"

text \<open>Digits, at least one.\<close>

definition lexDigits :: "string \<Rightarrow> (string \<times> string) option" where
  "lexDigits s =
     (if takeWhile isDigit s = [] then None else Some (takeWhile isDigit s, dropWhile isDigit s))"

definition lexFrac :: "string \<Rightarrow> (string \<times> string) option" where
  "lexFrac s =
     (case s of
        c # t \<Rightarrow> if c = CHR ''.'' then map_option (\<lambda>(d, r). (c # d, r)) (lexDigits t) else Some ([], s)
      | [] \<Rightarrow> Some ([], s))"

definition lexExp :: "string \<Rightarrow> (string \<times> string) option" where
  "lexExp s =
     (case s of
        c # t \<Rightarrow>
          if c = CHR ''e'' \<or> c = CHR ''E''
          then (case t of
                  sg # u \<Rightarrow>
                    if sg = CHR ''+'' \<or> sg = CHR ''-''
                    then map_option (\<lambda>(d, r). (c # sg # d, r)) (lexDigits u)
                    else map_option (\<lambda>(d, r). (c # d, r)) (lexDigits t)
                | [] \<Rightarrow> None)
          else Some ([], s)
      | [] \<Rightarrow> Some ([], s))"

definition lexInt :: "string \<Rightarrow> (string \<times> string) option" where
  "lexInt s =
     (case s of
        c # t \<Rightarrow> if c = CHR ''0'' then Some ([c], t) else lexDigits s
      | [] \<Rightarrow> None)"

definition lexNumber :: "string \<Rightarrow> (string \<times> string) option" where
  "lexNumber s =
     (let (sign, t) = (case s of c # t \<Rightarrow> if c = CHR ''-'' then ([c], t) else ([], s) | [] \<Rightarrow> ([], s)) in
      case lexInt t of None \<Rightarrow> None | Some (i, u) \<Rightarrow>
      case lexFrac u of None \<Rightarrow> None | Some (f, v) \<Rightarrow>
      case lexExp v of None \<Rightarrow> None | Some (e, w) \<Rightarrow> Some (sign @ i @ f @ e, w))"

definition lexLiteral :: "string \<Rightarrow> (json \<times> string) option" where
  "lexLiteral s =
     (if take 4 s = ''null'' then Some (JNull, drop 4 s)
      else if take 4 s = ''true'' then Some (JBool True, drop 4 s)
      else if take 5 s = ''false'' then Some (JBool False, drop 5 s)
      else map_option (\<lambda>(n, r). (JNum n, r)) (lexNumber s))"

definition lexScalar :: "string \<Rightarrow> (json \<times> string) option" where
  "lexScalar s =
     (case s of
        c # t \<Rightarrow> if c = CHR 0x22 then map_option (\<lambda>(r, u). (JStr (unquote r), u)) (lexString t)
                else lexLiteral s
      | [] \<Rightarrow> None)"

text \<open>
  \<open>parseValue\<close> reads one value. The length comparisons always hold (\<open>parseValue_shorter\<close>);
  they are there for termination. The scanner's nesting limit of 10000 is not modelled.
\<close>

definition parseKey :: "string \<Rightarrow> (string \<times> string) option" where
  "parseKey s =
     (case skipSpace s of
        c # t \<Rightarrow> if c = CHR 0x22 then map_option (\<lambda>(r, u). (unquote r, u)) (lexString t) else None
      | [] \<Rightarrow> None)"

lemma skipSpace_length: "length (skipSpace s) \<le> length s"
  by (simp add: skipSpace_def length_dropWhile_le)

lemma skipSpace_Cons_less: "skipSpace s = c # t \<Longrightarrow> length t < length s"
  using skipSpace_length [of s] by simp

function (sequential) parseValue :: "string \<Rightarrow> (json \<times> string) option"
  and parseElems :: "string \<Rightarrow> (json list \<times> string) option"
  and parseMembers :: "string \<Rightarrow> ((string \<times> json) list \<times> string) option"
where
  "parseValue s =
     (case skipSpace s of
        [] \<Rightarrow> None
      | c # t \<Rightarrow>
          if c = CHR ''{'' then
            (case skipSpace t of
               [] \<Rightarrow> None
             | d # u \<Rightarrow> if d = CHR ''}'' then Some (JObj [], u)
                        else map_option (\<lambda>(ms, r). (JObj ms, r)) (parseMembers t))
          else if c = CHR ''['' then
            (case skipSpace t of
               [] \<Rightarrow> None
             | d # u \<Rightarrow> if d = CHR '']'' then Some (JArr [], u)
                        else map_option (\<lambda>(vs, r). (JArr vs, r)) (parseElems t))
          else lexScalar (c # t))"
| "parseElems s =
     (case parseValue s of
        None \<Rightarrow> None
      | Some (v, t) \<Rightarrow>
          (case skipSpace t of
             [] \<Rightarrow> None
           | d # u \<Rightarrow>
               if d = CHR '']'' then Some ([v], u)
               else if d = CHR '','' \<and> length u < length s
               then map_option (\<lambda>(vs, r). (v # vs, r)) (parseElems u)
               else None))"
| "parseMembers s =
     (case parseKey s of
        None \<Rightarrow> None
      | Some (k, t) \<Rightarrow>
          (case skipSpace t of
             [] \<Rightarrow> None
           | d # u \<Rightarrow>
               if d = CHR '':'' \<and> length u < length s
               then (case parseValue u of
                       None \<Rightarrow> None
                     | Some (v, w) \<Rightarrow>
                         (case skipSpace w of
                            [] \<Rightarrow> None
                          | e # x \<Rightarrow>
                              if e = CHR ''}'' then Some ([(k, v)], x)
                              else if e = CHR '','' \<and> length x < length s
                              then map_option (\<lambda>(ms, r). ((k, v) # ms, r)) (parseMembers x)
                              else None))
               else None))"
  by pat_completeness auto
termination
  by (relation "inv_image (less_than <*lex*> less_than)
        (\<lambda>x. case x of Inl s \<Rightarrow> (length s, 0) | Inr (Inl s) \<Rightarrow> (length s, 1)
                 | Inr (Inr s) \<Rightarrow> (length s, 1 :: nat))")
    (auto dest: skipSpace_Cons_less)

declare parseValue.simps [simp del] parseElems.simps [simp del] parseMembers.simps [simp del]

fun render :: "json \<Rightarrow> string"
  and renderElems :: "json list \<Rightarrow> string"
  and renderMembers :: "(string \<times> json) list \<Rightarrow> string"
where
  "render JNull = ''null''"
| "render (JBool b) = (if b then ''true'' else ''false'')"
| "render (JNum n) = n"
| "render (JStr s) = quote s"
| "render (JArr vs) = ''['' @ renderElems vs @ '']''"
| "render (JObj ms) = ''{'' @ renderMembers ms @ ''}''"
| "renderElems [] = []"
| "renderElems (v # vs) = render v @ (if vs = [] then [] else CHR '','' # renderElems vs)"
| "renderMembers [] = []"
| "renderMembers (m # ms) =
     quote (fst m) @ CHR '':'' # render (snd m) @ (if ms = [] then [] else CHR '','' # renderMembers ms)"

definition showInt :: "int \<Rightarrow> string" where
  "showInt i = (if i < 0 then CHR ''-'' # showNat (nat (- i)) else showNat (nat i))"

section \<open>Strings read back\<close>

definition lead :: "string \<Rightarrow> (string \<times> string) option \<Rightarrow> (string \<times> string) option" where
  "lead p r = map_option (\<lambda>(a, b). (p @ a, b)) r"

lemma lead_lead [simp]: "lead p (lead q r) = lead (p @ q) r"
  by (cases r) (auto simp: lead_def)

lemma lead_Some [simp]: "lead p (Some (a, b)) = Some (p @ a, b)"
  by (simp add: lead_def)

lemma hexValue_hexDigit [simp]: "n < 16 \<Longrightarrow> hexValue (hexDigit n) = Some n"
proof -
  have "\<forall>n \<in> set [0 ..< 16]. hexValue (hexDigit n) = Some n" by code_simp
  then show "n < 16 \<Longrightarrow> hexValue (hexDigit n) = Some n" by simp
qed

lemma lexString_plain:
  "c \<noteq> CHR 0x22 \<Longrightarrow> c \<noteq> CHR 0x5C \<Longrightarrow> (0x20 :: nat) \<le> of_char c \<Longrightarrow>
   lexString (c # s) = lead [c] (lexString s)"
  by (simp add: lead_def)

lemma lexString_letter:
  "e \<in> set (CHR 0x22 # CHR 0x5C # ''/bfnrt'') \<Longrightarrow>
   lexString (CHR 0x5C # e # s) = lead [CHR 0x5C, e] (lexString s)"
  by (simp add: lead_def)

lemma lexString_u:
  "hexValue a \<noteq> None \<Longrightarrow> hexValue b \<noteq> None \<Longrightarrow> hexValue c \<noteq> None \<Longrightarrow> hexValue d \<noteq> None \<Longrightarrow>
   lexString (CHR 0x5C # CHR ''u'' # a # b # c # d # s) =
   lead [CHR 0x5C, CHR ''u'', a, b, c, d] (lexString s)"
  by (simp add: lead_def)

lemma lexString_quote [simp]: "lexString (CHR 0x22 # s) = Some ([], s)"
  by simp

declare lexString.simps(2) [simp del]

lemma hexValue_const [simp]:
  "hexValue CHR ''0'' = Some 0" "hexValue CHR ''2'' = Some 2"
  "hexValue CHR ''f'' = Some 15" "hexValue CHR ''d'' = Some 13"
  by code_simp+

lemma escapeByte_cases:
  obtains "htmlSafe b" "escapeByte b = [b]"
  | e where "\<not> htmlSafe b" "e \<in> set (CHR 0x22 # CHR 0x5C # ''/bfnrt'')" "unescapeLetter e = b"
      "escapeByte b = [CHR 0x5C, e]"
  | "\<not> htmlSafe b" "escapeByte b = [CHR 0x5C, CHR ''u'', CHR ''0'', CHR ''0'',
      hexDigit (of_char b div 16), hexDigit (of_char b mod 16)]"
proof -
  consider "htmlSafe b" | "\<not> htmlSafe b" "b = CHR 0x5C" | "\<not> htmlSafe b" "b = CHR 0x22"
    | "\<not> htmlSafe b" "b = CHR 0x08" | "\<not> htmlSafe b" "b = CHR 0x0C" | "\<not> htmlSafe b" "b = CHR 0x0A"
    | "\<not> htmlSafe b" "b = CHR 0x0D" | "\<not> htmlSafe b" "b = CHR 0x09"
    | "\<not> htmlSafe b" "b \<noteq> CHR 0x5C" "b \<noteq> CHR 0x22" "b \<noteq> CHR 0x08" "b \<noteq> CHR 0x0C"
      "b \<noteq> CHR 0x0A" "b \<noteq> CHR 0x0D" "b \<noteq> CHR 0x09"
    by blast
  then show ?thesis
  proof cases
    case 2 then show ?thesis by (intro that(2) [of "CHR 0x5C"]) (simp_all add: escapeByte_def unescapeLetter_def)
  next
    case 3 then show ?thesis by (intro that(2) [of "CHR 0x22"]) (simp_all add: escapeByte_def unescapeLetter_def)
  next
    case 4 then show ?thesis by (intro that(2) [of "CHR ''b''"]) (simp_all add: escapeByte_def unescapeLetter_def)
  next
    case 5 then show ?thesis by (intro that(2) [of "CHR ''f''"]) (simp_all add: escapeByte_def unescapeLetter_def)
  next
    case 6 then show ?thesis by (intro that(2) [of "CHR ''n''"]) (simp_all add: escapeByte_def unescapeLetter_def)
  next
    case 7 then show ?thesis by (intro that(2) [of "CHR ''r''"]) (simp_all add: escapeByte_def unescapeLetter_def)
  next
    case 8 then show ?thesis by (intro that(2) [of "CHR ''t''"]) (simp_all add: escapeByte_def unescapeLetter_def)
  qed (simp_all add: escapeByte_def that)
qed

lemma lexString_escapeByte:
  assumes "ascii b" shows "lexString (escapeByte b @ s) = lead (escapeByte b) (lexString s)"
proof (cases b rule: escapeByte_cases)
  case 1
  then show ?thesis by (simp add: htmlSafe_def lexString_plain)
next
  case (2 e)
  then show ?thesis by (simp only: append.simps lexString_letter)
next
  case 3
  moreover have "of_char b div 16 < (16 :: nat)" "of_char b mod 16 < (16 :: nat)"
    using assms by (simp_all add: ascii_def)
  ultimately show ?thesis by (simp add: lexString_u)
qed

lemma inRange_ascii: "inRange lo hi c \<Longrightarrow> 0x80 \<le> lo \<Longrightarrow> \<not> ascii c"
  by (simp add: inRange_def ascii_def)

lemma isCont_ascii: "isCont c \<Longrightarrow> \<not> ascii c"
  unfolding isCont_def by (erule inRange_ascii) simp

lemma multiLen_high:
  "multiLen s \<noteq> 0 \<Longrightarrow> multiLen s \<le> length s \<and> list_all (\<lambda>c. \<not> ascii c) (take (multiLen s) s)"
  by (induction s rule: multiLen.induct)
    (auto split: if_splits list.splits dest: isCont_ascii inRange_ascii)

lemma multiLen_take:
  "multiLen s \<noteq> 0 \<Longrightarrow> multiLen (take (multiLen s) s @ t) = multiLen s"
  by (induction s rule: multiLen.induct) (auto split: if_splits list.splits)

declare multiLen.simps [simp del]

lemma lexString_high:
  "list_all (\<lambda>c. \<not> ascii c) p \<Longrightarrow> lexString (p @ s) = lead p (lexString s)"
proof (induction p)
  case Nil
  then show ?case by (cases "lexString s") (auto simp: lead_def)
next
  case (Cons c p)
  then have "lexString (c # p @ s) = lead [c] (lexString (p @ s))"
    by (intro lexString_plain) (auto simp: ascii_def)
  with Cons show ?case by simp
qed

lemma take_drop_multi:
  "multiLen (c # s) \<noteq> 0 \<Longrightarrow> take (multiLen (c # s)) (c # s) @ drop (multiLen (c # s) - 1) s = c # s"
  by (cases "multiLen (c # s)") simp_all

lemma lexString_escape: "lexString (escape s @ CHR 0x22 # t) = Some (escape s, t)"
proof (induction s rule: escape.induct)
  case (2 c s)
  show ?case
  proof (cases "ascii c")
    case True
    with 2(1) show ?thesis by (simp add: lexString_escapeByte)
  next
    case nascii: False
    let ?n = "multiLen (c # s)"
    show ?thesis
    proof (cases "?n = 0")
      case True
      with 2(2) nascii show ?thesis by (simp add: lexString_u)
    next
      case False
      note IH = 2(3,4) [OF nascii refl False]
      show ?thesis
      proof (cases "lineSep (c # s)")
        case True
        have e: "escape (c # s) = CHR 0x5C # ''u202'' @ [hexDigit (of_char (s ! 1) mod 16)] @
            escape (drop (?n - 1) s)"
          using True nascii False by (simp add: Let_def)
        show ?thesis unfolding e using IH(1) [OF True] by (simp add: lexString_u)
      next
        case sep: False
        have e: "escape (c # s) = take ?n (c # s) @ escape (drop (?n - 1) s)"
          using sep nascii False by (simp add: Let_def)
        have "lexString (take ?n (c # s) @ escape (drop (?n - 1) s) @ CHR 0x22 # t) =
            lead (take ?n (c # s)) (lexString (escape (drop (?n - 1) s) @ CHR 0x22 # t))"
          by (intro lexString_high conjunct2 [OF multiLen_high [OF False]])
        then show ?thesis unfolding e append_assoc IH(2) [OF sep] by simp
      qed
    qed
  qed
qed simp

lemma getu4_None:
  "s = [] \<or> hd s \<noteq> CHR ''u'' \<Longrightarrow> getu4 (b # s) = None"
  by (auto simp: getu4_def split: list.splits)

lemma getu4_00:
  "ascii b \<Longrightarrow> getu4 (CHR 0x5C # CHR ''u'' # CHR ''0'' # CHR ''0'' #
     hexDigit (of_char b div 16) # hexDigit (of_char b mod 16) # s) = Some (of_char b)"
  by (simp add: getu4_def ascii_def)

lemma unquote_escapeByte:
  assumes "ascii b" shows "unquote (escapeByte b @ s) = b # unquote s"
proof (cases b rule: escapeByte_cases)
  case 1
  with assms show ?thesis by (auto simp: htmlSafe_def)
next
  case (2 e)
  then have "e \<noteq> CHR ''u''" by auto
  then have "getu4 (CHR 0x5C # e # s) = None" by (simp add: getu4_None)
  with 2 show ?thesis by simp
next
  case 3
  have "of_char b < (55296 :: nat)" using assms by (simp add: ascii_def)
  then have "unquote (CHR 0x5C # CHR ''u'' # CHR ''0'' # CHR ''0'' #
      hexDigit (of_char b div 16) # hexDigit (of_char b mod 16) # s) = encodeRune (of_char b) @ unquote s"
    using assms by (simp add: getu4_00)
  with 3 assms show ?thesis by (simp add: encodeRune_def ascii_def del: unquote.simps)
qed

lemma unquote_multi:
  assumes "\<not> ascii c" "multiLen (c # s) \<noteq> 0"
  shows "unquote (take (multiLen (c # s)) (c # s) @ t) = take (multiLen (c # s)) (c # s) @ unquote t"
proof -
  let ?n = "multiLen (c # s)"
  from assms(2) obtain m where m: "?n = Suc m" by (cases ?n) auto
  have len: "m \<le> length s" using multiLen_high [OF assms(2)] m by simp
  have "multiLen (c # take m s @ t) = Suc m" using multiLen_take [OF assms(2), of t] m by simp
  moreover have "c \<noteq> CHR 0x5C" using assms(1) by (auto simp: ascii_def)
  ultimately show ?thesis using assms(1) m len by (simp add: Let_def)
qed

lemma lineSep_cases:
  "lineSep (c # s) \<Longrightarrow> \<exists>d t. c = CHR 0xE2 \<and> s = CHR 0x80 # d # t \<and> (d = CHR 0xA8 \<or> d = CHR 0xA9)"
  by (cases s; cases "tl s") (auto simp: lineSep_def take_Cons')

lemma unquote_lineSep:
  "unquote (CHR 0x5C # ''u202'' @ [hexDigit 8] @ t) = [CHR 0xE2, CHR 0x80, CHR 0xA8] @ unquote t"
  "unquote (CHR 0x5C # ''u202'' @ [hexDigit 9] @ t) = [CHR 0xE2, CHR 0x80, CHR 0xA9] @ unquote t"
proof -
  have r: "encodeRune 8232 = [CHR 0xE2, CHR 0x80, CHR 0xA8]"
    "encodeRune 8233 = [CHR 0xE2, CHR 0x80, CHR 0xA9]"
    by code_simp+
  show "unquote (CHR 0x5C # ''u202'' @ [hexDigit 8] @ t) = [CHR 0xE2, CHR 0x80, CHR 0xA8] @ unquote t"
    "unquote (CHR 0x5C # ''u202'' @ [hexDigit 9] @ t) = [CHR 0xE2, CHR 0x80, CHR 0xA9] @ unquote t"
    by (simp_all add: getu4_def r)
qed

declare unquote.simps(2) [simp del]

lemma unquote_escape: "validUTF8 s \<Longrightarrow> unquote (escape s) = s"
proof (induction s rule: escape.induct)
  case (2 c s)
  show ?case
  proof (cases "ascii c")
    case True
    with 2 show ?thesis by (simp add: unquote_escapeByte)
  next
    case nascii: False
    let ?n = "multiLen (c # s)"
    from 2(5) nascii have n0: "?n \<noteq> 0" and v: "validUTF8 (drop (?n - 1) s)"
      by (simp_all)
    note IH = 2(3,4) [OF nascii refl n0]
    show ?thesis
    proof (cases "lineSep (c # s)")
      case True
      obtain d t where cs: "c = CHR 0xE2" "s = CHR 0x80 # d # t" "d = CHR 0xA8 \<or> d = CHR 0xA9"
        using lineSep_cases [OF True] by blast
      have "multiLen [CHR 0xE2, CHR 0x80, CHR 0xA8] = 3" "multiLen [CHR 0xE2, CHR 0x80, CHR 0xA9] = 3"
        by code_simp+
      then have n3: "?n = 3" using cs by (auto simp: multiLen.simps isCont_def inRange_def)
      have e: "escape (c # s) = CHR 0x5C # ''u202'' @ [hexDigit (of_char d mod 16)] @ escape (drop 2 s)"
        using True nascii n3 cs(2) by (simp add: Let_def)
      have "of_char d mod 16 = (8 :: nat) \<and> d = CHR 0xA8 \<or> of_char d mod 16 = (9 :: nat) \<and> d = CHR 0xA9"
        using cs(3) by auto
      then have "unquote (escape (c # s)) = take 3 (c # s) @ unquote (escape (drop 2 s))"
        unfolding e by (elim disjE conjE) (simp_all only: unquote_lineSep, simp_all add: cs)
      also have "unquote (escape (drop 2 s)) = drop 2 s" using IH(1) [OF True v] n3 by simp
      also have "take 3 (c # s) @ drop 2 s = c # s" by (simp add: cs)
      finally show ?thesis .
    next
      case sep: False
      have e: "escape (c # s) = take ?n (c # s) @ escape (drop (?n - 1) s)"
        using sep nascii n0 by (simp add: Let_def)
      have "unquote (escape (c # s)) = take ?n (c # s) @ unquote (escape (drop (?n - 1) s))"
        unfolding e by (rule unquote_multi [OF nascii n0])
      also have "\<dots> = c # s" unfolding IH(2) [OF sep v] by (rule take_drop_multi [OF n0])
      finally show ?thesis .
    qed
  qed
qed simp

lemma lexString_quoted:
  "validUTF8 s \<Longrightarrow> map_option (\<lambda>(r, u). (f (unquote r), u)) (lexString (escape s @ CHR 0x22 # t)) = Some (f s, t)"
  by (simp add: lexString_escape unquote_escape)

lemma validUTF8_ascii: "list_all ascii s \<Longrightarrow> validUTF8 s"
  by (induction s) auto

section \<open>Values read back\<close>

text \<open>What may follow a number.\<close>

definition number_end :: "string \<Rightarrow> bool" where
  "number_end s \<longleftrightarrow> s = [] \<or> \<not> isDigit (hd s) \<and> hd s \<notin> set ''.eE''"

lemma number_end_Cons [simp]:
  "number_end (CHR '','' # s)" "number_end (CHR '']'' # s)" "number_end (CHR ''}'' # s)"
  "number_end (CHR 0x0A # s)" "number_end []"
  by (simp_all add: number_end_def isDigit_iff)

lemma lexInt_showNat:
  assumes "number_end rest" shows "lexInt (showNat n @ rest) = Some (showNat n, rest)"
proof (cases "n = 0")
  case True
  then show ?thesis by (simp add: lexInt_def)
next
  case False
  obtain c t where ct: "showNat n = c # t" by (cases "showNat n") auto
  then have "c \<noteq> CHR ''0''" using showNat_leading [of n] False by auto
  moreover have d: "list_all isDigit (c # t)" using showNat_digits [of n] ct by simp
  moreover have tw: "takeWhile isDigit (c # t @ rest) = c # t" "dropWhile isDigit (c # t @ rest) = rest"
    using d assms by (cases rest; auto simp: takeWhile_append dropWhile_append number_end_def list_all_iff)+
  ultimately show ?thesis using ct by (simp add: lexInt_def lexDigits_def del: takeWhile.simps dropWhile.simps)
qed

lemma lexNumber_showInt:
  assumes "number_end rest" shows "lexNumber (showInt i @ rest) = Some (showInt i, rest)"
proof -
  have fe: "lexFrac rest = Some ([], rest)" "lexExp rest = Some ([], rest)"
    using assms by (auto simp: number_end_def lexFrac_def lexExp_def split: list.splits)
  obtain c t where ct: "showNat (nat i) = c # t" by (cases "showNat (nat i)") auto
  have "c \<noteq> CHR ''-''" using showNat_digits [of "nat i"] ct by (auto simp: isDigit_iff)
  then show ?thesis
    using fe lexInt_showNat [OF assms] lexInt_showNat [OF assms, of "nat i"] ct
    by (simp add: lexNumber_def showInt_def)
qed

lemma showInt_Cons: "\<exists>c t. showInt i = c # t \<and> (c = CHR ''-'' \<or> isDigit c)"
  using showNat_digits [of "nat i"] showNat_digits [of "nat (- i)"]
  by (cases "showNat (nat i)"; cases "showNat (nat (- i))") (auto simp: showInt_def)

lemma lexScalar_showInt:
  assumes "number_end rest" shows "lexScalar (showInt i @ rest) = Some (JNum (showInt i), rest)"
proof -
  obtain c t where ct: "showInt i = c # t" "c = CHR ''-'' \<or> isDigit c" using showInt_Cons by blast
  have "c \<noteq> CHR 0x22" "c \<noteq> CHR ''n''" "c \<noteq> CHR ''t''" "c \<noteq> CHR ''f''"
    using ct(2) by (auto simp: isDigit_iff)
  then show ?thesis
    using lexNumber_showInt [OF assms, of i] ct(1) by (simp add: lexScalar_def lexLiteral_def)
qed

fun wf_json :: "json \<Rightarrow> bool" where
  "wf_json JNull = True"
| "wf_json (JBool b) = True"
| "wf_json (JNum n) = (\<exists>i. n = showInt i)"
| "wf_json (JStr s) = validUTF8 s"
| "wf_json (JArr vs) = (\<forall>v \<in> set vs. wf_json v)"
| "wf_json (JObj ms) = (\<forall>m \<in> set ms. validUTF8 (fst m) \<and> wf_json (snd m))"

text \<open>No rendering begins with white space or a closing delimiter.\<close>

lemma isSpace_simps [simp]:
  "\<not> isSpace CHR ''n''" "\<not> isSpace CHR ''t''" "\<not> isSpace CHR ''f''" "\<not> isSpace CHR 0x22"
  "\<not> isSpace CHR ''[''" "\<not> isSpace CHR '']''" "\<not> isSpace CHR ''{''" "\<not> isSpace CHR ''}''"
  "\<not> isSpace CHR '',''" "\<not> isSpace CHR '':''" "\<not> isSpace CHR ''-''" "isDigit c \<Longrightarrow> \<not> isSpace c"
  "isSpace CHR 0x0A"
  by (auto simp: isSpace_def isDigit_iff)

lemma skipSpace_Cons [simp]: "\<not> isSpace c \<Longrightarrow> skipSpace (c # s) = c # s"
  by (simp add: skipSpace_def)

lemma render_head:
  "wf_json v \<Longrightarrow> \<exists>c t. render v = c # t \<and> \<not> isSpace c \<and> c \<noteq> CHR '']'' \<and> c \<noteq> CHR ''}''"
proof (cases v)
  case (JNum n)
  assume "wf_json v"
  with JNum obtain i where "n = showInt i" by auto
  with JNum showInt_Cons [of i] show ?thesis by (auto simp: isDigit_iff)
qed (auto simp: quote_def)

lemma parseValue_scalar:
  "skipSpace s = s \<Longrightarrow> s \<noteq> [] \<Longrightarrow> hd s \<noteq> CHR ''{'' \<Longrightarrow> hd s \<noteq> CHR ''['' \<Longrightarrow> parseValue s = lexScalar s"
  by (cases s) (simp_all add: parseValue.simps)

lemma parseElems_render:
  assumes "\<And>v t. v \<in> set vs \<Longrightarrow> number_end t \<Longrightarrow> parseValue (render v @ t) = Some (v, t)"
    and "vs \<noteq> []"
  shows "parseElems (renderElems vs @ CHR '']'' # rest) = Some (vs, rest)"
  using assms
proof (induction vs)
  case (Cons v vs)
  show ?case
  proof (cases "vs = []")
    case True
    with Cons(2) show ?thesis by (subst parseElems.simps) simp
  next
    case False
    with Cons have IH: "parseElems (renderElems vs @ CHR '']'' # rest) = Some (vs, rest)" by simp
    from False Cons(2) IH show ?thesis by (subst parseElems.simps) simp
  qed
qed simp

lemma parseKey_quote [simp]: "validUTF8 k \<Longrightarrow> parseKey (quote k @ t) = Some (k, t)"
  using lexString_quoted [of k id t] by (simp add: parseKey_def quote_def)

lemma parseMembers_render:
  assumes "\<And>m t. m \<in> set ms \<Longrightarrow> number_end t \<Longrightarrow> parseValue (render (snd m) @ t) = Some (snd m, t)"
    and "\<And>m. m \<in> set ms \<Longrightarrow> validUTF8 (fst m)" and "ms \<noteq> []"
  shows "parseMembers (renderMembers ms @ CHR ''}'' # rest) = Some (ms, rest)"
  using assms
proof (induction ms)
  case (Cons m ms)
  show ?case
  proof (cases "ms = []")
    case True
    with Cons(2,3) show ?thesis by (subst parseMembers.simps) simp
  next
    case False
    with Cons have IH: "parseMembers (renderMembers ms @ CHR ''}'' # rest) = Some (ms, rest)" by simp
    from False Cons(2,3) IH show ?thesis by (subst parseMembers.simps) simp
  qed
qed simp

lemma renderElems_head:
  "vs \<noteq> [] \<Longrightarrow> \<forall>v \<in> set vs. wf_json v \<Longrightarrow>
   \<exists>c t. renderElems vs = c # t \<and> \<not> isSpace c \<and> c \<noteq> CHR '']''"
  using render_head by (cases vs) fastforce+

lemma parseValue_render:
  "wf_json v \<Longrightarrow> number_end rest \<Longrightarrow> parseValue (render v @ rest) = Some (v, rest)"
proof (induction v arbitrary: rest)
  case (JNum n)
  then obtain i where i: "n = showInt i" by auto
  obtain c t where ct: "showInt i = c # t" "c = CHR ''-'' \<or> isDigit c" using showInt_Cons by blast
  then have "\<not> isSpace c" "c \<noteq> CHR ''{''" "c \<noteq> CHR ''[''" by (auto simp: isDigit_iff)
  with i ct lexScalar_showInt [OF JNum(2), of i] show ?case by (simp add: parseValue_scalar)
next
  case (JStr s)
  then show ?case
    using lexString_quoted [of s JStr rest] by (simp add: parseValue_scalar quote_def lexScalar_def)
next
  case (JArr vs)
  then have el: "vs \<noteq> [] \<Longrightarrow> parseElems (renderElems vs @ CHR '']'' # rest) = Some (vs, rest)"
    by (intro parseElems_render) auto
  show ?case
  proof (cases "vs = []")
    case False
    then obtain c t where "renderElems vs = c # t" "\<not> isSpace c" "c \<noteq> CHR '']''"
      using renderElems_head JArr(2) by (metis wf_json.simps(5))
    with el [OF False] show ?thesis by (simp add: parseValue.simps)
  qed (simp add: parseValue.simps)
next
  case (JObj ms)
  then have el: "ms \<noteq> [] \<Longrightarrow> parseMembers (renderMembers ms @ CHR ''}'' # rest) = Some (ms, rest)"
    by (intro parseMembers_render) (auto simp: prod_set_simps)
  show ?case
  proof (cases ms)
    case (Cons m ms')
    with el show ?thesis by (simp add: parseValue.simps quote_def)
  qed (simp add: parseValue.simps)
qed (auto simp: parseValue_scalar lexScalar_def lexLiteral_def)

section \<open>Reading consumes input\<close>

lemma lexString_shorter: "lexString s = Some (r, t) \<Longrightarrow> length t < length s"
proof (induction s arbitrary: r t rule: measure_induct_rule [where f = length])
  case (less s)
  show ?case
  proof (cases s)
    case (Cons c u)
    have IH: "length t' < length y" if "lexString y = Some (r', t')" "length y \<le> length u" for y r' t'
      using less.IH that Cons by simp
    from less.prems show ?thesis
      unfolding Cons
      by (subst (asm) lexString.simps) (auto split: if_splits list.splits dest!: IH)
  qed (use less.prems in simp)
qed

lemma lexDigits_shorter:
  assumes "lexDigits s = Some (r, t)" shows "length t < length s"
proof -
  have "r \<noteq> []" "s = r @ t" using assms by (auto simp: lexDigits_def split: if_splits)
  then show ?thesis by simp
qed

lemma lexInt_shorter: "lexInt s = Some (r, t) \<Longrightarrow> length t < length s"
  by (auto simp: lexInt_def split: list.splits if_splits dest: lexDigits_shorter)

lemma lexFrac_shorter: "lexFrac s = Some (r, t) \<Longrightarrow> length t \<le> length s"
  by (auto simp: lexFrac_def split: list.splits if_splits dest!: lexDigits_shorter)

lemma lexExp_shorter: "lexExp s = Some (r, t) \<Longrightarrow> length t \<le> length s"
  by (auto simp: lexExp_def split: list.splits if_splits dest!: lexDigits_shorter)

lemma lexNumber_shorter: "lexNumber s = Some (r, t) \<Longrightarrow> length t < length s"
  by (auto simp: lexNumber_def split: list.splits if_splits option.splits
      dest!: lexInt_shorter lexFrac_shorter lexExp_shorter)

lemma lexScalar_shorter:
  assumes "lexScalar s = Some (v, t)" shows "length t < length s"
proof (cases s)
  case (Cons c u)
  have "length t < length s" if "lexLiteral s = Some (v, t)"
    using that Cons
    by (auto simp: lexLiteral_def split: if_splits dest: lexNumber_shorter)
  with assms Cons show ?thesis
    by (auto simp: lexScalar_def split: if_splits dest: lexString_shorter)
qed (use assms in \<open>simp add: lexScalar_def\<close>)

lemma parseKey_shorter: "parseKey s = Some (k, t) \<Longrightarrow> length t < length s"
  by (auto simp: parseKey_def split: list.splits if_splits
      dest!: lexString_shorter skipSpace_Cons_less)

lemma parse_shorter_all:
  "(\<forall>v r. parseValue s = Some (v, r) \<longrightarrow> length r < length s) \<and>
   (\<forall>vs r. parseElems s = Some (vs, r) \<longrightarrow> length r < length s) \<and>
   (\<forall>ms r. parseMembers s = Some (ms, r) \<longrightarrow> length r < length s)"
proof (induction s rule: measure_induct_rule [where f = length])
  case (less s)
  have V: "length r < length s" if "parseValue s = Some (v, r)" for v r
  proof (cases "skipSpace s")
    case (Cons c t)
    note t = skipSpace_Cons_less [OF Cons]
    have m: "parseMembers t = Some (ms, r') \<Longrightarrow> length r' < length t" for ms r'
      using less.IH [OF t] by blast
    have e: "parseElems t = Some (vs, r') \<Longrightarrow> length r' < length t" for vs r'
      using less.IH [OF t] by blast
    have "length r < length s" if "lexScalar (c # t) = Some (v, r)"
      using lexScalar_shorter [OF that] skipSpace_length [of s] Cons by simp
    with that t show ?thesis
      by (auto simp: parseValue.simps Cons split: list.splits if_splits dest!: skipSpace_Cons_less m e)
  qed (use that in \<open>simp add: parseValue.simps\<close>)
  have E: "length r < length s" if p: "parseElems s = Some (vs, r)" for vs r
  proof -
    from p obtain v t where v: "parseValue s = Some (v, t)"
      by (subst (asm) parseElems.simps) (auto split: option.splits)
    from p v obtain d u where u: "skipSpace t = d # u"
      by (subst (asm) parseElems.simps) (auto split: list.splits)
    have "length u < length s" using V [OF v] skipSpace_Cons_less [OF u] by simp
    moreover have "length r < length u" if "parseElems u = Some (ws, r)" for ws
      using less.IH [OF calculation] that by blast
    ultimately show ?thesis
      using p v u by (subst (asm) parseElems.simps) (auto split: if_splits)
  qed
  have M: "length r < length s" if p: "parseMembers s = Some (ms, r)" for ms r
  proof -
    from p obtain k t where k: "parseKey s = Some (k, t)"
      by (subst (asm) parseMembers.simps) (auto split: option.splits)
    from p k obtain d u where u: "skipSpace t = d # u"
      by (subst (asm) parseMembers.simps) (auto split: list.splits)
    have us: "length u < length s" using parseKey_shorter [OF k] skipSpace_Cons_less [OF u] by simp
    from p k u obtain v w where v: "parseValue u = Some (v, w)"
      by (subst (asm) parseMembers.simps) (auto split: option.splits if_splits)
    from p k u v obtain e x where x: "skipSpace w = e # x"
      by (subst (asm) parseMembers.simps) (auto split: list.splits if_splits)
    have "length w < length u" using less.IH [OF us] v by blast
    then have "length x < length s" using us skipSpace_Cons_less [OF x] by simp
    moreover have "length r < length x" if "parseMembers x = Some (ns, r)" for ns
      using less.IH [OF calculation] that by blast
    ultimately show ?thesis
      using p k u v x by (subst (asm) parseMembers.simps) (auto split: if_splits)
  qed
  show ?case using V E M by blast
qed

lemma parse_shorter:
  "parseValue s = Some (v, r) \<Longrightarrow> length r < length s"
  "parseElems s = Some (vs, r) \<Longrightarrow> length r < length s"
  "parseMembers s = Some (ms, r) \<Longrightarrow> length r < length s"
  using parse_shorter_all [of s] by blast+

section \<open>Typed decoding\<close>

text \<open>
  A struct is described by its fields, each a name with the way a value is stored. Field names
  are ASCII, so the folding that matters is of letters, of U+017F to \<open>S\<close> and of U+212A to
  \<open>K\<close>.
\<close>

type_synonym 'r field = "string \<times> (json \<Rightarrow> 'r \<Rightarrow> 'r option)"

definition upperASCII :: "char \<Rightarrow> char" where
  "upperASCII c = (if CHR ''a'' \<le> c \<and> c \<le> CHR ''z'' then char_of (of_char c - 32 :: nat) else c)"

fun foldName :: "string \<Rightarrow> string" where
  "foldName [] = []"
| "foldName (c # s) =
     (if c = CHR 0xC5 \<and> take 1 s = [CHR 0xBF] then CHR ''S'' # foldName (drop 1 s)
      else if c = CHR 0xE2 \<and> take 2 s = [CHR 0x84, CHR 0xAA] then CHR ''K'' # foldName (drop 2 s)
      else upperASCII c # foldName s)"

definition lookupField :: "'r field list \<Rightarrow> string \<Rightarrow> (json \<Rightarrow> 'r \<Rightarrow> 'r option) option" where
  "lookupField fs k =
     (case map_of fs k of
        Some f \<Rightarrow> Some f
      | None \<Rightarrow> map_of (map (\<lambda>(n, f). (foldName n, f)) fs) (foldName k))"

fun decodeMembers :: "bool \<Rightarrow> 'r field list \<Rightarrow> (string \<times> json) list \<Rightarrow> 'r \<Rightarrow> 'r option" where
  "decodeMembers disallow fs [] r = Some r"
| "decodeMembers disallow fs ((k, v) # ms) r =
     (case lookupField fs k of
        None \<Rightarrow> if disallow then None else decodeMembers disallow fs ms r
      | Some f \<Rightarrow> Option.bind (f v r) (decodeMembers disallow fs ms))"

definition decodeStruct :: "bool \<Rightarrow> 'r field list \<Rightarrow> json \<Rightarrow> 'r \<Rightarrow> 'r option" where
  "decodeStruct disallow fs v r =
     (case v of JObj ms \<Rightarrow> decodeMembers disallow fs ms r | JNull \<Rightarrow> Some r | _ \<Rightarrow> None)"

definition parseInt :: "nat \<Rightarrow> string \<Rightarrow> int option" where
  "parseInt bits s =
     (let (neg, t) = (case s of
          c # t \<Rightarrow> if c = CHR ''-'' then (True, t) else if c = CHR ''+'' then (False, t) else (False, s)
        | [] \<Rightarrow> (False, s));
        i = (if neg then - int (decimal 0 t) else int (decimal 0 t)) in
      if t \<noteq> [] \<and> list_all isDigit t \<and> - (2 ^ (bits - 1)) \<le> i \<and> i < 2 ^ (bits - 1) then Some i else None)"

definition setStr :: "(string \<Rightarrow> 'r \<Rightarrow> 'r) \<Rightarrow> json \<Rightarrow> 'r \<Rightarrow> 'r option" where
  "setStr upd v r = (case v of JStr s \<Rightarrow> Some (upd s r) | JNull \<Rightarrow> Some r | _ \<Rightarrow> None)"

definition setInt :: "(int \<Rightarrow> 'r \<Rightarrow> 'r) \<Rightarrow> json \<Rightarrow> 'r \<Rightarrow> 'r option" where
  "setInt upd v r =
     (case v of JNum n \<Rightarrow> map_option (\<lambda>i. upd i r) (parseInt 64 n) | JNull \<Rightarrow> Some r | _ \<Rightarrow> None)"

definition setBool :: "(bool \<Rightarrow> 'r \<Rightarrow> 'r) \<Rightarrow> json \<Rightarrow> 'r \<Rightarrow> 'r option" where
  "setBool upd v r = (case v of JBool b \<Rightarrow> Some (upd b r) | JNull \<Rightarrow> Some r | _ \<Rightarrow> None)"

text \<open>\<open>Decoder.Decode\<close>, with the text left behind the value, \<open>Decoder.More\<close> on it, and \<open>Unmarshal\<close>.\<close>

definition decodeFirst :: "bool \<Rightarrow> 'r field list \<Rightarrow> string \<Rightarrow> 'r \<Rightarrow> ('r \<times> string) option" where
  "decodeFirst disallow fs s r =
     (case parseValue s of
        None \<Rightarrow> None
      | Some (v, rest) \<Rightarrow> map_option (\<lambda>r. (r, rest)) (decodeStruct disallow fs v r))"

definition moreAfter :: "string \<Rightarrow> bool" where
  "moreAfter s = (case skipSpace s of [] \<Rightarrow> False | c # t \<Rightarrow> c \<noteq> CHR '']'' \<and> c \<noteq> CHR ''}'')"

definition unmarshal :: "'r field list \<Rightarrow> string \<Rightarrow> 'r \<Rightarrow> 'r option" where
  "unmarshal fs s r =
     (case decodeFirst False fs s r of
        Some (r', rest) \<Rightarrow> if skipSpace rest = [] then Some r' else None
      | None \<Rightarrow> None)"

lemma parseInt_showInt [simp]:
  assumes "- (2 ^ (bits - 1)) \<le> i" "i < 2 ^ (bits - 1)" shows "parseInt bits (showInt i) = Some i"
proof (cases "i < 0")
  case True
  with assms show ?thesis by (simp add: parseInt_def showInt_def showNat_digits)
next
  case False
  obtain c t where ct: "showNat (nat i) = c # t" by (cases "showNat (nat i)") auto
  then have "isDigit c" "list_all isDigit (c # t)" using showNat_digits [of "nat i"] by simp_all
  moreover from \<open>isDigit c\<close> have "c \<noteq> CHR ''-''" "c \<noteq> CHR ''+''" by (auto simp: isDigit_iff)
  moreover have i: "int (decimal 0 (c # t)) = i" using False decimal_showNat [of "nat i"] ct by simp
  moreover have "decimal 0 (c # t) < 2 ^ (bits - 1)" using i assms(2) by (metis of_nat_less_iff of_nat_numeral of_nat_power)
  ultimately show ?thesis using False ct assms(1) by (simp add: parseInt_def showInt_def del: decimal.simps)
qed

lemma setInt_showInt [simp]:
  "- (2 ^ 63) \<le> i \<Longrightarrow> i < 2 ^ 63 \<Longrightarrow> setInt upd (JNum (showInt i)) r = Some (upd i r)"
  using parseInt_showInt [of 64 i] by (simp add: setInt_def)

lemma setStr_JStr [simp]: "setStr upd (JStr s) r = Some (upd s r)"
  by (simp add: setStr_def)

lemma setBool_JBool [simp]: "setBool upd (JBool b) r = Some (upd b r)"
  by (simp add: setBool_def)

lemma lookupField_exact [simp]: "map_of fs k = Some f \<Longrightarrow> lookupField fs k = Some f"
  by (simp add: lookupField_def)

text \<open>A rendered document, with the newline the writers append, is read back.\<close>

lemma decodeFirst_render:
  assumes "wf_json v" "number_end rest" "decodeStruct disallow fs v r = Some r'"
  shows "decodeFirst disallow fs (render v @ rest) r = Some (r', rest)"
  using assms by (simp add: decodeFirst_def parseValue_render)

lemma moreAfter_newline [simp]: "\<not> moreAfter [CHR 0x0A]" "\<not> moreAfter []"
  by (simp_all add: moreAfter_def skipSpace_def)

section \<open>Sizes\<close>

lemma length_escapeByte: "length (escapeByte b) \<le> 6"
  by (cases b rule: escapeByte_cases) auto

lemma length_escape: "length (escape s) \<le> 6 * length s"
proof (induction s rule: escape.induct)
  case (2 c s)
  let ?n = "multiLen (c # s)"
  have high: "?n \<noteq> 0 \<Longrightarrow> ?n \<le> Suc (length s)" using multiLen_high [of "c # s"] by simp
  show ?case
  proof (cases "ascii c")
    case True
    with 2(1) length_escapeByte [of c] show ?thesis by simp
  next
    case nascii: False
    show ?thesis
    proof (cases "?n = 0")
      case True
      with nascii 2(2) show ?thesis by simp
    next
      case False
      note IH = 2(3,4) [OF nascii refl False]
      have "length (escape (drop (?n - 1) s)) \<le> 6 * (length s - (?n - 1))"
        using IH by (cases "lineSep (c # s)") simp_all
      moreover obtain m where "?n = Suc m" "m \<le> length s" using False high by (cases ?n) auto
      ultimately show ?thesis using nascii by (auto simp: Let_def)
    qed
  qed
qed simp

lemma length_quote: "length (quote s) \<le> 6 * length s + 2"
  using length_escape [of s] by (simp add: quote_def)

lemma length_showNat: "n < 10 ^ Suc k \<Longrightarrow> length (showNat n) \<le> Suc k"
proof (induction k arbitrary: n)
  case 0
  then show ?case by (subst showNat.simps) simp
next
  case (Suc k)
  have "n div 10 < 10 ^ Suc k" using Suc.prems by (simp add: less_mult_imp_div_less mult.commute)
  with Suc.IH show ?case by (subst showNat.simps) simp
qed

lemma length_showInt: "0 \<le> i \<Longrightarrow> i < 10 ^ Suc k \<Longrightarrow> length (showInt i) \<le> Suc k"
  using length_showNat [of "nat i" k] by (simp add: showInt_def nat_less_iff)

lemma wf_json_showInt [simp]: "wf_json (JNum (showInt i))"
  by auto

declare validUTF8.simps [simp del] escape.simps [simp del] wf_json.simps(3) [simp del]

end
