(* ===== verification/Strict_Json.thy ===== *)
theory Strict_Json
  imports Json
begin

text \<open>
  \<open>internal/strictjson\<close>: the preflight that walks the first JSON value of a document with
  \<open>Decoder.Token\<close> and rejects duplicate member names, deep nesting and, for manifests, names
  that are not lower-case snake case. The \<open>Decoder\<close> is its unread input, its token state and
  the stack of token states of the enclosing values, as in \<open>encoding/json\<close>. The main lemma
  says that the walk accepts exactly the documents that parse and whose names are admissible.
\<close>

datatype tokenState =
    TopValue | ArrayStart | ArrayValue | ArrayComma
  | ObjectStart | ObjectKey | ObjectColon | ObjectValue | ObjectComma

record decoder =
  input :: string
  tstate :: tokenState
  tstack :: "tokenState list"

datatype token = Delim char | NameToken string | ScalarToken json

datatype strict_error =
    SyntaxError
  | NestingTooDeep
  | NameNotString
  | UnexpectedDelimiter
  | DuplicateName string
  | NonCanonicalName string

definition tokenValueAllowed :: "tokenState \<Rightarrow> bool" where
  "tokenValueAllowed s \<longleftrightarrow> s \<in> {TopValue, ArrayStart, ArrayValue, ObjectValue}"

definition tokenValueEnd :: "tokenState \<Rightarrow> tokenState" where
  "tokenValueEnd s =
     (case s of ArrayStart \<Rightarrow> ArrayComma | ArrayValue \<Rightarrow> ArrayComma | ObjectValue \<Rightarrow> ObjectComma | _ \<Rightarrow> s)"

definition push :: "decoder \<Rightarrow> string \<Rightarrow> tokenState \<Rightarrow> decoder" where
  "push d t s = d\<lparr>input := t, tstack := tstate d # tstack d, tstate := s\<rparr>"

text \<open>A closing delimiter is only accepted inside a value, when the stack is not empty.\<close>

definition pop :: "decoder \<Rightarrow> string \<Rightarrow> decoder" where
  "pop d t = (case tstack d of s # ss \<Rightarrow> d\<lparr>input := t, tstate := tokenValueEnd s, tstack := ss\<rparr> | [] \<Rightarrow> d\<lparr>input := t, tstate := TopValue\<rparr>)"

function tokenLoop :: "string \<Rightarrow> decoder \<Rightarrow> strict_error + token \<times> decoder" where
  "tokenLoop s d =
     (case skipSpace s of
        [] \<Rightarrow> Inl SyntaxError
      | c # t \<Rightarrow>
          if c = CHR ''['' then
            (if tokenValueAllowed (tstate d) then Inr (Delim c, push d t ArrayStart) else Inl SyntaxError)
          else if c = CHR '']'' then
            (if tstate d = ArrayStart \<or> tstate d = ArrayComma then Inr (Delim c, pop d t) else Inl SyntaxError)
          else if c = CHR ''{'' then
            (if tokenValueAllowed (tstate d) then Inr (Delim c, push d t ObjectStart) else Inl SyntaxError)
          else if c = CHR ''}'' then
            (if tstate d = ObjectStart \<or> tstate d = ObjectComma then Inr (Delim c, pop d t) else Inl SyntaxError)
          else if c = CHR '':'' then
            (if tstate d = ObjectColon then tokenLoop t (d\<lparr>tstate := ObjectValue\<rparr>) else Inl SyntaxError)
          else if c = CHR '','' then
            (if tstate d = ArrayComma then tokenLoop t (d\<lparr>tstate := ArrayValue\<rparr>)
             else if tstate d = ObjectComma then tokenLoop t (d\<lparr>tstate := ObjectKey\<rparr>)
             else Inl SyntaxError)
          else if c = CHR 0x22 \<and> (tstate d = ObjectStart \<or> tstate d = ObjectKey) then
            (case parseKey (c # t) of
               None \<Rightarrow> Inl SyntaxError
             | Some (k, u) \<Rightarrow> Inr (NameToken k, d\<lparr>input := u, tstate := ObjectColon\<rparr>))
          else if tokenValueAllowed (tstate d) then
            (case lexScalar (c # t) of
               None \<Rightarrow> Inl SyntaxError
             | Some (v, u) \<Rightarrow> Inr (ScalarToken v, d\<lparr>input := u, tstate := tokenValueEnd (tstate d)\<rparr>))
          else Inl SyntaxError)"
  by pat_completeness auto
termination by (relation "measure (\<lambda>(s, d). length s)") (auto dest: skipSpace_Cons_less)

declare tokenLoop.simps [simp del]

definition Token :: "decoder \<Rightarrow> strict_error + token \<times> decoder" where
  "Token d = tokenLoop (input d) d"

definition More :: "decoder \<Rightarrow> bool" where
  "More d = (case skipSpace (input d) of [] \<Rightarrow> False | c # t \<Rightarrow> c \<noteq> CHR '']'' \<and> c \<noteq> CHR ''}'')"

definition maxJSONDepth :: nat where "maxJSONDepth = 32"

definition nameByte :: "char \<Rightarrow> bool" where
  "nameByte c \<longleftrightarrow> CHR ''a'' \<le> c \<and> c \<le> CHR ''z'' \<or> isDigit c \<or> c = CHR ''_''"

definition isCanonicalManifestName :: "string \<Rightarrow> bool" where
  "isCanonicalManifestName name =
     (case name of
        [] \<Rightarrow> False
      | c # t \<Rightarrow> CHR ''a'' \<le> c \<and> c \<le> CHR ''z'' \<and> list_all nameByte t)"

text \<open>
  The three walks. A loop iteration always shortens the input; the comparisons make that
  explicit. \<open>walkObject\<close> carries the names seen so far.
\<close>

function (sequential)
  walkValue :: "bool \<Rightarrow> decoder \<Rightarrow> nat \<Rightarrow> strict_error + decoder"
  and walkObject :: "bool \<Rightarrow> decoder \<Rightarrow> nat \<Rightarrow> string list \<Rightarrow> strict_error + decoder"
  and walkArray :: "bool \<Rightarrow> decoder \<Rightarrow> nat \<Rightarrow> strict_error + decoder"
where
  "walkValue req d depth =
     (if maxJSONDepth < depth then Inl NestingTooDeep else
      case Token d of
        Inl e \<Rightarrow> Inl e
      | Inr (tok, d1) \<Rightarrow>
          if \<not> length (input d1) < length (input d) then Inl SyntaxError else
          (case tok of
             Delim c \<Rightarrow>
               if c = CHR ''{'' then walkObject req d1 depth []
               else if c = CHR ''['' then walkArray req d1 depth
               else Inl UnexpectedDelimiter
           | _ \<Rightarrow> Inr d1))"
| "walkObject req d depth seen =
     (if More d then
        (case Token d of
           Inl e \<Rightarrow> Inl e
         | Inr (NameToken name, d1) \<Rightarrow>
             if req \<and> \<not> isCanonicalManifestName name then Inl (NonCanonicalName name)
             else if name \<in> set seen then Inl (DuplicateName name)
             else if \<not> length (input d1) < length (input d) then Inl SyntaxError else
             (case walkValue req d1 (depth + 1) of
                Inl e \<Rightarrow> Inl e
              | Inr d2 \<Rightarrow>
                  if \<not> length (input d2) < length (input d) then Inl SyntaxError
                  else walkObject req d2 depth (name # seen))
         | Inr _ \<Rightarrow> Inl NameNotString)
      else
        (case Token d of
           Inl e \<Rightarrow> Inl e
         | Inr (closing, d1) \<Rightarrow> if closing = Delim CHR ''}'' then Inr d1 else Inl UnexpectedDelimiter))"
| "walkArray req d depth =
     (if More d then
        (case walkValue req d (depth + 1) of
           Inl e \<Rightarrow> Inl e
         | Inr d1 \<Rightarrow>
             if \<not> length (input d1) < length (input d) then Inl SyntaxError
             else walkArray req d1 depth)
      else
        (case Token d of
           Inl e \<Rightarrow> Inl e
         | Inr (closing, d1) \<Rightarrow> if closing = Delim CHR '']'' then Inr d1 else Inl UnexpectedDelimiter))"
  by pat_completeness auto
termination
  by (relation "inv_image (less_than <*lex*> less_than)
        (\<lambda>x. case x of Inl (r, d, n) \<Rightarrow> (length (input d), 0)
                 | Inr (Inl (r, d, n, seen)) \<Rightarrow> (length (input d), 1)
                 | Inr (Inr (r, d, n)) \<Rightarrow> (length (input d), 1 :: nat))") auto

declare walkValue.simps [simp del] walkObject.simps [simp del] walkArray.simps [simp del]

definition inspectObjectNames :: "string \<Rightarrow> bool \<Rightarrow> strict_error + unit" where
  "inspectObjectNames doc req =
     (if trimSpace doc = [] then Inr ()
      else case walkValue req \<lparr>input = doc, tstate = TopValue, tstack = []\<rparr> 1 of
        Inl e \<Rightarrow> Inl e | Inr _ \<Rightarrow> Inr ())"

definition RejectDuplicateObjectNames :: "string \<Rightarrow> strict_error + unit" where
  "RejectDuplicateObjectNames doc = inspectObjectNames doc False"

definition ValidateManifestObjectNames :: "string \<Rightarrow> strict_error + unit" where
  "ValidateManifestObjectNames doc = inspectObjectNames doc True"

section \<open>What the walk accepts\<close>

text \<open>The names of a value and its nesting, counted from \<open>depth\<close>.\<close>

fun admissible :: "bool \<Rightarrow> nat \<Rightarrow> json \<Rightarrow> bool" where
  "admissible req depth (JArr vs) =
     (depth \<le> maxJSONDepth \<and> (\<forall>v \<in> set vs. admissible req (depth + 1) v))"
| "admissible req depth (JObj ms) =
     (depth \<le> maxJSONDepth \<and> distinct (map fst ms) \<and>
      (\<forall>m \<in> set ms. (req \<longrightarrow> isCanonicalManifestName (fst m)) \<and> admissible req (depth + 1) (snd m)))"
| "admissible req depth v = (depth \<le> maxJSONDepth)"

lemma admissible_depth: "admissible req depth v \<Longrightarrow> depth \<le> maxJSONDepth"
  by (cases v) auto

lemma pop_input [simp]: "input (pop d t) = t"
  by (simp add: pop_def split: list.split)

lemma push_input [simp]: "input (push d t s) = t"
  by (simp add: push_def)

lemma push_pop_overwrite [simp]:
  "push (d\<lparr>input := x\<rparr>) t s = push d t s" "pop (d\<lparr>input := x\<rparr>) t = pop d t"
  by (simp_all add: push_def pop_def split: list.split)

lemma tokenLoop_input: "tokenLoop s (d\<lparr>input := x\<rparr>) = tokenLoop s d"
proof (induction s arbitrary: d rule: measure_induct_rule [where f = length])
  case (less s)
  show ?case
  proof (cases "skipSpace s")
    case (Cons c t)
    have IH: "tokenLoop t (d\<lparr>input := x, tstate := a\<rparr>) = tokenLoop t (d\<lparr>tstate := a\<rparr>)" for a
      using less.IH [OF skipSpace_Cons_less [OF Cons], of "d\<lparr>tstate := a\<rparr>"] by (metis decoder.surjective decoder.update_convs(1,2))
    show ?thesis
      by (subst (1 2) tokenLoop.simps) (simp add: Cons IH cong: if_cong option.case_cong split del: if_split)
  qed (simp add: tokenLoop.simps)
qed

lemma tokenLoop_shorter: "tokenLoop s d = Inr (tok, d1) \<Longrightarrow> length (input d1) < length s"
proof (induction s arbitrary: d rule: measure_induct_rule [where f = length])
  case (less s)
  show ?case
  proof (cases "skipSpace s")
    case (Cons c t)
    have t: "length t < length s" "length (c # t) \<le> length s"
      using skipSpace_Cons_less [OF Cons] skipSpace_length [of s] Cons by simp_all
    note IH = less.IH [OF t(1)]
    from less.prems t show ?thesis
      by (subst (asm) tokenLoop.simps)
        (auto simp: Cons split: if_splits option.splits
          dest!: IH parseKey_shorter lexScalar_shorter)
  qed (use less.prems in \<open>simp add: tokenLoop.simps\<close>)
qed

lemma Token_shorter: "Token d = Inr (tok, d1) \<Longrightarrow> length (input d1) < length (input d)"
  by (auto simp: Token_def dest: tokenLoop_shorter)

text \<open>The length comparison of \<open>walkValue\<close> can be dropped, and a pending separator consumed.\<close>

lemma walkValue_eq:
  "walkValue req d depth =
     (if maxJSONDepth < depth then Inl NestingTooDeep else
      case Token d of
        Inl e \<Rightarrow> Inl e
      | Inr (Delim c, d1) \<Rightarrow>
          if c = CHR ''{'' then walkObject req d1 depth []
          else if c = CHR ''['' then walkArray req d1 depth
          else Inl UnexpectedDelimiter
      | Inr (_, d1) \<Rightarrow> Inr d1)"
  by (subst walkValue.simps) (auto split: sum.splits prod.splits token.splits dest: Token_shorter)

lemma Token_separator:
  assumes "skipSpace (input d) = c # t"
    and "c = CHR '':'' \<and> tstate d = ObjectColon \<and> a = ObjectValue \<or>
      c = CHR '','' \<and> tstate d = ArrayComma \<and> a = ArrayValue \<or>
      c = CHR '','' \<and> tstate d = ObjectComma \<and> a = ObjectKey"
  shows "Token d = Token (d\<lparr>input := t, tstate := a\<rparr>)"
proof -
  have "Token d = tokenLoop t (d\<lparr>tstate := a\<rparr>)"
    unfolding Token_def using assms by (subst tokenLoop.simps) auto
  also have "\<dots> = tokenLoop t (d\<lparr>tstate := a, input := t\<rparr>)"
    by (rule tokenLoop_input [symmetric])
  also have "d\<lparr>tstate := a, input := t\<rparr> = d\<lparr>input := t, tstate := a\<rparr>" by simp
  also have "tokenLoop t \<dots> = Token \<dots>" by (simp add: Token_def)
  finally show ?thesis .
qed

lemma lexScalar_delim:
  assumes "c \<in> set ''{}[]:,''" shows "lexScalar (c # t) = None"
proof -
  have "\<not> isDigit c" "c \<notin> set [CHR 0x22, CHR ''n'', CHR ''t'', CHR ''f'', CHR ''-'', CHR ''0'']"
    using assms by (auto simp: isDigit_iff)
  then show ?thesis
    by (simp add: lexScalar_def lexLiteral_def lexNumber_def lexInt_def lexDigits_def)
qed

definition okOf :: "'e + 'a \<Rightarrow> 'a option" where
  "okOf x = (case x of Inl e \<Rightarrow> None | Inr a \<Rightarrow> Some a)"

lemma okOf_simps [simp]: "okOf (Inl e) = None" "okOf (Inr a) = Some a"
  by (simp_all add: okOf_def)

lemma walk_shorter_all:
  "(\<forall>n d1. walkValue req d n = Inr d1 \<longrightarrow> length (input d1) < length (input d)) \<and>
   (\<forall>n seen d1. walkObject req d n seen = Inr d1 \<longrightarrow> length (input d1) < length (input d)) \<and>
   (\<forall>n d1. walkArray req d n = Inr d1 \<longrightarrow> length (input d1) < length (input d))"
proof (induction d rule: measure_induct_rule [where f = "\<lambda>d. length (input d)"])
  case (less d)
  have O: "length (input d2) < length (input d1)"
    if "walkObject req d1 n seen = Inr d2" "length (input d1) < length (input d)" for d1 d2 n seen
    using less.IH [OF that(2)] that(1) by blast
  have A: "length (input d2) < length (input d1)"
    if "walkArray req d1 n = Inr d2" "length (input d1) < length (input d)" for d1 d2 n
    using less.IH [OF that(2)] that(1) by blast
  have "length (input d1) < length (input d)" if "walkValue req d n = Inr d1" for n d1
    using that by (subst (asm) walkValue.simps)
      (auto split: if_splits sum.splits token.splits dest!: O A)
  moreover have "length (input d1) < length (input d)" if "walkObject req d n seen = Inr d1" for n seen d1
    using that by (subst (asm) walkObject.simps)
      (auto split: if_splits sum.splits token.splits dest: Token_shorter dest!: O)
  moreover have "length (input d1) < length (input d)" if "walkArray req d n = Inr d1" for n d1
    using that by (subst (asm) walkArray.simps)
      (auto split: if_splits sum.splits token.splits dest: Token_shorter dest!: A)
  ultimately show ?case by blast
qed

lemma walkValue_shorter: "walkValue req d n = Inr d1 \<Longrightarrow> length (input d1) < length (input d)"
  using walk_shorter_all by blast

lemma Token_open:
  assumes "skipSpace (input d) = c # t" "tokenValueAllowed (tstate d)"
  shows "c = CHR ''['' \<Longrightarrow> Token d = Inr (Delim c, push d t ArrayStart)"
    and "c = CHR ''{'' \<Longrightarrow> Token d = Inr (Delim c, push d t ObjectStart)"
  using assms unfolding Token_def by (subst tokenLoop.simps; simp)+

lemma walkValue_scalar:
  assumes "skipSpace (input d) = c # t" "tokenValueAllowed (tstate d)" "n \<le> maxJSONDepth"
    and c: "c \<noteq> CHR ''[''" "c \<noteq> CHR ''{''"
  shows "okOf (walkValue req d n) =
    map_option (\<lambda>(v, u). d\<lparr>input := u, tstate := tokenValueEnd (tstate d)\<rparr>) (lexScalar (c # t))"
proof -
  have st: "tstate d \<noteq> ArrayComma" "tstate d \<noteq> ObjectColon" "tstate d \<noteq> ObjectComma"
    "tstate d \<noteq> ObjectStart" "tstate d \<noteq> ObjectKey"
    using assms(2) by (auto simp: tokenValueAllowed_def)
  show ?thesis
  proof (cases "c \<in> set ''}]:,''")
    case True
    then have "lexScalar (c # t) = None" by (intro lexScalar_delim) auto
    moreover have "Token d = Inl SyntaxError \<or> (\<exists>d1. Token d = Inr (Delim CHR '']'', d1))"
      unfolding Token_def using True st assms(1) by (subst (1 2) tokenLoop.simps) auto
    ultimately show ?thesis using assms(3) by (auto simp: walkValue_eq)
  next
    case False
    then have "Token d = (case lexScalar (c # t) of None \<Rightarrow> Inl SyntaxError
        | Some (v, u) \<Rightarrow> Inr (ScalarToken v, d\<lparr>input := u, tstate := tokenValueEnd (tstate d)\<rparr>))"
      unfolding Token_def using c st assms(1,2) by (subst tokenLoop.simps) simp
    then show ?thesis using assms(3) by (simp add: walkValue_eq split: option.split)
  qed
qed

lemma Token_close:
  "skipSpace (input d) = CHR '']'' # t \<Longrightarrow> tstate d = ArrayStart \<or> tstate d = ArrayComma \<Longrightarrow>
   Token d = Inr (Delim CHR '']'', pop d t)"
  "skipSpace (input d) = CHR ''}'' # t \<Longrightarrow> tstate d = ObjectStart \<or> tstate d = ObjectComma \<Longrightarrow>
   Token d = Inr (Delim CHR ''}'', pop d t)"
  unfolding Token_def by (subst tokenLoop.simps; simp)+

lemma Token_eof: "skipSpace (input d) = [] \<Longrightarrow> Token d = Inl SyntaxError"
  unfolding Token_def by (subst tokenLoop.simps) simp

lemma Token_wrong:
  assumes "skipSpace (input d) = c # t"
  shows "tstate d = ArrayStart \<Longrightarrow> c = CHR ''}'' \<Longrightarrow> Token d = Inl SyntaxError"
    and "tstate d = ArrayComma \<Longrightarrow> c \<noteq> CHR '','' \<Longrightarrow> c \<noteq> CHR '']'' \<Longrightarrow> Token d = Inl SyntaxError"
    and "tstate d = ObjectColon \<Longrightarrow> c \<noteq> CHR '':'' \<Longrightarrow> Token d = Inl SyntaxError"
    and "tstate d = ObjectComma \<Longrightarrow> c \<noteq> CHR '','' \<Longrightarrow> c \<noteq> CHR ''}'' \<Longrightarrow> Token d = Inl SyntaxError"
    and "tstate d = ObjectKey \<Longrightarrow> c \<noteq> CHR 0x22 \<Longrightarrow> Token d = Inl SyntaxError"
    and "tstate d = ObjectStart \<Longrightarrow> c \<noteq> CHR 0x22 \<Longrightarrow> c \<noteq> CHR ''}'' \<Longrightarrow> Token d = Inl SyntaxError"
  unfolding Token_def by (subst tokenLoop.simps, simp add: assms tokenValueAllowed_def)+

lemma Token_name:
  assumes "tstate d = ObjectStart \<or> tstate d = ObjectKey" "skipSpace (input d) = CHR 0x22 # t"
  shows "Token d = (case parseKey (input d) of None \<Rightarrow> Inl SyntaxError
     | Some (k, u) \<Rightarrow> Inr (NameToken k, d\<lparr>input := u, tstate := ObjectColon\<rparr>))"
proof -
  have "parseKey (CHR 0x22 # t) = parseKey (input d)" using assms(2) by (simp add: parseKey_def)
  then show ?thesis
    unfolding Token_def by (subst tokenLoop.simps) (simp add: assms)
qed

definition walkElems :: "bool \<Rightarrow> decoder \<Rightarrow> nat \<Rightarrow> strict_error + decoder" where
  "walkElems req d depth =
     (case walkValue req d (depth + 1) of Inl e \<Rightarrow> Inl e | Inr d1 \<Rightarrow> walkArray req d1 depth)"

definition walkMembers :: "bool \<Rightarrow> decoder \<Rightarrow> nat \<Rightarrow> string list \<Rightarrow> strict_error + decoder" where
  "walkMembers req d depth seen =
     (case Token d of
        Inl e \<Rightarrow> Inl e
      | Inr (NameToken name, d1) \<Rightarrow>
          if req \<and> \<not> isCanonicalManifestName name then Inl (NonCanonicalName name)
          else if name \<in> set seen then Inl (DuplicateName name)
          else (case walkValue req d1 (depth + 1) of
                  Inl e \<Rightarrow> Inl e | Inr d2 \<Rightarrow> walkObject req d2 depth (name # seen))
      | Inr _ \<Rightarrow> Inl NameNotString)"

lemma walkArray_eq:
  "walkArray req d depth =
     (if More d then walkElems req d depth
      else case Token d of
        Inl e \<Rightarrow> Inl e
      | Inr (closing, d1) \<Rightarrow> if closing = Delim CHR '']'' then Inr d1 else Inl UnexpectedDelimiter)"
  by (subst walkArray.simps) (auto simp: walkElems_def split: sum.splits dest: walkValue_shorter)

lemma walkObject_eq:
  "walkObject req d depth seen =
     (if More d then walkMembers req d depth seen
      else case Token d of
        Inl e \<Rightarrow> Inl e
      | Inr (closing, d1) \<Rightarrow> if closing = Delim CHR ''}'' then Inr d1 else Inl UnexpectedDelimiter)"
  by (subst walkObject.simps)
    (auto simp: walkMembers_def split: sum.splits token.splits dest: walkValue_shorter Token_shorter less_trans)

definition value_spec :: "bool \<Rightarrow> decoder \<Rightarrow> nat \<Rightarrow> decoder option" where
  "value_spec req d n =
     (case parseValue (input d) of
        None \<Rightarrow> None
      | Some (v, r) \<Rightarrow> if admissible req n v
          then Some (d\<lparr>input := r, tstate := tokenValueEnd (tstate d)\<rparr>) else None)"

definition elems_spec :: "bool \<Rightarrow> decoder \<Rightarrow> nat \<Rightarrow> decoder option" where
  "elems_spec req d n =
     (case parseElems (input d) of
        None \<Rightarrow> None
      | Some (vs, r) \<Rightarrow> if \<forall>v \<in> set vs. admissible req (n + 1) v then Some (pop d r) else None)"

definition members_spec :: "bool \<Rightarrow> decoder \<Rightarrow> nat \<Rightarrow> string list \<Rightarrow> decoder option" where
  "members_spec req d n seen =
     (case parseMembers (input d) of
        None \<Rightarrow> None
      | Some (ms, r) \<Rightarrow>
          if distinct (map fst ms) \<and> set (map fst ms) \<inter> set seen = {} \<and>
            (\<forall>m \<in> set ms. (req \<longrightarrow> isCanonicalManifestName (fst m)) \<and> admissible req (n + 1) (snd m))
          then Some (pop d r) else None)"

lemma pop_push: "pop (push d t a) r = d\<lparr>input := r, tstate := tokenValueEnd (tstate d)\<rparr>"
  by (simp add: pop_def push_def)

lemma push_tstate [simp]: "tstate (push d t a) = a"
  by (simp add: push_def)

lemma walkObject_open:
  assumes M: "okOf (walkMembers req d n []) = members_spec req d n []" and st: "tstate d = ObjectStart"
  shows "okOf (walkObject req d n []) =
    (case skipSpace (input d) of
       [] \<Rightarrow> None
     | e # u \<Rightarrow> if e = CHR ''}'' then Some (pop d u) else members_spec req d n [])"
proof (cases "skipSpace (input d)")
  case Nil
  then show ?thesis by (simp add: walkObject_eq More_def Token_eof)
next
  case (Cons e u)
  consider "e = CHR ''}''" | "e = CHR '']''" | "e \<noteq> CHR ''}''" "e \<noteq> CHR '']''" by blast
  then show ?thesis
  proof cases
    case 1
    then show ?thesis using Cons st Token_close(2) [of d u] by (simp add: walkObject_eq More_def)
  next
    case 2
    then have "parseMembers (input d) = None"
      using Cons by (subst parseMembers.simps) (simp add: parseKey_def)
    then show ?thesis
      using 2 Cons st Token_wrong(6) [of d e u] by (simp add: walkObject_eq More_def members_spec_def)
  next
    case 3
    then show ?thesis using Cons M by (simp add: walkObject_eq More_def)
  qed
qed

lemma walkArray_open:
  assumes E: "okOf (walkElems req d n) = elems_spec req d n" and st: "tstate d = ArrayStart"
  shows "okOf (walkArray req d n) =
    (case skipSpace (input d) of
       [] \<Rightarrow> None
     | e # u \<Rightarrow> if e = CHR '']'' then Some (pop d u) else elems_spec req d n)"
proof (cases "skipSpace (input d)")
  case Nil
  then show ?thesis by (simp add: walkArray_eq More_def Token_eof)
next
  case (Cons e u)
  consider "e = CHR '']''" | "e = CHR ''}''" | "e \<noteq> CHR ''}''" "e \<noteq> CHR '']''" by blast
  then show ?thesis
  proof cases
    case 1
    then show ?thesis using Cons st Token_close(1) [of d u] by (simp add: walkArray_eq More_def)
  next
    case 2
    then have "parseValue (input d) = None"
      using Cons lexScalar_delim [of e u] by (simp add: parseValue.simps)
    then have "parseElems (input d) = None" by (subst parseElems.simps) simp
    then show ?thesis
      using 2 Cons st Token_wrong(1) [of d e u] by (simp add: walkArray_eq More_def elems_spec_def)
  next
    case 3
    then show ?thesis using Cons E by (simp add: walkArray_eq More_def)
  qed
qed

lemma walkValue_step:
  assumes E: "\<And>d' n. length (input d') < length (input d) \<Longrightarrow> tstate d' \<in> {ArrayStart, ArrayValue} \<Longrightarrow>
      okOf (walkElems req d' n) = elems_spec req d' n"
    and M: "\<And>d' n seen. length (input d') < length (input d) \<Longrightarrow> tstate d' \<in> {ObjectStart, ObjectKey} \<Longrightarrow>
      okOf (walkMembers req d' n seen) = members_spec req d' n seen"
    and allowed: "tokenValueAllowed (tstate d)"
  shows "okOf (walkValue req d n) = value_spec req d n"
proof (cases "maxJSONDepth < n")
  case True
  then show ?thesis
    using admissible_depth [of req n]
    by (auto simp: walkValue_eq value_spec_def split: option.split)
next
  case depth: False
  show ?thesis
  proof (cases "skipSpace (input d)")
    case Nil
    then show ?thesis using depth by (simp add: walkValue_eq Token_eof value_spec_def parseValue.simps)
  next
    case (Cons c t)
    note t = skipSpace_Cons_less [OF Cons]
    consider "c = CHR ''{''" | "c = CHR ''[''" | "c \<noteq> CHR ''{''" "c \<noteq> CHR ''[''" by blast
    then show ?thesis
    proof cases
      case 1
      have "walkValue req d n = walkObject req (push d t ObjectStart) n []"
        using depth 1 Token_open(2) [OF Cons allowed] by (simp add: walkValue_eq)
      with walkObject_open [OF M [of "push d t ObjectStart" n "[]"]] t 1 Cons depth show ?thesis
        by (cases "skipSpace t"; cases "parseMembers t")
          (auto simp: members_spec_def value_spec_def parseValue.simps pop_push)
    next
      case 2
      have "walkValue req d n = walkArray req (push d t ArrayStart) n"
        using depth 2 Token_open(1) [OF Cons allowed] by (simp add: walkValue_eq)
      with walkArray_open [OF E [of "push d t ArrayStart" n]] t 2 Cons depth show ?thesis
        by (cases "skipSpace t"; cases "parseElems t")
          (auto simp: elems_spec_def value_spec_def parseValue.simps pop_push)
    next
      case 3
      have adm: "admissible req n v" if "lexScalar (c # t) = Some (v, u)" for v u
        using that depth
        by (auto simp: lexScalar_def lexLiteral_def split: if_splits)
      from 3 depth walkValue_scalar [OF Cons allowed _ 3(2,1), of n req] Cons show ?thesis
        by (cases "lexScalar (c # t)") (auto simp: value_spec_def parseValue.simps dest: adm)
    qed
  qed
qed

lemma walkValue_separator:
  assumes "skipSpace (input d) = c # t"
    and "c = CHR '':'' \<and> tstate d = ObjectColon \<and> a = ObjectValue \<or>
      c = CHR '','' \<and> tstate d = ArrayComma \<and> a = ArrayValue"
  shows "walkValue req d n = walkValue req (d\<lparr>input := t, tstate := a\<rparr>) n"
proof -
  have "Token d = Token (d\<lparr>input := t, tstate := a\<rparr>)"
    using assms by (intro Token_separator) auto
  then show ?thesis by (simp add: walkValue_eq)
qed

lemma pop_overwrite [simp]: "pop (d\<lparr>tstate := a\<rparr>) r = pop d r"
  by (simp add: pop_def split: list.split)

lemma walkElems_step:
  assumes V: "okOf (walkValue req d (n + 1)) = value_spec req d (n + 1)"
    and E: "\<And>d'. length (input d') < length (input d) \<Longrightarrow> tstate d' = ArrayValue \<Longrightarrow>
      okOf (walkElems req d' n) = elems_spec req d' n"
    and st: "tstate d \<in> {ArrayStart, ArrayValue}"
  shows "okOf (walkElems req d n) = elems_spec req d n"
proof (cases "value_spec req d (n + 1)")
  case None
  then have "okOf (walkElems req d n) = None"
    using V by (cases "walkValue req d (n + 1)") (auto simp: walkElems_def)
  moreover have "elems_spec req d n = None"
    using None
    by (auto simp: elems_spec_def value_spec_def split: option.splits if_splits list.splits;
        subst (asm) parseElems.simps)
      (auto split: option.splits if_splits list.splits)
  ultimately show ?thesis by simp
next
  case (Some d1)
  then obtain v r where p: "parseValue (input d) = Some (v, r)" "admissible req (n + 1) v"
    and d1: "d1 = d\<lparr>input := r, tstate := ArrayComma\<rparr>"
    using st by (auto simp: value_spec_def tokenValueEnd_def split: option.splits if_splits)
  have w: "walkElems req d n = walkArray req d1 n"
    using V Some by (cases "walkValue req d (n + 1)") (auto simp: walkElems_def)
  show ?thesis
  proof (cases "skipSpace r")
    case Nil
    then show ?thesis
      using w p d1 by (simp add: walkArray_eq More_def Token_eof elems_spec_def parseElems.simps)
  next
    case (Cons e u)
    have u: "length u < length (input d)"
      using parse_shorter(1) [OF p(1)] skipSpace_Cons_less [OF Cons] by simp
    have pe: "parseElems (input d) = (if e = CHR '']'' then Some ([v], u) else if e = CHR '',''
        then map_option (\<lambda>(vs, r). (v # vs, r)) (parseElems u) else None)"
      using p Cons u by (subst parseElems.simps) simp
    consider "e = CHR '']''" | "e = CHR '',''" | "e \<noteq> CHR '']''" "e \<noteq> CHR '',''" by blast
    then show ?thesis
    proof cases
      case 1
      with w d1 Cons pe p(2) Token_close(1) [of d1 u] show ?thesis
        by (simp add: walkArray_eq More_def elems_spec_def)
    next
      case 2
      let ?d = "d1\<lparr>input := u, tstate := ArrayValue\<rparr>"
      have "walkValue req d1 (n + 1) = walkValue req ?d (n + 1)"
        by (rule walkValue_separator [where c = e]) (use d1 Cons 2 in simp_all)
      then have "walkArray req d1 n = walkElems req ?d n"
        using d1 Cons 2 by (simp add: walkArray_eq More_def walkElems_def)
      with w E [of ?d] u d1 pe 2 p(2) show ?thesis
        by (cases "parseElems u") (auto simp: elems_spec_def)
    next
      case 3
      with d1 Cons have "Token d1 = Inl SyntaxError" by (intro Token_wrong(2)) simp_all
      with 3 w pe show ?thesis
        by (simp add: walkArray_eq walkElems_def walkValue_eq elems_spec_def)
    qed
  qed
qed

lemma walkMembers_value:
  assumes M: "\<And>d' seen. length (input d') < length (input d) \<Longrightarrow> tstate d' = ObjectKey \<Longrightarrow>
      okOf (walkMembers req d' n seen) = members_spec req d' n seen"
    and st: "tstate d \<in> {ObjectStart, ObjectKey}"
    and k: "parseKey (input d) = Some (k, t)"
    and tok: "Token d = Inr (NameToken k, d\<lparr>input := t, tstate := ObjectColon\<rparr>)"
    and u: "skipSpace t = CHR '':'' # u"
    and wv: "okOf (walkValue req (d\<lparr>input := t, tstate := ObjectColon\<rparr>) (n + 1)) =
      value_spec req (d\<lparr>input := u, tstate := ObjectValue\<rparr>) (n + 1)"
  shows "okOf (walkMembers req d n seen) = members_spec req d n seen"
proof -
  let ?d1 = "d\<lparr>input := t, tstate := ObjectColon\<rparr>"
  have us: "length u < length (input d)"
    using parseKey_shorter [OF k] skipSpace_Cons_less [OF u] by simp
  have wm: "okOf (walkMembers req d n seen) =
      (if req \<and> \<not> isCanonicalManifestName k \<or> k \<in> set seen then None
       else case value_spec req (d\<lparr>input := u, tstate := ObjectValue\<rparr>) (n + 1) of
         None \<Rightarrow> None | Some d2 \<Rightarrow> okOf (walkObject req d2 n (k # seen)))"
    using wv [symmetric] tok by (cases "walkValue req ?d1 (n + 1)") (auto simp: walkMembers_def)
  show ?thesis
  proof (cases "parseValue u")
    case None
    then have "parseMembers (input d) = None" using k u us by (subst parseMembers.simps) simp
    with None wm show ?thesis by (simp add: members_spec_def value_spec_def)
  next
    case (Some vw)
    obtain v w where v: "parseValue u = Some (v, w)" using Some by (cases vw) auto
    let ?d2 = "d\<lparr>input := w, tstate := ObjectComma\<rparr>"
    have wm2: "okOf (walkMembers req d n seen) =
        (if req \<and> \<not> isCanonicalManifestName k \<or> k \<in> set seen \<or> \<not> admissible req (n + 1) v then None
         else okOf (walkObject req ?d2 n (k # seen)))"
      using wm v by (simp add: value_spec_def tokenValueEnd_def)
    show ?thesis
    proof (cases "skipSpace w")
      case Nil
      then have "parseMembers (input d) = None" using k u us v by (subst parseMembers.simps) simp
      with Nil wm2 show ?thesis by (simp add: members_spec_def walkObject_eq More_def Token_eof)
    next
      case (Cons e x)
      have xs: "length x < length (input d)"
        using us parse_shorter(1) [OF v] skipSpace_Cons_less [OF Cons] by simp
      have pm: "parseMembers (input d) = (if e = CHR ''}'' then Some ([(k, v)], x) else if e = CHR '',''
          then map_option (\<lambda>(ms, r). ((k, v) # ms, r)) (parseMembers x) else None)"
        using k u us v Cons xs by (subst parseMembers.simps) simp
      consider "e = CHR ''}''" | "e = CHR '',''" | "e \<noteq> CHR ''}''" "e \<noteq> CHR '',''" by blast
      then show ?thesis
      proof cases
        case 1
        with Cons wm2 pm Token_close(2) [of ?d2 x] show ?thesis
          by (simp add: members_spec_def walkObject_eq More_def)
      next
        case 2
        let ?d3 = "d\<lparr>input := x, tstate := ObjectKey\<rparr>"
        have "Token ?d2 = Token (?d2\<lparr>input := x, tstate := ObjectKey\<rparr>)"
          by (rule Token_separator [where c = e]) (use Cons 2 in simp_all)
        then have "walkObject req ?d2 n (k # seen) = walkMembers req ?d3 n (k # seen)"
          using Cons 2 by (simp add: walkObject_eq More_def walkMembers_def)
        with wm2 M [of ?d3 "k # seen"] xs pm 2 show ?thesis
          by (cases "parseMembers x") (auto simp: members_spec_def)
      next
        case 3
        with Cons have "Token ?d2 = Inl SyntaxError" by (intro Token_wrong(4)) simp_all
        with 3 wm2 pm show ?thesis
          by (simp add: members_spec_def walkObject_eq walkMembers_def)
      qed
    qed
  qed
qed

lemma walkMembers_step:
  assumes V: "\<And>d' n. length (input d') < length (input d) \<Longrightarrow> tokenValueAllowed (tstate d') \<Longrightarrow>
      okOf (walkValue req d' n) = value_spec req d' n"
    and M: "\<And>d' seen. length (input d') < length (input d) \<Longrightarrow> tstate d' = ObjectKey \<Longrightarrow>
      okOf (walkMembers req d' n seen) = members_spec req d' n seen"
    and st: "tstate d \<in> {ObjectStart, ObjectKey}"
  shows "okOf (walkMembers req d n seen) = members_spec req d n seen"
proof (cases "parseKey (input d)")
  case None
  have "okOf (walkMembers req d n seen) = None"
  proof (cases "skipSpace (input d)")
    case (Cons c t)
    consider "c = CHR 0x22" | "c = CHR ''}''" "tstate d = ObjectStart"
      | "c \<noteq> CHR 0x22" "c \<noteq> CHR ''}'' \<or> tstate d = ObjectKey" using st by auto
    then show ?thesis
    proof cases
      case 1
      with Cons None st Token_name [of d t] show ?thesis by (auto simp: walkMembers_def)
    next
      case 2
      with Cons Token_close(2) [of d t] show ?thesis by (simp add: walkMembers_def)
    next
      case 3
      with st Token_wrong(5,6) [OF Cons] have "Token d = Inl SyntaxError" by auto
      then show ?thesis by (simp add: walkMembers_def)
    qed
  qed (simp add: Token_eof walkMembers_def)
  moreover have "members_spec req d n seen = None"
    using None by (simp add: members_spec_def parseMembers.simps)
  ultimately show ?thesis by simp
next
  case (Some kt)
  obtain k t where k: "parseKey (input d) = Some (k, t)" using Some by (cases kt) auto
  obtain t0 where "skipSpace (input d) = CHR 0x22 # t0"
    using k by (auto simp: parseKey_def split: list.splits if_splits)
  then have tok: "Token d = Inr (NameToken k, d\<lparr>input := t, tstate := ObjectColon\<rparr>)"
    using st k Token_name [of d t0] by auto
  let ?d1 = "d\<lparr>input := t, tstate := ObjectColon\<rparr>"
  note ts = parseKey_shorter [OF k]
  show ?thesis
  proof (cases "\<exists>u. skipSpace t = CHR '':'' # u")
    case False
    then have "okOf (walkValue req ?d1 (n + 1)) = None"
      using Token_wrong(3) [of ?d1] Token_eof [of ?d1]
      by (cases "skipSpace t") (auto simp: walkValue_eq)
    then have "okOf (walkMembers req d n seen) = None"
      using tok by (cases "walkValue req ?d1 (n + 1)") (auto simp: walkMembers_def)
    moreover have "parseMembers (input d) = None"
      using k False by (subst parseMembers.simps) (auto split: list.splits)
    ultimately show ?thesis by (simp add: members_spec_def)
  next
    case True
    then obtain u where u: "skipSpace t = CHR '':'' # u" ..
    let ?d2 = "d\<lparr>input := u, tstate := ObjectValue\<rparr>"
    have us: "length u < length (input d)" using ts skipSpace_Cons_less [OF u] by simp
    have "walkValue req ?d1 (n + 1) = walkValue req (?d1\<lparr>input := u, tstate := ObjectValue\<rparr>) (n + 1)"
      by (rule walkValue_separator [OF _ disjI1]) (use u in simp_all)
    then have wv: "okOf (walkValue req ?d1 (n + 1)) = value_spec req ?d2 (n + 1)"
      using V [of ?d2 "n + 1"] us by (simp add: tokenValueAllowed_def)
    show ?thesis by (rule walkMembers_value [OF M st k tok u wv])
  qed
qed

lemma walk_spec:
  "(\<forall>n. tokenValueAllowed (tstate d) \<longrightarrow> okOf (walkValue req d n) = value_spec req d n) \<and>
   (\<forall>n. tstate d \<in> {ArrayStart, ArrayValue} \<longrightarrow> okOf (walkElems req d n) = elems_spec req d n) \<and>
   (\<forall>n seen. tstate d \<in> {ObjectStart, ObjectKey} \<longrightarrow>
      okOf (walkMembers req d n seen) = members_spec req d n seen)"
proof (induction d rule: measure_induct_rule [where f = "\<lambda>d. length (input d)"])
  case (less d)
  have V: "okOf (walkValue req d n) = value_spec req d n" if "tokenValueAllowed (tstate d)" for n
    by (rule walkValue_step [OF _ _ that]) (use less.IH in blast)+
  have "okOf (walkElems req d n) = elems_spec req d n" if "tstate d \<in> {ArrayStart, ArrayValue}" for n
  proof (rule walkElems_step)
    show "okOf (walkValue req d (n + 1)) = value_spec req d (n + 1)"
      by (rule V) (use that in \<open>auto simp: tokenValueAllowed_def\<close>)
  qed (use less.IH that in blast)+
  moreover have "okOf (walkMembers req d n seen) = members_spec req d n seen"
    if "tstate d \<in> {ObjectStart, ObjectKey}" for n seen
    by (rule walkMembers_step [OF _ _ that]) (use less.IH in blast)+
  ultimately show ?case using V by blast
qed

lemma walkValue_top:
  "okOf (walkValue req \<lparr>input = s, tstate = TopValue, tstack = []\<rparr> n) =
   (case parseValue s of
      Some (v, r) \<Rightarrow> if admissible req n v then Some \<lparr>input = r, tstate = TopValue, tstack = []\<rparr> else None
    | None \<Rightarrow> None)"
  using walk_spec [of "\<lparr>input = s, tstate = TopValue, tstack = []\<rparr>" req]
  by (auto simp: tokenValueAllowed_def value_spec_def tokenValueEnd_def split: option.split)

text \<open>
  C7. The name preflight decides a property of the document, not of its spelling: unless the
  input is blank, \<open>inspectObjectNames\<close> accepts exactly if the input begins with a well-formed
  JSON value that is nested at most 32 levels deep, in which no object repeats a decoded member
  name, and, for manifests, every name is canonical.
\<close>

theorem inspectObjectNames_iff:
  "inspectObjectNames doc req = Inr () \<longleftrightarrow>
     trimSpace doc = [] \<or> (\<exists>v r. parseValue doc = Some (v, r) \<and> admissible req 1 v)"
  using walkValue_top [of req doc 1]
  by (cases "walkValue req \<lparr>input = doc, tstate = TopValue, tstack = []\<rparr> 1")
    (auto simp: inspectObjectNames_def split: option.splits if_splits)

lemma inspect_admissible:
  "inspectObjectNames doc req = Inr () \<Longrightarrow> trimSpace doc \<noteq> [] \<Longrightarrow>
   \<exists>v r. parseValue doc = Some (v, r) \<and> admissible req 1 v"
  using walkValue_top [of req doc 1]
  by (cases "walkValue req \<lparr>input = doc, tstate = TopValue, tstack = []\<rparr> 1")
    (auto simp: inspectObjectNames_def split: option.splits if_splits)

lemma inspect_accepts:
  "parseValue doc = Some (v, r) \<Longrightarrow> admissible req 1 v \<Longrightarrow> inspectObjectNames doc req = Inr ()"
  using walkValue_top [of req doc 1]
  by (cases "walkValue req \<lparr>input = doc, tstate = TopValue, tstack = []\<rparr> 1")
    (auto simp: inspectObjectNames_def)

end
