(* ===== verification/Files.thy ===== *)
theory Files
  imports Go_Time Strict_Json
begin

text \<open>
  The file operations the documents are kept with. A file system maps paths to files; a path
  can also hold something that cannot be read. Every mutation takes the fault the operating
  system raises in it, if any. \<open>writeAtomic\<close> is \<open>internal/grant/atomic.go\<close>: the contents go
  to a temporary file that replaces the target by a rename, so a fault before the rename leaves
  the target as it was, and one after it reports an error although the target is replaced.
\<close>

datatype node = Regular string | Unreadable

type_synonym fs = "string \<Rightarrow> node option"

datatype io_error = NotExist | ReadFailure | WriteFailure

definition ReadFile :: "string \<Rightarrow> fs \<Rightarrow> io_error + string" where
  "ReadFile path fs =
     (case fs path of
        None \<Rightarrow> Inl NotExist
      | Some Unreadable \<Rightarrow> Inl ReadFailure
      | Some (Regular s) \<Rightarrow> Inr s)"

datatype write_step =
    MkdirAll | CreateTemp | WriteTemp | ChmodTemp | SyncTemp | CloseTemp | Rename
  | OpenDir | SyncDir | CloseDir

definition writeAtomic :: "write_step option \<Rightarrow> string \<Rightarrow> string \<Rightarrow> fs \<Rightarrow> (io_error + unit) \<times> fs" where
  "writeAtomic fault path contents fs =
     (let replaced = fs(path \<mapsto> Regular contents) in
      case fault of
        None \<Rightarrow> (Inr (), replaced)
      | Some step \<Rightarrow> (Inl WriteFailure, if step \<in> {OpenDir, SyncDir, CloseDir} then replaced else fs))"

definition removeFile :: "bool \<Rightarrow> string \<Rightarrow> fs \<Rightarrow> (io_error + unit) \<times> fs" where
  "removeFile fault path fs =
     (if fs path = None then (Inl NotExist, fs)
      else if fault then (Inl WriteFailure, fs)
      else (Inr (), fs(path := None)))"

lemma ReadFile_written [simp]: "ReadFile path (fs(path \<mapsto> Regular s)) = Inr s"
  by (simp add: ReadFile_def)

text \<open>
  What the callers of an atomic write rely on. All or nothing: it either leaves every file alone
  and reports an error, or sets exactly its target; without a fault it succeeds. The packages of
  the program have several such functions that differ in the faults they report.
\<close>

locale atomic_writer =
  fixes write_file :: "write_step option \<Rightarrow> string \<Rightarrow> string \<Rightarrow> fs \<Rightarrow> (io_error + unit) \<times> fs"
  assumes all_or_nothing:
      "snd (write_file fault path contents fs) = fs(path \<mapsto> Regular contents) \<or>
       snd (write_file fault path contents fs) = fs \<and>
         (\<exists>e. fst (write_file fault path contents fs) = Inl e)"
    and no_fault: "write_file None path contents fs = (Inr (), fs(path \<mapsto> Regular contents))"
begin

lemma written:
  "fst (write_file fault path contents fs) = Inr () \<Longrightarrow>
   snd (write_file fault path contents fs) = fs(path \<mapsto> Regular contents)"
  using all_or_nothing [of fault path contents fs] by auto

lemma read_back:
  "fst (write_file fault path contents fs) = Inr () \<Longrightarrow>
   ReadFile path (snd (write_file fault path contents fs)) = Inr contents"
  by (simp add: written)

lemma other_files: "p \<noteq> path \<Longrightarrow> snd (write_file fault path contents fs) p = fs p"
  using all_or_nothing [of fault path contents fs] by auto

end

interpretation grant_writer: atomic_writer writeAtomic
proof
  show "snd (writeAtomic fault path contents fs) = fs(path \<mapsto> Regular contents) \<or>
    snd (writeAtomic fault path contents fs) = fs \<and>
      (\<exists>e. fst (writeAtomic fault path contents fs) = Inl e)" for fault path contents fs
    by (cases fault) (auto simp: writeAtomic_def Let_def)
qed (simp add: writeAtomic_def Let_def)

lemmas writeAtomic_cases = grant_writer.all_or_nothing

lemma writeAtomic_ok:
  "fst (writeAtomic fault path contents fs) = Inr () \<Longrightarrow>
   fault = None \<and> snd (writeAtomic fault path contents fs) = fs(path \<mapsto> Regular contents)"
  by (cases fault) (auto simp: writeAtomic_def Let_def)

declare grant_writer.no_fault [simp]

section \<open>Documents\<close>

text \<open>
  How a strict document is read: bounded in size, no duplicate names, one value with known
  fields, and nothing that \<open>Decoder.More\<close> sees behind it.
\<close>

datatype doc_error = SizeError | NamesError strict_error | DecodeError | TrailingError

definition readStrict :: "nat \<Rightarrow> 'r field list \<Rightarrow> 'r \<Rightarrow> string \<Rightarrow> doc_error + 'r" where
  "readStrict limit flds zero contents =
     (if contents = [] \<or> limit < length contents then Inl SizeError
      else case RejectDuplicateObjectNames contents of
        Inl e \<Rightarrow> Inl (NamesError e)
      | Inr _ \<Rightarrow>
          (case decodeFirst True flds contents zero of
             None \<Rightarrow> Inl DecodeError
           | Some (r, rest) \<Rightarrow> if moreAfter rest then Inl TrailingError else Inr r))"

text \<open>A rendered object with distinct names and shallow nesting is read back.\<close>

definition rendered :: "json \<Rightarrow> string" where
  "rendered v = render v @ [CHR 0x0A]"

lemma readStrict_rendered:
  assumes "wf_json v" "admissible False 1 v" "decodeStruct True flds v zero = Some r"
    and "length (rendered v) \<le> limit"
  shows "readStrict limit flds zero (rendered v) = Inr r"
proof -
  have p: "parseValue (rendered v) = Some (v, [CHR 0x0A])"
    unfolding rendered_def by (rule parseValue_render [OF assms(1)]) simp
  have n: "RejectDuplicateObjectNames (rendered v) = Inr ()"
    unfolding RejectDuplicateObjectNames_def by (rule inspect_accepts [OF p assms(2)])
  have d: "decodeFirst True flds (rendered v) zero = Some (r, [CHR 0x0A])"
    using p assms(3) by (simp add: decodeFirst_def)
  show ?thesis
    using n d assms(4) by (simp add: readStrict_def) (simp add: rendered_def)
qed

end
