(* ===== verification/Grant.thy ===== *)
theory Grant
  imports Files
begin

text \<open>
  \<open>internal/grant\<close>: durations and timestamps of authorization leases (\<open>duration.go\<close>), the host
  policy document (\<open>policy.go\<close>), the grant status machine (\<open>state.go\<close>), the durable clock
  observation (\<open>clock.go\<close>) and the blocked-clock document (\<open>blocked.go\<close>), and the expiry
  transaction (\<open>expire.go\<close>). Durations are \<open>int64\<close> nanoseconds with the wrap-around of their
  arithmetic written out.
\<close>

section \<open>Durations\<close>

definition DefaultAuthorizationDuration :: duration where
  "DefaultAuthorizationDuration = 30 * 24 * Hour"

definition DefaultMaximumAuthorizationDuration :: duration where
  "DefaultMaximumAuthorizationDuration = 365 * 24 * Hour"

definition ImplementationMaximumAuthorizationDuration :: duration where
  "ImplementationMaximumAuthorizationDuration = 100 * 365 * 24 * Hour"

datatype duration_error =
    DurationEmpty | DurationFractional | DurationNoUnit | DurationNotInteger
  | DurationOverflow | DurationNotPositive | DurationBadUnit | DurationNotWholeSeconds
  | TimestampZero | TimestampEmpty | TimestampNotUTC | TimestampSyntax
  | AcceptedAtZero | NotAfterOverflow | DurationExceedsMaximum

definition unitDuration :: "char \<Rightarrow> duration option" where
  "unitDuration u =
     (if u = CHR ''d'' then Some (24 * Hour) else if u = CHR ''h'' then Some Hour
      else if u = CHR ''m'' then Some Minute else if u = CHR ''s'' then Some Second else None)"

definition ParseAccessDuration :: "string \<Rightarrow> duration_error + duration" where
  "ParseAccessDuration value =
     (let trimmed = trimSpace value in
      if trimmed = [] then Inl DurationEmpty
      else if containsAny trimmed ''.eE+/'' then Inl DurationFractional
      else if length trimmed < 2 then Inl DurationNoUnit
      else let u = last trimmed; number = butlast trimmed in
      if number = [] \<or> hd number = CHR ''-'' then Inl DurationNotInteger
      else if \<not> list_all isDigit number then Inl DurationNotInteger
      else let quantity = int (decimal 0 number) in
      if 2 ^ 63 \<le> quantity then Inl DurationOverflow
      else if quantity = 0 then Inl DurationNotPositive
      else case unitDuration u of
        None \<Rightarrow> Inl DurationBadUnit
      | Some unit \<Rightarrow>
          if ImplementationMaximumAuthorizationDuration div unit < quantity then Inl DurationOverflow
          else let parsed = int64 (quantity * unit) in
          if parsed mod Second \<noteq> 0 then Inl DurationNotWholeSeconds else Inr parsed)"

definition Seconds :: "duration \<Rightarrow> duration_error + int" where
  "Seconds d =
     (if d \<le> 0 then Inl DurationNotPositive
      else if d mod Second \<noteq> 0 then Inl DurationNotWholeSeconds
      else if ImplementationMaximumAuthorizationDuration < d then Inl DurationOverflow
      else Inr (d div Second))"

definition DurationFromSeconds :: "int \<Rightarrow> duration_error + duration" where
  "DurationFromSeconds seconds =
     (if seconds \<le> 0 then Inl DurationNotPositive
      else if ImplementationMaximumAuthorizationDuration div Second < seconds then Inl DurationOverflow
      else Inr (int64 (seconds * Second)))"

definition FormatUTC :: "time \<Rightarrow> duration_error + string" where
  "FormatUTC t = (if isZeroTime t then Inl TimestampZero else Inr (formatUTC t))"

text \<open>
  A value that ends with \<open>Z\<close> and parses is in UTC; the second attempt with the layout RFC3339
  accepts the same texts, since a fraction is optional when parsing either.
\<close>

definition ParseUTC :: "string \<Rightarrow> duration_error + time" where
  "ParseUTC value =
     (if trimSpace value = [] then Inl TimestampEmpty
      else if \<not> hasSuffix value ''Z'' then Inl TimestampNotUTC
      else case parseRFC3339 value of None \<Rightarrow> Inl TimestampSyntax | Some t \<Rightarrow> Inr t)"

definition AuthorizationNotAfter :: "time \<Rightarrow> int \<Rightarrow> duration_error + time \<times> string" where
  "AuthorizationNotAfter acceptedAt durationSeconds =
     (case DurationFromSeconds durationSeconds of
        Inl e \<Rightarrow> Inl e
      | Inr d \<Rightarrow>
          if isZeroTime acceptedAt then Inl AcceptedAtZero
          else let notAfter = timeAdd acceptedAt d in
          if \<not> acceptedAt < notAfter then Inl NotAfterOverflow
          else (case FormatUTC notAfter of Inl e \<Rightarrow> Inl e | Inr encoded \<Rightarrow> Inr (notAfter, encoded)))"

definition OpenSSHExpiryTime :: "time \<Rightarrow> duration_error + string" where
  "OpenSSHExpiryTime notAfter =
     (if isZeroTime notAfter then Inl TimestampZero
      else Inr (case civil (notAfter div nanosPerDay) of (y, m, d) \<Rightarrow>
        let s = nat (notAfter mod nanosPerDay) div 1000000000
        in appendInt y 4 @ appendInt m 2 @ appendInt d 2 @
           dec 2 (s div 3600) @ dec 2 (s mod 3600 div 60) @ dec 2 (s mod 60) @ ''Z''))"

section \<open>Host policy\<close>

definition PolicyKind :: string where "PolicyKind = ''warptweet.host-authorization-policy''"
definition PolicySchemaVersion :: int where "PolicySchemaVersion = 1"
definition maxPolicyBytes :: nat where "maxPolicyBytes = 8 * 1024"

record HostPolicy =
  hpKind :: string
  hpSchemaVersion :: int
  hpDefault :: int
  hpMaximum :: int

datatype policy_error =
    PolicySchema | PolicyDefault duration_error | PolicyMaximum duration_error | PolicyOrder
  | PolicyRead io_error | PolicyDocument doc_error | PolicyWrite io_error
  | PolicyDuration duration_error

definition InstalledDefault :: HostPolicy where
  "InstalledDefault =
     \<lparr>hpKind = PolicyKind, hpSchemaVersion = PolicySchemaVersion,
      hpDefault = DefaultAuthorizationDuration div Second,
      hpMaximum = DefaultMaximumAuthorizationDuration div Second\<rparr>"

definition Validate :: "HostPolicy \<Rightarrow> policy_error + unit" where
  "Validate p =
     (if hpKind p \<noteq> PolicyKind \<or> hpSchemaVersion p \<noteq> PolicySchemaVersion then Inl PolicySchema
      else case DurationFromSeconds (hpDefault p) of
        Inl e \<Rightarrow> Inl (PolicyDefault e)
      | Inr _ \<Rightarrow>
          (case DurationFromSeconds (hpMaximum p) of
             Inl e \<Rightarrow> Inl (PolicyMaximum e)
           | Inr _ \<Rightarrow> if hpMaximum p < hpDefault p then Inl PolicyOrder else Inr ()))"

definition ResolveDuration :: "HostPolicy \<Rightarrow> int \<Rightarrow> policy_error + int" where
  "ResolveDuration p requestedSeconds =
     (case Validate p of
        Inl e \<Rightarrow> Inl e
      | Inr _ \<Rightarrow>
          let seconds = (if requestedSeconds = 0 then hpDefault p else requestedSeconds) in
          if seconds \<le> 0 then Inl (PolicyDuration DurationNotPositive)
          else if hpMaximum p < seconds then Inl (PolicyDuration DurationExceedsMaximum)
          else (case DurationFromSeconds seconds of
                  Inl e \<Rightarrow> Inl (PolicyDuration e) | Inr _ \<Rightarrow> Inr seconds))"

definition policyFields :: "HostPolicy field list" where
  "policyFields =
     [(''kind'', setStr (\<lambda>x. hpKind_update (\<lambda>_. x))),
      (''schema_version'', setInt (\<lambda>x. hpSchemaVersion_update (\<lambda>_. x))),
      (''default_authorization_duration_seconds'', setInt (\<lambda>x. hpDefault_update (\<lambda>_. x))),
      (''maximum_authorization_duration_seconds'', setInt (\<lambda>x. hpMaximum_update (\<lambda>_. x)))]"

definition policyJSON :: "HostPolicy \<Rightarrow> json" where
  "policyJSON p =
     JObj [(''kind'', JStr (hpKind p)),
       (''schema_version'', JNum (showInt (hpSchemaVersion p))),
       (''default_authorization_duration_seconds'', JNum (showInt (hpDefault p))),
       (''maximum_authorization_duration_seconds'', JNum (showInt (hpMaximum p)))]"

definition zeroPolicy :: HostPolicy where
  "zeroPolicy = \<lparr>hpKind = [], hpSchemaVersion = 0, hpDefault = 0, hpMaximum = 0\<rparr>"

definition LoadPolicy :: "string \<Rightarrow> fs \<Rightarrow> policy_error + HostPolicy" where
  "LoadPolicy path fs =
     (case ReadFile path fs of
        Inl e \<Rightarrow> if e = NotExist then Inr InstalledDefault else Inl (PolicyRead e)
      | Inr contents \<Rightarrow>
          (case readStrict maxPolicyBytes policyFields zeroPolicy contents of
             Inl e \<Rightarrow> Inl (PolicyDocument e)
           | Inr p \<Rightarrow> (case Validate p of Inl e \<Rightarrow> Inl e | Inr _ \<Rightarrow> Inr p)))"

definition WritePolicy :: "write_step option \<Rightarrow> string \<Rightarrow> HostPolicy \<Rightarrow> fs \<Rightarrow> (policy_error + unit) \<times> fs" where
  "WritePolicy fault path p fs =
     (case Validate p of
        Inl e \<Rightarrow> (Inl e, fs)
      | Inr _ \<Rightarrow>
          (case writeAtomic fault path (rendered (policyJSON p)) fs of
             (Inl e, fs') \<Rightarrow> (Inl (PolicyWrite e), fs')
           | (Inr _, fs') \<Rightarrow> (Inr (), fs')))"

section \<open>Status machine\<close>

definition StatusEnrollmentPending :: string where "StatusEnrollmentPending = ''enrollment_pending''"
definition StatusActive :: string where "StatusActive = ''active''"
definition StatusExpirationPending :: string where "StatusExpirationPending = ''expiration_pending''"
definition StatusExpired :: string where "StatusExpired = ''expired''"
definition StatusRotationPending :: string where "StatusRotationPending = ''rotation_pending''"
definition StatusRevocationPending :: string where "StatusRevocationPending = ''revocation_pending''"
definition StatusRevoked :: string where "StatusRevoked = ''revoked''"

lemmas status_defs = StatusEnrollmentPending_def StatusActive_def StatusExpirationPending_def
  StatusExpired_def StatusRotationPending_def StatusRevocationPending_def StatusRevoked_def

definition knownStatuses :: "string list" where
  "knownStatuses =
     [StatusEnrollmentPending, StatusActive, StatusExpirationPending, StatusExpired,
      StatusRotationPending, StatusRevocationPending, StatusRevoked]"

definition Known :: "string \<Rightarrow> bool" where
  "Known status \<longleftrightarrow> status \<in> set knownStatuses"

definition Terminal :: "string \<Rightarrow> bool" where
  "Terminal status \<longleftrightarrow> status = StatusExpired \<or> status = StatusRevoked"

definition CanTransition :: "string \<Rightarrow> string \<Rightarrow> bool" where
  "CanTransition from to =
     (if from = to then Known from
      else if from = StatusEnrollmentPending then to = StatusActive
      else if from = StatusActive
      then to = StatusExpirationPending \<or> to = StatusRotationPending \<or> to = StatusRevocationPending
      else if from = StatusExpirationPending then to = StatusExpired \<or> to = StatusRevocationPending
      else if from = StatusRotationPending
      then to = StatusActive \<or> to = StatusRevocationPending \<or> to = StatusExpirationPending
      else if from = StatusRevocationPending then to = StatusRevoked
      else False)"

datatype transition_error = CannotTransition string string

definition AuthorizeTransition :: "string \<Rightarrow> string \<Rightarrow> transition_error + unit" where
  "AuthorizeTransition from to =
     (if CanTransition from to then Inr () else Inl (CannotTransition from to))"

section \<open>Clock observation\<close>










section \<open>Blocked clock\<close>

definition BlockedClockKind :: string where "BlockedClockKind = ''warptweet.host-blocked-clock''"
definition BlockedClockSchemaVersion :: int where "BlockedClockSchemaVersion = 1"

record BlockedClock =
  bcKind :: string
  bcSchemaVersion :: int
  bcReason :: string
  bcBlockedAt :: string

definition blockedFields :: "BlockedClock field list" where
  "blockedFields =
     [(''kind'', setStr (\<lambda>x. bcKind_update (\<lambda>_. x))),
      (''schema_version'', setInt (\<lambda>x. bcSchemaVersion_update (\<lambda>_. x))),
      (''reason'', setStr (\<lambda>x. bcReason_update (\<lambda>_. x))),
      (''blocked_at'', setStr (\<lambda>x. bcBlockedAt_update (\<lambda>_. x)))]"

definition blockedJSON :: "BlockedClock \<Rightarrow> json" where
  "blockedJSON b =
     JObj [(''kind'', JStr (bcKind b)), (''schema_version'', JNum (showInt (bcSchemaVersion b))),
       (''reason'', JStr (bcReason b)), (''blocked_at'', JStr (bcBlockedAt b))]"

datatype blocked_error = BlockedRead io_error | BlockedSyntax | BlockedSchema

definition LoadBlockedClock :: "string \<Rightarrow> fs \<Rightarrow> blocked_error + BlockedClock" where
  "LoadBlockedClock path fs =
     (case ReadFile path fs of
        Inl e \<Rightarrow> Inl (BlockedRead e)
      | Inr contents \<Rightarrow>
          (case unmarshal blockedFields contents
                  \<lparr>bcKind = [], bcSchemaVersion = 0, bcReason = [], bcBlockedAt = []\<rparr> of
             None \<Rightarrow> Inl BlockedSyntax
           | Some b \<Rightarrow>
               if bcKind b \<noteq> BlockedClockKind \<or> bcSchemaVersion b \<noteq> BlockedClockSchemaVersion
               then Inl BlockedSchema else Inr b))"

definition WriteBlockedClock ::
  "write_step option \<Rightarrow> string \<Rightarrow> string \<Rightarrow> time \<Rightarrow> fs \<Rightarrow> (io_error + unit) \<times> fs" where
  "WriteBlockedClock fault path reason now fs =
     (let encoded = (case FormatUTC now of Inl _ \<Rightarrow> formatUTC now | Inr s \<Rightarrow> s);
          blocked = \<lparr>bcKind = BlockedClockKind, bcSchemaVersion = BlockedClockSchemaVersion,
                     bcReason = reason, bcBlockedAt = encoded\<rparr>
      in writeAtomic fault path (rendered (blockedJSON blocked)) fs)"

definition ClearBlockedClock :: "bool \<Rightarrow> string \<Rightarrow> fs \<Rightarrow> (io_error + unit) \<times> fs" where
  "ClearBlockedClock fault path fs =
     (case removeFile fault path fs of
        (Inl e, fs') \<Rightarrow> if e = NotExist then (Inr (), fs') else (Inl e, fs')
      | (Inr _, fs') \<Rightarrow> (Inr (), fs'))"

definition ClockIsBlocked :: "string \<Rightarrow> fs \<Rightarrow> bool" where
  "ClockIsBlocked path fs =
     (case LoadBlockedClock path fs of Inr _ \<Rightarrow> True | Inl e \<Rightarrow> e \<noteq> BlockedRead NotExist)"

section \<open>Expiry\<close>

record ExpirePlan =
  epClientID :: string
  epGeneration :: string
  epPublicKey :: string
  epPublicKeySHA256 :: string
  epStatus :: string
  epNotAfter :: time
  epNow :: time

text \<open>
  The side effects of an expiry on a host state \<open>'s\<close>; a missing function is \<open>None\<close>. Each
  returns whether it succeeded and the state it leaves.
\<close>

record 's ExpireOps =
  RemoveAuthorization :: "(string \<Rightarrow> 's \<Rightarrow> bool \<times> 's) option"
  VerifyAuthorizationGone :: "(string \<Rightarrow> 's \<Rightarrow> bool \<times> 's) option"
  TerminateSession :: "(string \<Rightarrow> string \<Rightarrow> string \<Rightarrow> 's \<Rightarrow> bool \<times> 's) option"
  VerifySessionGone :: "(string \<Rightarrow> string \<Rightarrow> string \<Rightarrow> 's \<Rightarrow> bool \<times> 's) option"
  BurnManagementToken :: "('s \<Rightarrow> bool \<times> 's) option"

datatype expire_error =
    ExpireMissingFields | ExpireMissingTimes | ExpireNotDue | ExpireStatus
  | ExpireTransition transition_error | ExpireIncomplete
  | RemoveFailed | TerminateFailed | AuthorizationEffective | SessionEffective | BurnFailed

definition ReadyToExpire :: "time \<Rightarrow> time \<Rightarrow> bool" where
  "ReadyToExpire notAfter now =
     (if isZeroTime notAfter \<or> isZeroTime now then False else \<not> now < notAfter)"

definition ValidateExpirePlan :: "ExpirePlan \<Rightarrow> expire_error + unit" where
  "ValidateExpirePlan plan =
     (if epClientID plan = [] \<or> epGeneration plan = [] \<or> epPublicKey plan = [] \<or> epPublicKeySHA256 plan = []
      then Inl ExpireMissingFields
      else if isZeroTime (epNow plan) \<or> isZeroTime (epNotAfter plan) then Inl ExpireMissingTimes
      else if \<not> ReadyToExpire (epNotAfter plan) (epNow plan) \<and> epStatus plan \<noteq> StatusExpirationPending
      then Inl ExpireNotDue
      else if epStatus plan \<in> {StatusActive, StatusExpirationPending, StatusRotationPending} then Inr ()
      else Inl ExpireStatus)"

definition runOps ::
  "(('s \<Rightarrow> bool \<times> 's) \<times> expire_error) list \<Rightarrow> 's \<Rightarrow> (expire_error + unit) \<times> 's" where
  "runOps ops s =
     foldl (\<lambda>(r, s) (f, e). case r of Inl e' \<Rightarrow> (Inl e', s)
              | Inr _ \<Rightarrow> (case f s of (ok, s') \<Rightarrow> (if ok then Inr () else Inl e, s')))
       (Inr (), s) ops"

definition ExecuteExpire :: "ExpirePlan \<Rightarrow> 's ExpireOps \<Rightarrow> 's \<Rightarrow> (expire_error + unit) \<times> 's" where
  "ExecuteExpire plan ops s =
     (case ValidateExpirePlan plan of
        Inl e \<Rightarrow> (Inl e, s)
      | Inr _ \<Rightarrow>
      case AuthorizeTransition (epStatus plan) StatusExpirationPending of
        Inl e \<Rightarrow> (Inl (ExpireTransition e), s)
      | Inr _ \<Rightarrow>
      case (RemoveAuthorization ops, TerminateSession ops, VerifyAuthorizationGone ops,
            VerifySessionGone ops, BurnManagementToken ops) of
        (Some remove, Some term, Some authGone, Some sessGone, Some burn) \<Rightarrow>
          runOps
            [(remove (epPublicKey plan), RemoveFailed),
             (term (epClientID plan) [] [], TerminateFailed),
             (authGone (epPublicKey plan), AuthorizationEffective),
             (sessGone (epClientID plan) [] [], SessionEffective),
             (burn, BurnFailed)] s
      | _ \<Rightarrow> (Inl ExpireIncomplete, s))"

section \<open>Durations and timestamps\<close>

lemmas duration_consts = Second_def Minute_def Hour_def ImplementationMaximumAuthorizationDuration_def
  DefaultAuthorizationDuration_def DefaultMaximumAuthorizationDuration_def

lemma DurationFromSeconds_eq:
  "DurationFromSeconds s =
     (if s \<le> 0 then Inl DurationNotPositive else if 3153600000 < s then Inl DurationOverflow
      else Inr (s * Second))"
  using int64_id [of "s * 1000000000"]
  by (auto simp: DurationFromSeconds_def duration_consts)

lemma unitDuration_iff:
  "unitDuration u = Some unit \<longleftrightarrow>
     (u, unit) \<in> {(CHR ''d'', 86400000000000), (CHR ''h'', 3600000000000), (CHR ''m'', 60000000000),
       (CHR ''s'', 1000000000)}"
  by (auto simp: unitDuration_def duration_consts split: if_splits)

lemma unitDuration_cases:
  "unitDuration u = Some unit \<Longrightarrow>
   unit \<in> {86400000000000, 3600000000000, 60000000000, 1000000000} \<and> \<not> isDigit u \<and> u \<notin> set ''.eE+/''"
  by (auto simp: unitDuration_iff isDigit_iff)

lemma ParseAccessDuration_unit_iff:
  "ParseAccessDuration v = Inr d \<longleftrightarrow>
     (\<exists>ds u unit. trimSpace v = ds @ [u] \<and> ds \<noteq> [] \<and> list_all isDigit ds \<and>
        unitDuration u = Some unit \<and> d = int (decimal 0 ds) * unit \<and>
        0 < d \<and> d \<le> ImplementationMaximumAuthorizationDuration)"
    (is "?L \<longleftrightarrow> ?R")
proof
  assume ?L
  let ?t = "trimSpace v"
  from \<open>?L\<close> obtain unit where l: "2 \<le> length ?t" "list_all isDigit (butlast ?t)"
    and q: "int (decimal 0 (butlast ?t)) \<noteq> 0" "unitDuration (last ?t) = Some unit"
      "\<not> ImplementationMaximumAuthorizationDuration div unit < int (decimal 0 (butlast ?t))"
      "d = int64 (int (decimal 0 (butlast ?t)) * unit)"
    by (auto simp: ParseAccessDuration_def Let_def split: if_splits option.splits)
  let ?q = "int (decimal 0 (butlast ?t))"
  have b: "0 < ?q * unit" "?q * unit \<le> ImplementationMaximumAuthorizationDuration"
    using q(1,3) unitDuration_cases [OF q(2)] by (auto simp: duration_consts)
  then have "d = ?q * unit"
    using q(4) int64_id [of "?q * unit"] by (simp add: duration_consts)
  moreover have "?t = butlast ?t @ [last ?t]" "butlast ?t \<noteq> []"
    using l(1) by (cases ?t; auto)+
  ultimately show ?R using b l(2) q(2) by blast
next
  assume ?R
  then obtain ds u unit where t: "trimSpace v = ds @ [u]" "ds \<noteq> []" "list_all isDigit ds"
    and u: "unitDuration u = Some unit" and d: "d = int (decimal 0 ds) * unit" "0 < d"
      "d \<le> ImplementationMaximumAuthorizationDuration" by blast
  note unit = unitDuration_cases [OF u]
  have digits: "\<not> containsAny (ds @ [u]) ''.eE+/''" "hd ds \<noteq> CHR ''-''"
    using t(2,3) unit by (auto simp: containsAny_def list_all_iff isDigit_iff)
      (cases ds; auto simp: isDigit_iff)+
  have q: "0 < int (decimal 0 ds)" "int (decimal 0 ds) < 2 ^ 63"
    "int (decimal 0 ds) \<le> ImplementationMaximumAuthorizationDuration div unit"
    "int64 d = d" "d mod Second = 0"
    using unit d int64_id [of d] by (auto simp: duration_consts)
  have "2 \<le> length (ds @ [u])" using t(2) by (cases ds) auto
  then show ?L
    using t digits u q d(1) by (simp add: ParseAccessDuration_def Let_def)
qed

text \<open>
  C8. \<open>ParseAccessDuration\<close> accepts exactly the trimmed texts made of decimal digits and one of
  the units \<open>d\<close>, \<open>h\<close>, \<open>m\<close>, \<open>s\<close> (86400, 3600, 60 and 1 seconds) whose product is positive
  and at most 100 years of 365 days, and returns that product in nanoseconds: the 64-bit
  multiplication never wraps.
\<close>

theorem parse_access_duration_iff:
  "ParseAccessDuration v = Inr d \<longleftrightarrow>
     (\<exists>ds u unit. trimSpace v = ds @ [u] \<and> ds \<noteq> [] \<and> list_all isDigit ds \<and>
        (u, unit) \<in> {(CHR ''d'', 86400), (CHR ''h'', 3600), (CHR ''m'', 60), (CHR ''s'', 1)} \<and>
        d = int (decimal 0 ds) * unit * 1000000000 \<and>
        0 < d \<and> d \<le> 100 * 365 * 86400 * 1000000000)"
    (is "?L \<longleftrightarrow> ?S")
proof -
  let ?R = "\<exists>ds u unit. trimSpace v = ds @ [u] \<and> ds \<noteq> [] \<and> list_all isDigit ds \<and>
        unitDuration u = Some unit \<and> d = int (decimal 0 ds) * unit \<and>
        0 < d \<and> d \<le> ImplementationMaximumAuthorizationDuration"
  have "?L \<longleftrightarrow> ?R" by (rule ParseAccessDuration_unit_iff)
  also have "?R \<longleftrightarrow> ?S"
    by (auto simp: unitDuration_iff duration_consts)
  finally show ?thesis .
qed

lemma ParseUTC_formatUTC:
  assumes "plain_time t" shows "ParseUTC (formatUTC t) = Inr t"
proof -
  have p: "parseRFC3339 (formatUTC t) = Some t" by (rule parse_format [OF assms])
  obtain y m d where c: "civil (t div nanosPerDay) = (y, m, d)" by (metis prod_cases3)
  have y: "0 \<le> y" "y < 10 ^ 4" using assms c by (simp_all add: plain_time_def timeYear_def)
  obtain rest where r: "formatUTC t = dec 4 (nat y) @ rest @ ''Z''"
    using c y by (simp add: formatUTC_def appendInt_nonneg Let_def)
  obtain c u where cu: "dec 4 (nat y) = c # u"
    using length_dec [of 4 "nat y"] by (cases "dec 4 (nat y)") auto
  have "isDigit c" using dec_digits [of c 4 "nat y"] cu by simp
  then have "visible (hd (formatUTC t))" "visible (last (formatUTC t))"
    using visible_digit by (simp_all add: r cu visible_def)
  then have "trimSpace (formatUTC t) = formatUTC t" by (rule trimSpace_visible)
  moreover have "formatUTC t \<noteq> []" "hasSuffix (formatUTC t) ''Z''"
    by (auto simp: r hasSuffix_iff)
  ultimately show ?thesis using p by (simp add: ParseUTC_def)
qed


lemma Validate_ok_iff:
  "Validate p = Inr () \<longleftrightarrow> hpKind p = PolicyKind \<and> hpSchemaVersion p = PolicySchemaVersion \<and>
     0 < hpDefault p \<and> hpDefault p \<le> hpMaximum p \<and> hpMaximum p \<le> 3153600000"
  by (auto simp: Validate_def DurationFromSeconds_eq)

lemma ResolveDuration_ok_iff:
  "ResolveDuration p requested = Inr seconds \<longleftrightarrow>
     Validate p = Inr () \<and> seconds = (if requested = 0 then hpDefault p else requested) \<and>
     0 < seconds \<and> seconds \<le> hpMaximum p"
  using Validate_ok_iff [of p]
  by (cases "Validate p") (auto simp: ResolveDuration_def DurationFromSeconds_eq Let_def)

definition plausible :: "time \<Rightarrow> bool" where
  "plausible t \<longleftrightarrow> 2020 \<le> timeYear t \<and> timeYear t \<le> 2200"

lemma plausible_range:
  "plausible t \<Longrightarrow> 736000 * nanosPerDay \<le> t \<and> t < 806000 * nanosPerDay"
  using timeYear_bounds [of t] by (simp add: plausible_def nanosPerDay_def)

lemma plain_range: "0 \<le> t \<Longrightarrow> t < 1000000 * nanosPerDay \<Longrightarrow> plain_time t"
  using timeYear_bounds [of t] by (cases "1 \<le> timeYear t") (simp_all add: plain_time_def nanosPerDay_def)

text \<open>
  C9. A granted lease ends exactly when it should and says so on the wire: for a duration that
  the host policy resolved and an acceptance time that the clock check lets through (the years
  2020 to 2200), the duration is positive and at most the policy maximum, the authorization ends
  that many seconds after the acceptance time, with no wrap-around, and the timestamp sent with
  it parses back to that end.
\<close>

theorem lease_end_exact:
  assumes "ResolveDuration p requested = Inr seconds" and "plausible acceptedAt"
  shows "0 < seconds \<and> seconds \<le> hpMaximum p \<and>
    seconds = (if requested = 0 then hpDefault p else requested) \<and>
    (\<exists>encoded. AuthorizationNotAfter acceptedAt seconds = Inr (acceptedAt + seconds * Second, encoded) \<and>
       ParseUTC encoded = Inr (acceptedAt + seconds * Second))"
proof -
  let ?t = "acceptedAt + seconds * Second"
  have s: "0 < seconds" "seconds \<le> 3153600000" "seconds \<le> hpMaximum p"
    "seconds = (if requested = 0 then hpDefault p else requested)"
    using assms(1) by (auto simp: ResolveDuration_ok_iff Validate_ok_iff)
  have r: "736000 * nanosPerDay \<le> acceptedAt" "acceptedAt < 806000 * nanosPerDay"
    using plausible_range [OF assms(2)] by simp_all
  have d: "DurationFromSeconds seconds = Inr (seconds * Second)"
    using s by (simp add: DurationFromSeconds_eq)
  have add: "timeAdd acceptedAt (seconds * Second) = ?t"
    using r s by (intro timeAdd_exact) (simp_all add: maxSeconds_def Second_def nanosPerDay_def)
  have "plain_time ?t" using r s by (intro plain_range) (simp_all add: Second_def nanosPerDay_def)
  then have "ParseUTC (formatUTC ?t) = Inr ?t" by (rule ParseUTC_formatUTC)
  moreover have "AuthorizationNotAfter acceptedAt seconds = Inr (?t, formatUTC ?t)"
    using d add r s(1)
    by (simp add: AuthorizationNotAfter_def FormatUTC_def isZeroTime_def nanosPerDay_def Second_def Let_def)
  ultimately show ?thesis using s by blast
qed

theorem lease_end_exact_witness:
  "\<exists>encoded. AuthorizationNotAfter (738000 * nanosPerDay) 3600 =
      Inr (738000 * nanosPerDay + 3600 * Second, encoded) \<and>
    ParseUTC encoded = Inr (738000 * nanosPerDay + 3600 * Second)"
proof -
  have "ResolveDuration InstalledDefault 3600 = Inr 3600" "plausible (738000 * nanosPerDay)"
    by code_simp+
  from lease_end_exact [OF this] show ?thesis by blast
qed

lemma policy_rendered:
  assumes "Validate p = Inr ()"
  shows "readStrict maxPolicyBytes policyFields zeroPolicy (rendered (policyJSON p)) = Inr p"
proof (rule readStrict_rendered)
  have v: "hpKind p = PolicyKind" "hpSchemaVersion p = 1" "0 < hpDefault p" "hpDefault p \<le> 3153600000"
    "0 < hpMaximum p" "hpMaximum p \<le> 3153600000"
    using assms by (auto simp: Validate_ok_iff PolicySchemaVersion_def)
  have ascii: "validUTF8 PolicyKind" "validUTF8 ''kind''" "validUTF8 ''schema_version''"
    "validUTF8 ''default_authorization_duration_seconds''"
    "validUTF8 ''maximum_authorization_duration_seconds''"
    by code_simp+
  show "wf_json (policyJSON p)" using ascii v by (simp add: policyJSON_def)
  show "admissible False 1 (policyJSON p)" by (simp add: policyJSON_def maxJSONDepth_def)
  show "decodeStruct True policyFields (policyJSON p) zeroPolicy = Some p"
    using v by (simp add: decodeStruct_def policyJSON_def policyFields_def zeroPolicy_def)
  have q: "length (quote PolicyKind) = 37" "length (quote ''kind'') = 6" "length (quote ''schema_version'') = 16"
    "length (quote ''default_authorization_duration_seconds'') = 40"
    "length (quote ''maximum_authorization_duration_seconds'') = 40" "length (showInt 1) = 1"
    by code_simp+
  have "length (showInt (hpDefault p)) \<le> 10" "length (showInt (hpMaximum p)) \<le> 10"
    using length_showInt [of "hpDefault p" 9] length_showInt [of "hpMaximum p" 9] v by simp_all
  then show "length (rendered (policyJSON p)) \<le> maxPolicyBytes"
    using v q by (simp add: rendered_def policyJSON_def maxPolicyBytes_def)
qed

text \<open>
  C10. A policy that validates survives storage: after \<open>WritePolicy\<close> reports success,
  \<open>LoadPolicy\<close> returns that very policy, whatever was at the path before; and a write that fails
  leaves either the old file or, if the failure came after the rename, the new policy.
\<close>

theorem policy_write_load:
  assumes "WritePolicy fault path p fs = (r, fs')"
  shows "(r = Inr () \<longrightarrow> LoadPolicy path fs' = Inr p) \<and>
    (fs' = fs \<or> LoadPolicy path fs' = Inr p) \<and> (\<forall>q. q \<noteq> path \<longrightarrow> fs' q = fs q)"
proof (cases "Validate p")
  case (Inl e)
  with assms show ?thesis by (auto simp: WritePolicy_def)
next
  case (Inr u)
  then have v: "Validate p = Inr ()" by simp
  have load: "LoadPolicy path (fs(path \<mapsto> Regular (rendered (policyJSON p)))) = Inr p"
    using policy_rendered [OF v] v by (simp add: LoadPolicy_def)
  let ?w = "writeAtomic fault path (rendered (policyJSON p)) fs"
  have "fs' = snd ?w" "r = Inr () \<longrightarrow> fst ?w = Inr ()"
    using assms v by (cases ?w; auto simp: WritePolicy_def split: sum.splits)+
  then show ?thesis
    using writeAtomic_cases [of fault path "rendered (policyJSON p)" fs] load
      writeAtomic_ok [of fault path "rendered (policyJSON p)" fs] by auto
qed

theorem policy_write_load_witness:
  "LoadPolicy ''/etc/policy'' (snd (WritePolicy None ''/etc/policy'' InstalledDefault (\<lambda>_. Some Unreadable)))
     = Inr InstalledDefault"
proof -
  have "fst (WritePolicy None ''/etc/policy'' InstalledDefault (\<lambda>_. Some Unreadable)) = Inr ()"
    by (simp add: WritePolicy_def Validate_def InstalledDefault_def DurationFromSeconds_eq duration_consts)
  then show ?thesis
    using policy_write_load [of None "''/etc/policy''" InstalledDefault "\<lambda>_. Some Unreadable"]
    by (metis prod.collapse)
qed

section \<open>Clock high-water mark\<close>
















section \<open>Status machine and expiry\<close>

lemmas transition_defs = CanTransition_def Known_def knownStatuses_def Terminal_def status_defs

inductive granted_path :: "string \<Rightarrow> string \<Rightarrow> bool" where
  stay: "granted_path from from"
| move: "granted_path from mid \<Longrightarrow> AuthorizeTransition mid to = Inr () \<Longrightarrow> granted_path from to"

definition winding_down :: "string \<Rightarrow> bool" where
  "winding_down status \<longleftrightarrow>
     status \<in> {StatusExpirationPending, StatusExpired, StatusRevocationPending, StatusRevoked}"

lemma transition_winding_down: "CanTransition from to \<Longrightarrow> winding_down from \<Longrightarrow> winding_down to"
  by (auto simp: winding_down_def transition_defs split: if_splits)

lemma transition_terminal: "CanTransition from to \<Longrightarrow> Terminal from \<Longrightarrow> to = from"
  by (auto simp: transition_defs split: if_splits)

lemma AuthorizeTransition_ok: "AuthorizeTransition from to = Inr () \<longleftrightarrow> CanTransition from to"
  by (simp add: AuthorizeTransition_def)

text \<open>
  C12. A grant that began to expire or to be revoked is never effective again: along any chain
  of authorized transitions from such a status the status stays one of expiring, expired,
  revoking and revoked, so it is never enrolled, active or rotating; a terminal status never
  changes; and every status along a chain from a known status is known.
\<close>

theorem no_reactivation:
  assumes "granted_path from to" and "Known from"
  shows "Known to \<and> (winding_down from \<longrightarrow> winding_down to \<and> to \<noteq> StatusActive \<and>
      to \<noteq> StatusRotationPending \<and> to \<noteq> StatusEnrollmentPending) \<and>
    (Terminal from \<longrightarrow> to = from)"
proof -
  have "Known to \<and> (winding_down from \<longrightarrow> winding_down to) \<and> (Terminal from \<longrightarrow> to = from)"
    using assms
  proof (induction rule: granted_path.induct)
    case (move a b c)
    then have t: "CanTransition b c" by (simp add: AuthorizeTransition_ok)
    have "Known c" using t by (auto simp: transition_defs split: if_splits)
    with move t show ?case using transition_winding_down transition_terminal by blast
  qed simp
  moreover have "winding_down to \<Longrightarrow> to \<noteq> StatusActive \<and> to \<noteq> StatusRotationPending \<and> to \<noteq> StatusEnrollmentPending"
    by (auto simp: winding_down_def status_defs)
  ultimately show ?thesis by blast
qed

theorem no_reactivation_witness:
  "winding_down ''revoked'' \<and> ''revoked'' \<noteq> StatusActive"
proof -
  have p: "granted_path ''revocation_pending'' ''revoked''"
    by (rule granted_path.move [OF granted_path.stay]) code_simp
  have "Known ''revocation_pending''" "winding_down ''revocation_pending''" by code_simp+
  then show ?thesis using no_reactivation [OF p] by blast
qed

end
