(* ===== verification/Authorized_Keys.thy ===== *)
theory Authorized_Keys
  imports Grant
begin

text \<open>
  The managed \<open>authorized_keys\<close> file as \<open>internal/command/enroll_server.go\<close> edits it: entries
  are recognised by their key blob, and every edit reads the whole file, filters its lines and
  replaces the file atomically under its lock. \<open>lockOk\<close> tells whether the lock is obtained. The
  file is replaced by the \<open>writeFileAtomic\<close> of \<open>internal/command/server_admin.go\<close>.
\<close>

datatype keys_error = KeysLock | KeysRead io_error | KeysWrite io_error | KeyUnparsable | KeyStillPresent

text \<open>
  Unlike \<open>writeAtomic\<close> of the grants, this function writes nothing to the temporary file when
  there are no contents and does not report a failure to close the directory.
\<close>

definition writeFileAtomic ::
  "write_step option \<Rightarrow> string \<Rightarrow> string \<Rightarrow> fs \<Rightarrow> (io_error + unit) \<times> fs" where
  "writeFileAtomic fault path contents fs =
     (let replaced = fs(path \<mapsto> Regular contents) in
      case fault of
        None \<Rightarrow> (Inr (), replaced)
      | Some step \<Rightarrow>
          if step = WriteTemp \<and> contents = [] \<or> step = CloseDir then (Inr (), replaced)
          else (Inl WriteFailure, if step \<in> {OpenDir, SyncDir} then replaced else fs))"

interpretation command_writer: atomic_writer writeFileAtomic
proof
  show "snd (writeFileAtomic fault path contents fs) = fs(path \<mapsto> Regular contents) \<or>
    snd (writeFileAtomic fault path contents fs) = fs \<and>
      (\<exists>e. fst (writeFileAtomic fault path contents fs) = Inl e)" for fault path contents fs
    by (cases fault) (auto simp: writeFileAtomic_def Let_def)
qed (simp add: writeFileAtomic_def Let_def)

definition authorizedKeyBlob :: "string \<Rightarrow> string" where
  "authorizedKeyBlob publicKey =
     (let fs = stringFields (trimSpace publicKey) in
      if length fs < 2 then []
      else if containsStr (fs ! 0) '','' \<or> hasPrefix (fs ! 0) ''restrict''
      then (if length fs < 3 then [] else fs ! 2)
      else fs ! 1)"

definition readAuthorizedKeyLines :: "string \<Rightarrow> fs \<Rightarrow> keys_error + string list" where
  "readAuthorizedKeyLines path fs =
     (case ReadFile path fs of
        Inl e \<Rightarrow> if e = NotExist then Inr [] else Inl (KeysRead e)
      | Inr raw \<Rightarrow> Inr (filter (\<lambda>line. trimSpace line \<noteq> []) (splitOn (CHR 0x0A) raw)))"

definition terminated :: "string \<Rightarrow> string" where
  "terminated line = (if hasSuffix line [CHR 0x0A] then line else line @ [CHR 0x0A])"

definition writeAuthorizedKeyLines ::
  "write_step option \<Rightarrow> string \<Rightarrow> string list \<Rightarrow> fs \<Rightarrow> (keys_error + unit) \<times> fs" where
  "writeAuthorizedKeyLines fault path lines fs =
     (case writeFileAtomic fault path (concat (map terminated lines)) fs of
        (Inl e, fs') \<Rightarrow> (Inl (KeysWrite e), fs')
      | (Inr _, fs') \<Rightarrow> (Inr (), fs'))"

definition appendAuthorizedKey ::
  "bool \<Rightarrow> write_step option \<Rightarrow> string \<Rightarrow> string \<Rightarrow> fs \<Rightarrow> (keys_error + unit) \<times> fs" where
  "appendAuthorizedKey lockOk fault path line fs =
     (if \<not> lockOk then (Inl KeysLock, fs)
      else case readAuthorizedKeyLines path fs of
        Inl e \<Rightarrow> (Inl e, fs)
      | Inr lines \<Rightarrow>
          let entry = trimRight line [CHR 0x0A]; blob = authorizedKeyBlob entry in
          if blob \<noteq> [] \<and> (\<exists>existing \<in> set lines. authorizedKeyBlob existing = blob) then (Inr (), fs)
          else writeAuthorizedKeyLines fault path (lines @ [entry]) fs)"

definition replaceAuthorizedKeyForPublicKey ::
  "bool \<Rightarrow> write_step option \<Rightarrow> string \<Rightarrow> string \<Rightarrow> string \<Rightarrow> fs \<Rightarrow> (keys_error + unit) \<times> fs" where
  "replaceAuthorizedKeyForPublicKey lockOk fault path oldPublicKey newLine fs =
     (if \<not> lockOk then (Inl KeysLock, fs)
      else case readAuthorizedKeyLines path fs of
        Inl e \<Rightarrow> (Inl e, fs)
      | Inr lines \<Rightarrow>
          let oldBlob = authorizedKeyBlob oldPublicKey; entry = trimRight newLine [CHR 0x0A];
              newBlob = authorizedKeyBlob entry;
              filtered = filter (\<lambda>existing. let blob = authorizedKeyBlob existing in
                 \<not> (oldBlob \<noteq> [] \<and> blob = oldBlob \<or> newBlob \<noteq> [] \<and> blob = newBlob)) lines
          in writeAuthorizedKeyLines fault path (filtered @ [entry]) fs)"

definition removeAuthorizedKeyForPublicKey ::
  "bool \<Rightarrow> write_step option \<Rightarrow> string \<Rightarrow> string \<Rightarrow> fs \<Rightarrow> (keys_error + unit) \<times> fs" where
  "removeAuthorizedKeyForPublicKey lockOk fault path publicKey fs =
     (if \<not> lockOk then (Inl KeysLock, fs)
      else case readAuthorizedKeyLines path fs of
        Inl e \<Rightarrow> (Inl e, fs)
      | Inr lines \<Rightarrow>
          let blob = authorizedKeyBlob publicKey in
          if blob = [] then (Inr (), fs)
          else writeAuthorizedKeyLines fault path
            (filter (\<lambda>existing. authorizedKeyBlob existing \<noteq> blob) lines) fs)"

definition verifyAuthorizedKeyAbsent :: "string \<Rightarrow> string \<Rightarrow> fs \<Rightarrow> keys_error + unit" where
  "verifyAuthorizedKeyAbsent path publicKey fs =
     (case readAuthorizedKeyLines path fs of
        Inl e \<Rightarrow> Inl e
      | Inr lines \<Rightarrow>
          let blob = authorizedKeyBlob publicKey in
          if blob = [] then Inl KeyUnparsable
          else if \<exists>existing \<in> set lines. authorizedKeyBlob existing = blob then Inl KeyStillPresent
          else Inr ())"

section \<open>The set of authorized blobs\<close>

text \<open>What the file authorizes: the blobs of its entries. A file that cannot be read authorizes nobody.\<close>

definition authorizedBlobs :: "string \<Rightarrow> fs \<Rightarrow> string set" where
  "authorizedBlobs path fs =
     (case readAuthorizedKeyLines path fs of
        Inl e \<Rightarrow> {} | Inr lines \<Rightarrow> authorizedKeyBlob ` set lines - {[]})"

definition plain_lines :: "string list \<Rightarrow> bool" where
  "plain_lines lines \<longleftrightarrow> (\<forall>line \<in> set lines. CHR 0x0A \<notin> set line \<and> trimSpace line \<noteq> [])"

lemma readAuthorizedKeyLines_plain:
  "readAuthorizedKeyLines path fs = Inr lines \<Longrightarrow> plain_lines lines"
  by (auto simp: readAuthorizedKeyLines_def plain_lines_def split: sum.splits if_splits
      dest: splitOn_word_no_sep)

lemma terminated_plain: "CHR 0x0A \<notin> set line \<Longrightarrow> terminated line = line @ [CHR 0x0A]"
  by (auto simp: terminated_def hasSuffix_iff)

lemma split_terminated:
  "\<forall>line \<in> set lines. CHR 0x0A \<notin> set line \<Longrightarrow>
   splitOn (CHR 0x0A) (concat (map terminated lines)) = lines @ [[]]"
  by (induction lines) (auto simp: terminated_plain splitOn_append_sep splitOn_no_sep)

lemma trimSpace_Nil [simp]: "trimSpace [] = []"
  by code_simp

lemma read_written:
  assumes "plain_lines lines"
  shows "readAuthorizedKeyLines path (fs(path \<mapsto> Regular (concat (map terminated lines)))) = Inr lines"
proof -
  have "\<forall>line \<in> set lines. CHR 0x0A \<notin> set line" "\<forall>line \<in> set lines. trimSpace line \<noteq> []"
    using assms by (auto simp: plain_lines_def)
  then show ?thesis
    by (simp add: readAuthorizedKeyLines_def split_terminated)
qed

lemma read_error_iff:
  "(\<exists>e. readAuthorizedKeyLines path fs = Inl e) \<longleftrightarrow> fs path = Some Unreadable"
  by (auto simp: readAuthorizedKeyLines_def ReadFile_def split: option.splits node.splits)

lemma blobs_of_read:
  "readAuthorizedKeyLines path fs = Inr lines \<Longrightarrow>
   authorizedBlobs path fs = authorizedKeyBlob ` set lines - {[]}"
  by (simp add: authorizedBlobs_def)

lemma blob_listed:
  "b \<in> authorizedKeyBlob ` set lines \<longleftrightarrow> (\<exists>existing \<in> set lines. authorizedKeyBlob existing = b)"
  by auto

lemma plain_filter: "plain_lines lines \<Longrightarrow> plain_lines (filter P lines)"
  by (simp add: plain_lines_def)

lemma plain_snoc: "plain_lines lines \<Longrightarrow> plain_lines [entry] \<Longrightarrow> plain_lines (lines @ [entry])"
  by (auto simp: plain_lines_def)

text \<open>
  What an edit that means to make \<open>new\<close> the set of authorized blobs may do: success means that it
  is; otherwise either nothing changed or the set is already the new one; no other file changes;
  and with the lock, a readable file and no fault it succeeds.
\<close>

definition edit_outcome ::
  "bool \<Rightarrow> write_step option \<Rightarrow> string \<Rightarrow> fs \<Rightarrow> string set \<Rightarrow> (keys_error + unit) \<times> fs \<Rightarrow> bool" where
  "edit_outcome lockOk fault path fs new out \<longleftrightarrow>
     (fst out = Inr () \<longrightarrow> authorizedBlobs path (snd out) = new) \<and>
     (snd out = fs \<or> authorizedBlobs path (snd out) = new) \<and>
     (\<forall>p. p \<noteq> path \<longrightarrow> snd out p = fs p) \<and>
     (lockOk \<and> fault = None \<and> fs path \<noteq> Some Unreadable \<longrightarrow> fst out = Inr ())"

lemma outcome_no_lock: "edit_outcome False fault path fs new (Inl e, fs)"
  by (simp add: edit_outcome_def)

lemma outcome_unread:
  "readAuthorizedKeyLines path fs = Inl e' \<Longrightarrow> edit_outcome lockOk fault path fs new (Inl e, fs)"
  using read_error_iff [of path fs] by (auto simp: edit_outcome_def)

lemma outcome_unchanged:
  "authorizedBlobs path fs = new \<Longrightarrow> edit_outcome lockOk fault path fs new (Inr (), fs)"
  by (simp add: edit_outcome_def)

lemma outcome_rewrite:
  assumes "plain_lines lines" and "authorizedKeyBlob ` set lines - {[]} = new"
  shows "edit_outcome lockOk fault path fs new (writeAuthorizedKeyLines fault path lines fs)"
proof -
  let ?contents = "concat (map terminated lines)"
  let ?w = "writeFileAtomic fault path ?contents fs"
  let ?out = "writeAuthorizedKeyLines fault path lines fs"
  have blobs: "authorizedBlobs path (fs(path \<mapsto> Regular ?contents)) = new"
    using blobs_of_read [OF read_written [OF assms(1)]] assms(2) by simp
  have out: "snd ?out = snd ?w" "fst ?out = Inr () \<longleftrightarrow> fst ?w = Inr ()"
    by (auto simp: writeAuthorizedKeyLines_def split: prod.splits sum.splits)
  show ?thesis
    unfolding edit_outcome_def out
    using blobs command_writer.all_or_nothing [of fault path ?contents fs]
      command_writer.written [of fault path ?contents fs]
      command_writer.no_fault [of path ?contents fs]
      command_writer.other_files [of _ path fault ?contents fs]
    by auto
qed

section \<open>The edits\<close>

lemma append_outcome:
  assumes "plain_lines [trimRight line [CHR 0x0A]]"
  shows "edit_outcome lockOk fault path fs
    (insert (authorizedKeyBlob (trimRight line [CHR 0x0A])) (authorizedBlobs path fs) - {[]})
    (appendAuthorizedKey lockOk fault path line fs)"
proof (cases "readAuthorizedKeyLines path fs")
  case (Inl e)
  then show ?thesis
    by (cases lockOk) (simp_all add: appendAuthorizedKey_def outcome_no_lock outcome_unread)
next
  case (Inr lines)
  let ?e = "trimRight line [CHR 0x0A]"
  have p: "plain_lines (lines @ [?e])"
    by (rule plain_snoc [OF readAuthorizedKeyLines_plain [OF Inr] assms])
  have same: "authorizedBlobs path fs =
      insert (authorizedKeyBlob ?e) (authorizedBlobs path fs) - {[]}"
    if "\<exists>existing \<in> set lines. authorizedKeyBlob existing = authorizedKeyBlob ?e"
    using that blobs_of_read [OF Inr] unfolding blob_listed [symmetric] by auto
  have added: "authorizedKeyBlob ` set (lines @ [?e]) - {[]} =
      insert (authorizedKeyBlob ?e) (authorizedBlobs path fs) - {[]}"
    using blobs_of_read [OF Inr] by auto
  show ?thesis
    using outcome_unchanged [OF same] outcome_rewrite [OF p added] outcome_no_lock
    by (simp add: appendAuthorizedKey_def Inr Let_def)
qed

lemma replace_outcome:
  assumes "plain_lines [trimRight line [CHR 0x0A]]"
  shows "edit_outcome lockOk fault path fs
    (insert (authorizedKeyBlob (trimRight line [CHR 0x0A]))
       (authorizedBlobs path fs - {authorizedKeyBlob old}) - {[]})
    (replaceAuthorizedKeyForPublicKey lockOk fault path old line fs)"
proof (cases "readAuthorizedKeyLines path fs")
  case (Inl e)
  then show ?thesis
    by (cases lockOk) (simp_all add: replaceAuthorizedKeyForPublicKey_def outcome_no_lock outcome_unread)
next
  case (Inr lines)
  let ?e = "trimRight line [CHR 0x0A]"
  define drop where "drop b \<longleftrightarrow> authorizedKeyBlob old \<noteq> [] \<and> b = authorizedKeyBlob old \<or>
      authorizedKeyBlob ?e \<noteq> [] \<and> b = authorizedKeyBlob ?e" for b
  let ?keep = "filter (\<lambda>existing. \<not> drop (authorizedKeyBlob existing)) lines"
  have p: "plain_lines (?keep @ [?e])"
    by (rule plain_snoc [OF plain_filter [OF readAuthorizedKeyLines_plain [OF Inr]] assms])
  have "authorizedKeyBlob ` set (?keep @ [?e]) - {[]} =
      insert (authorizedKeyBlob ?e) (authorizedBlobs path fs - {authorizedKeyBlob old}) - {[]}"
    unfolding blobs_of_read [OF Inr] by (auto simp: drop_def)
  from outcome_rewrite [OF p this] show ?thesis
    using outcome_no_lock
    by (simp add: replaceAuthorizedKeyForPublicKey_def Inr Let_def drop_def)
qed

lemma remove_outcome:
  "edit_outcome lockOk fault path fs (authorizedBlobs path fs - {authorizedKeyBlob key})
    (removeAuthorizedKeyForPublicKey lockOk fault path key fs)"
proof (cases "readAuthorizedKeyLines path fs")
  case (Inl e)
  then show ?thesis
    by (cases lockOk) (simp_all add: removeAuthorizedKeyForPublicKey_def outcome_no_lock outcome_unread)
next
  case (Inr lines)
  let ?keep = "filter (\<lambda>existing. authorizedKeyBlob existing \<noteq> authorizedKeyBlob key) lines"
  have p: "plain_lines ?keep"
    by (rule plain_filter [OF readAuthorizedKeyLines_plain [OF Inr]])
  have kept: "authorizedKeyBlob ` set ?keep - {[]} = authorizedBlobs path fs - {authorizedKeyBlob key}"
    unfolding blobs_of_read [OF Inr] by auto
  have same: "authorizedBlobs path fs = authorizedBlobs path fs - {authorizedKeyBlob key}"
    if "authorizedKeyBlob key = []"
    using that blobs_of_read [OF Inr] by auto
  show ?thesis
    using outcome_unchanged [OF same] outcome_rewrite [OF p kept] outcome_no_lock
    by (simp add: removeAuthorizedKeyForPublicKey_def Inr Let_def)
qed

lemma absent_iff:
  "verifyAuthorizedKeyAbsent path key fs = Inr () \<longleftrightarrow>
     fs path \<noteq> Some Unreadable \<and> authorizedKeyBlob key \<noteq> [] \<and>
     authorizedKeyBlob key \<notin> authorizedBlobs path fs"
proof (cases "readAuthorizedKeyLines path fs")
  case (Inl e)
  then show ?thesis using read_error_iff [of path fs] by (auto simp: verifyAuthorizedKeyAbsent_def)
next
  case (Inr lines)
  then have "fs path \<noteq> Some Unreadable" using read_error_iff [of path fs] by auto
  then show ?thesis
    using blobs_of_read [OF Inr]
    by (auto simp: verifyAuthorizedKeyAbsent_def Inr Let_def blob_listed [symmetric] simp del: bex_simps)
qed

text \<open>
  C13. The file edits refine operations on the set of authorized key blobs. For a new line that,
  without its trailing newlines, is one nonblank line, appending means to add its blob, replacing
  to take the old key's blob away and add the new one, removing to take the key's blob away (a
  line or key without a blob adds or takes nothing). Each edit that succeeds has made the set
  exactly that; one that fails, at the lock, the read or whatever step of the write, has either
  changed nothing or made the set that; no other file changes; and with the lock, a readable file
  and no fault each edit succeeds. The check for absence passes exactly when the file is readable
  and the key has a blob that is not in the set.
\<close>

theorem authorized_keys_refine_set:
  assumes "plain_lines [trimRight line [CHR 0x0A]]"
  shows "edit_outcome lockOk fault path fs
      (insert (authorizedKeyBlob (trimRight line [CHR 0x0A])) (authorizedBlobs path fs) - {[]})
      (appendAuthorizedKey lockOk fault path line fs) \<and>
    edit_outcome lockOk fault path fs
      (insert (authorizedKeyBlob (trimRight line [CHR 0x0A]))
         (authorizedBlobs path fs - {authorizedKeyBlob key}) - {[]})
      (replaceAuthorizedKeyForPublicKey lockOk fault path key line fs) \<and>
    edit_outcome lockOk fault path fs (authorizedBlobs path fs - {authorizedKeyBlob key})
      (removeAuthorizedKeyForPublicKey lockOk fault path key fs) \<and>
    (verifyAuthorizedKeyAbsent path key fs = Inr () \<longleftrightarrow>
       fs path \<noteq> Some Unreadable \<and> authorizedKeyBlob key \<noteq> [] \<and>
       authorizedKeyBlob key \<notin> authorizedBlobs path fs)"
  using append_outcome [OF assms] replace_outcome [OF assms] remove_outcome absent_iff by blast

theorem authorized_keys_refine_set_witness:
  "authorizedBlobs ''keys'' (snd (replaceAuthorizedKeyForPublicKey True None ''keys'' ''alg BLOB'' ''alg NEW''
      ((\<lambda>_. None)(''keys'' \<mapsto> Regular (''restrict alg BLOB x'' @ [CHR 0x0A])))))
    = {''NEW''}"
proof -
  let ?fs = "(\<lambda>_. None)(''keys'' \<mapsto> Regular (''restrict alg BLOB x'' @ [CHR 0x0A])) :: fs"
  have h: "plain_lines [trimRight ''alg NEW'' [CHR 0x0A]]"
    "authorizedKeyBlob (trimRight ''alg NEW'' [CHR 0x0A]) = ''NEW''"
    "authorizedKeyBlob ''alg BLOB'' = ''BLOB''"
    by code_simp+
  have "readAuthorizedKeyLines ''keys'' ?fs = Inr [''restrict alg BLOB x'']"
    "authorizedKeyBlob ''restrict alg BLOB x'' = ''BLOB''"
    by code_simp+
  then have "authorizedBlobs ''keys'' ?fs = {''BLOB''}"
    by (simp add: authorizedBlobs_def)
  then show ?thesis
    using authorized_keys_refine_set [OF h(1), of True None "''keys''" ?fs "''alg BLOB''"]
    unfolding h(2,3) by (simp add: edit_outcome_def)
qed

end
