(* ===== verification/Locator.thy ===== *)
theory Locator
  imports Netip Json
begin

text \<open>
  \<open>internal/locator\<close>: published dial hosts (\<open>dialhost.go\<close>) and endpoint sets
  (\<open>endpoint.go\<close>). A host is an IP literal or a DNS name; its canonical text decides equality.
\<close>

section \<open>Hosts\<close>

definition maxDNSNameOctets :: nat where "maxDNSNameOctets = 253"
definition maxDNSLabelOctets :: nat where "maxDNSLabelOctets = 63"

record DialHost =
  hostIP :: Addr
  hostName :: string

datatype host_error =
    HostEmpty | HostZone | HostBoth | NameEmpty | NameNotUTF8 | NameIsIP | NameEmptyLabel
  | NameNotASCII | NameForbidden | NameTooLong | LabelTooLong | LabelHyphen

definition lowerASCII :: "char \<Rightarrow> char" where
  "lowerASCII c = (if CHR ''A'' \<le> c \<and> c \<le> CHR ''Z'' then char_of (of_char c + 32 :: nat) else c)"

definition labelByte :: "char \<Rightarrow> bool" where
  "labelByte c \<longleftrightarrow> CHR ''a'' \<le> c \<and> c \<le> CHR ''z'' \<or> isDigit c \<or> c = CHR ''-''"

definition checkLabel :: "string \<Rightarrow> host_error + unit" where
  "checkLabel label =
     (if label = [] then Inl NameEmptyLabel
      else if maxDNSLabelOctets < length label then Inl LabelTooLong
      else if hd label = CHR ''-'' \<or> last label = CHR ''-'' then Inl LabelHyphen
      else if list_all labelByte label then Inr () else Inl NameForbidden)"

fun firstError :: "('a \<Rightarrow> 'e + unit) \<Rightarrow> 'a list \<Rightarrow> 'e + unit" where
  "firstError f [] = Inr ()"
| "firstError f (x # xs) = (case f x of Inl e \<Rightarrow> Inl e | Inr _ \<Rightarrow> firstError f xs)"

text \<open>
  The runes of a valid UTF-8 text are above 127 exactly at its bytes above 127, so the scan of
  the runes is one of the bytes.
\<close>

definition checkRune :: "char \<Rightarrow> host_error + unit" where
  "checkRune r =
     (if \<not> ascii r then Inl NameNotASCII
      else if of_char r < (0x20 :: nat) \<or> of_char r = (0x7F :: nat) \<or> r = CHR 0x20 \<or>
        r \<in> set ''/?#@:[]*%'' then Inl NameForbidden
      else Inr ())"

definition stripDot :: "string \<Rightarrow> string" where
  "stripDot name = (if hasSuffix name ''.'' then butlast name else name)"

definition CanonicalDNSName :: "string \<Rightarrow> host_error + string" where
  "CanonicalDNSName name =
     (if name = [] then Inl NameEmpty
      else if \<not> validUTF8 name then Inl NameNotUTF8
      else if ParseAddr name \<noteq> None then Inl NameIsIP
      else let name = stripDot name in
      if name = [] then Inl NameEmpty
      else if containsStr name ''..'' then Inl NameEmptyLabel
      else case firstError checkRune name of
        Inl e \<Rightarrow> Inl e
      | Inr _ \<Rightarrow>
          let lower = map lowerASCII name in
          if maxDNSNameOctets < length lower then Inl NameTooLong
          else case firstError checkLabel (splitOn (CHR ''.'') lower) of
            Inl e \<Rightarrow> Inl e | Inr _ \<Rightarrow> Inr lower)"

definition IPDialHost :: "Addr \<Rightarrow> DialHost" where
  "IPDialHost addr = \<lparr>hostIP = Unmap addr, hostName = []\<rparr>"

definition ParseDialHost :: "string \<Rightarrow> host_error + DialHost" where
  "ParseDialHost value =
     (if value = [] then Inl HostEmpty
      else case ParseAddr value of
        Some addr \<Rightarrow> if Zone addr \<noteq> [] then Inl HostZone else Inr (IPDialHost addr)
      | None \<Rightarrow>
          (case CanonicalDNSName value of
             Inl e \<Rightarrow> Inl e | Inr name \<Rightarrow> Inr \<lparr>hostIP = ZeroAddr, hostName = name\<rparr>))"

definition Canonical :: "DialHost \<Rightarrow> host_error + string" where
  "Canonical h =
     (let hasIP = isValid (hostIP h); hasName = hostName h \<noteq> [] in
      if hasIP \<and> hasName then Inl HostBoth
      else if hasIP then (if Zone (hostIP h) \<noteq> [] then Inl HostZone else Inr (addrString (Unmap (hostIP h))))
      else if hasName then CanonicalDNSName (hostName h)
      else Inl HostEmpty)"

definition hostEqual :: "DialHost \<Rightarrow> DialHost \<Rightarrow> bool" where
  "hostEqual h g = (case (Canonical h, Canonical g) of (Inr a, Inr b) \<Rightarrow> a = b | _ \<Rightarrow> False)"

section \<open>Endpoint sets\<close>

record DialEndpoint =
  epHost :: DialHost
  epPort :: uint16

record PublishedEndpointSet =
  pesGeneration :: uint64
  pesData :: DialEndpoint
  pesEnrollment :: DialEndpoint

datatype set_error =
    SetGeneration | SetPorts | SetDataHost host_error | SetEnrollmentHost host_error | SetShared

definition endpointEqual :: "DialEndpoint \<Rightarrow> DialEndpoint \<Rightarrow> bool" where
  "endpointEqual e f \<longleftrightarrow> epPort e = epPort f \<and> hostEqual (epHost e) (epHost f)"

definition SamePublishedLocators :: "PublishedEndpointSet \<Rightarrow> PublishedEndpointSet \<Rightarrow> bool" where
  "SamePublishedLocators l r \<longleftrightarrow>
     endpointEqual (pesData l) (pesData r) \<and> endpointEqual (pesEnrollment l) (pesEnrollment r)"

definition reparse :: "(host_error \<Rightarrow> set_error) \<Rightarrow> DialHost \<Rightarrow> set_error + string" where
  "reparse wrap h = (case Canonical h of Inl e \<Rightarrow> Inl (wrap e) | Inr s \<Rightarrow> Inr s)"

definition canonicalSet :: "PublishedEndpointSet \<Rightarrow> set_error + PublishedEndpointSet" where
  "canonicalSet s =
     (if pesGeneration s = 0 then Inl SetGeneration
      else if epPort (pesData s) = 0 \<or> epPort (pesEnrollment s) = 0 then Inl SetPorts
      else case reparse SetDataHost (epHost (pesData s)) of Inl e \<Rightarrow> Inl e | Inr dataHost \<Rightarrow>
      case reparse SetEnrollmentHost (epHost (pesEnrollment s)) of Inl e \<Rightarrow> Inl e | Inr enrollHost \<Rightarrow>
      case ParseDialHost dataHost of Inl e \<Rightarrow> Inl (SetDataHost e) | Inr data \<Rightarrow>
      case ParseDialHost enrollHost of Inl e \<Rightarrow> Inl (SetEnrollmentHost e) | Inr enroll \<Rightarrow>
        let canonical = \<lparr>pesGeneration = pesGeneration s,
              pesData = \<lparr>epHost = data, epPort = epPort (pesData s)\<rparr>,
              pesEnrollment = \<lparr>epHost = enroll, epPort = epPort (pesEnrollment s)\<rparr>\<rparr> in
        if endpointEqual (pesData canonical) (pesEnrollment canonical) then Inl SetShared
        else Inr canonical)"

definition setEqual :: "PublishedEndpointSet \<Rightarrow> PublishedEndpointSet \<Rightarrow> bool" where
  "setEqual s t =
     (case (canonicalSet s, canonicalSet t) of
        (Inr l, Inr r) \<Rightarrow> pesGeneration l = pesGeneration r \<and> SamePublishedLocators l r
      | _ \<Rightarrow> False)"

section \<open>Canonical names\<close>

lemma firstError_ok: "firstError f xs = Inr () \<longleftrightarrow> (\<forall>x \<in> set xs. f x = Inr ())"
  by (induction xs) (auto split: sum.splits)

lemma lowerASCII_idem [simp]: "lowerASCII (lowerASCII c) = lowerASCII c"
proof (cases "CHR ''A'' \<le> c \<and> c \<le> CHR ''Z''")
  case True
  then have n: "65 \<le> (of_char c :: nat)" "of_char c \<le> (90 :: nat)" by (simp_all add: less_eq_char_def)
  then have "of_char (lowerASCII c) = (of_char c + 32 :: nat)"
    using True by (simp add: lowerASCII_def)
  with n have "\<not> (CHR ''A'' \<le> lowerASCII c \<and> lowerASCII c \<le> CHR ''Z'')"
    by (simp add: less_eq_char_def)
  then show ?thesis by (subst (1) lowerASCII_def) (metis (full_types))
qed (auto simp: lowerASCII_def)

text \<open>What a canonical name looks like.\<close>

definition canonical_name :: "string \<Rightarrow> bool" where
  "canonical_name s \<longleftrightarrow> length s \<le> maxDNSNameOctets \<and>
     (\<forall>label \<in> set (splitOn (CHR ''.'') s). checkLabel label = Inr ())"

lemma labelByte_ok:
  assumes "labelByte c" shows "ascii c" "checkRune c = Inr ()" "lowerASCII c = c" "c \<noteq> CHR ''.''"
proof -
  have "97 \<le> (of_char c :: nat) \<and> of_char c \<le> (122 :: nat) \<or> 48 \<le> (of_char c :: nat) \<and> of_char c \<le> (57 :: nat) \<or> of_char c = (45 :: nat)"
    using assms by (auto simp: labelByte_def less_eq_char_def isDigit_iff)
  then show "ascii c" "checkRune c = Inr ()" "lowerASCII c = c" "c \<noteq> CHR ''.''"
    by (auto simp: ascii_def checkRune_def lowerASCII_def less_eq_char_def)
qed

lemma splitOn_set: "c \<in> set s \<Longrightarrow> c = sep \<or> (\<exists>w \<in> set (splitOn sep s). c \<in> set w)"
proof (induction s)
  case (Cons a s)
  show ?case
  proof (cases "a = sep")
    case False
    obtain w ws where "splitOn sep s = w # ws" by (cases "splitOn sep s") auto
    then show ?thesis using Cons False by auto
  qed (use Cons in auto)
qed simp

lemma checkLabel_bytes: "checkLabel l = Inr () \<Longrightarrow> list_all labelByte l \<and> l \<noteq> []"
  by (auto simp: checkLabel_def split: if_splits)

lemma canonical_bytes:
  assumes "canonical_name s" "c \<in> set s" shows "labelByte c \<or> c = CHR ''.''"
proof -
  have "c = CHR ''.'' \<or> (\<exists>w \<in> set (splitOn (CHR ''.'') s). c \<in> set w)"
    using assms(2) by (rule splitOn_set)
  then show ?thesis
    using assms(1) checkLabel_bytes by (auto simp: canonical_name_def list_all_iff)
qed

lemma canonical_name_nonempty: "canonical_name s \<Longrightarrow> s \<noteq> []"
  by (auto simp: canonical_name_def checkLabel_def)

lemma splitOn_dots: "containsStr s ''..'' \<Longrightarrow> [] \<in> set (splitOn (CHR ''.'') s)"
proof -
  assume "containsStr s ''..''"
  then obtain a b where "s = a @ CHR ''.'' # [] @ CHR ''.'' # b" by (auto simp: containsStr_iff)
  then have "splitOn (CHR ''.'') s = splitOn (CHR ''.'') a @ [[]] @ splitOn (CHR ''.'') b"
    by (simp only: splitOn_append_sep) simp
  then show ?thesis by simp
qed

lemma splitOn_trailing: "hasSuffix s ''.'' \<Longrightarrow> [] \<in> set (splitOn (CHR ''.'') s)"
  by (auto simp: hasSuffix_iff splitOn_append_sep)

lemma canonical_no_empty: "canonical_name s \<Longrightarrow> [] \<notin> set (splitOn (CHR ''.'') s)"
  by (auto simp: canonical_name_def checkLabel_def)

lemma CanonicalDNSName_result:
  assumes "CanonicalDNSName name = Inr s" shows "canonical_name s"
  using assms
  by (auto simp: CanonicalDNSName_def canonical_name_def Let_def firstError_ok split: if_splits sum.splits)

lemma CanonicalDNSName_fixed:
  assumes "canonical_name s" "ParseAddr s = None" shows "CanonicalDNSName s = Inr s"
proof -
  note b = canonical_bytes [OF assms(1)]
  have ascii: "list_all ascii s" using b labelByte_ok(1) by (fastforce simp: list_all_iff ascii_def)
  have dot: "checkRune CHR ''.'' = Inr ()" "lowerASCII CHR ''.'' = CHR ''.''" by code_simp+
  have runes: "firstError checkRune s = Inr ()"
    using b labelByte_ok(2) dot by (fastforce simp: firstError_ok)
  have lower: "map lowerASCII s = s"
    using b labelByte_ok(3) dot by (intro map_idI) fastforce
  have labels: "length s \<le> maxDNSNameOctets" "firstError checkLabel (splitOn (CHR ''.'') s) = Inr ()"
    using assms(1) by (simp_all add: canonical_name_def firstError_ok)
  have "stripDot s = s"
    using canonical_no_empty [OF assms(1)] splitOn_trailing by (auto simp: stripDot_def)
  moreover have "\<not> containsStr s ''..''"
    using canonical_no_empty [OF assms(1)] splitOn_dots by auto
  ultimately show ?thesis
    using assms(2) canonical_name_nonempty [OF assms(1)] validUTF8_ascii [OF ascii] labels
    by (simp add: CanonicalDNSName_def runes lower)
qed

text \<open>
  An IP literal made of label bytes and dots is a dotted quad, which canonicalization does not
  change: the literal check can only miss one that a trailing dot hides.
\<close>

lemma parseOctets_digits: "parseOctets ws = Some b \<Longrightarrow> w \<in> set ws \<Longrightarrow> list_all isDigit w"
  by (induction ws arbitrary: b) (auto simp: parseOctet_def split: option.splits if_splits)

lemma parseIPv4Fields_bytes:
  "parseIPv4Fields s = Some b \<Longrightarrow> c \<in> set s \<Longrightarrow> isDigit c \<or> c = CHR ''.''"
  using splitOn_set [of c s "CHR ''.''"] parseOctets_digits [of "splitOn (CHR ''.'') s"]
  by (auto simp: parseIPv4Fields_def Let_def list_all_iff split: if_splits)

lemma ParseAddr_at_quad:
  "ParseAddr_at s t = Some a \<Longrightarrow> CHR '':'' \<notin> set t \<Longrightarrow> \<exists>b. parseIPv4Fields s = Some b"
  by (induction t) (auto split: if_splits)

lemma lowerASCII_digit: "isDigit (lowerASCII c) \<or> lowerASCII c = CHR ''.'' \<Longrightarrow> lowerASCII c = c"
proof (cases "CHR ''A'' \<le> c \<and> c \<le> CHR ''Z''")
  case True
  then have "65 \<le> (of_char c :: nat)" "of_char c \<le> (90 :: nat)" by (simp_all add: less_eq_char_def)
  then have n: "97 \<le> (of_char (lowerASCII c) :: nat)"
    using True by (simp add: lowerASCII_def)
  moreover assume "isDigit (lowerASCII c) \<or> lowerASCII c = CHR ''.''"
  then have "(of_char (lowerASCII c) :: nat) \<le> 57" by (auto simp: isDigit_iff)
  ultimately show ?thesis by simp
qed (auto simp: lowerASCII_def)

lemma literal_behind_dot:
  assumes "CanonicalDNSName name = Inr s" and "ParseAddr s \<noteq> None"
  shows "name = s @ ''.''"
proof -
  have s: "s = map lowerASCII (stripDot name)" and name: "ParseAddr name = None"
    using assms(1) by (auto simp: CanonicalDNSName_def Let_def split: if_splits sum.splits)
  have "CHR '':'' \<notin> set s"
    using canonical_bytes [OF CanonicalDNSName_result [OF assms(1)], of "CHR '':''"]
    by (auto simp: labelByte_def less_eq_char_def isDigit_iff)
  then obtain b where "parseIPv4Fields s = Some b"
    using assms(2) ParseAddr_at_quad [of s s] by (auto simp: ParseAddr_def)
  then have "lowerASCII c = c" if "c \<in> set (stripDot name)" for c
    using that parseIPv4Fields_bytes [of s b "lowerASCII c"] by (intro lowerASCII_digit) (simp add: s)
  then have "s = stripDot name" by (simp add: s map_idI)
  moreover have "stripDot name \<noteq> name" using assms(2) name calculation by auto
  ultimately show ?thesis
    by (auto simp: stripDot_def hasSuffix_iff split: if_splits)
qed

lemma stripped_literal:
  assumes "CanonicalDNSName (literal @ ''.'') = Inr s" and "ParseAddr literal \<noteq> None"
  shows "ParseAddr s \<noteq> None"
proof -
  have s: "s = map lowerASCII literal" and runes: "firstError checkRune literal = Inr ()"
    using assms(1)
    by (auto simp: CanonicalDNSName_def Let_def stripDot_def hasSuffix_iff split: if_splits sum.splits)
  have "checkRune CHR '':'' \<noteq> Inr ()" by code_simp
  then have "CHR '':'' \<notin> set literal" using runes by (auto simp: firstError_ok)
  then obtain b where b: "parseIPv4Fields literal = Some b"
    using assms(2) ParseAddr_at_quad [of literal literal] by (auto simp: ParseAddr_def)
  have "lowerASCII c = c" if "c \<in> set literal" for c
    using parseIPv4Fields_bytes [OF b that] by (auto simp: lowerASCII_def less_eq_char_def isDigit_iff)
  then show ?thesis using assms(2) by (simp add: s map_idI)
qed

text \<open>
  C14. Whatever text \<open>CanonicalDNSName\<close> accepts, the name it returns has at most 253 octets in
  nonempty labels of at most 63 lower-case letters, digits and inner hyphens. A returned name that
  is not the text of an IP address is returned unchanged when it is canonicalized again. The
  returned name is the text of an IP address exactly when the given one was that text with a dot
  behind it, which the check for literals lets through because it comes before the dot is
  stripped; such a name is refused when it is canonicalized again. So canonicalization is
  idempotent except for this defect, which has instances.
\<close>

theorem canonical_name_stable:
  assumes "CanonicalDNSName name = Inr s"
  shows "length s \<le> 253 \<and>
    (\<forall>label \<in> set (splitOn (CHR ''.'') s). label \<noteq> [] \<and> length label \<le> 63 \<and>
       list_all labelByte label \<and> hd label \<noteq> CHR ''-'' \<and> last label \<noteq> CHR ''-'') \<and>
    (if \<exists>literal. ParseAddr literal \<noteq> None \<and> name = literal @ ''.''
     then ParseAddr s \<noteq> None \<and> name = s @ ''.'' \<and> CanonicalDNSName s = Inl NameIsIP
     else ParseAddr s = None \<and> CanonicalDNSName s = Inr s) \<and>
    CanonicalDNSName ''127.0.0.1.'' = Inr ''127.0.0.1''"
proof -
  have c: "canonical_name s" by (rule CanonicalDNSName_result [OF assms])
  have v: "validUTF8 s"
    using canonical_bytes [OF c] labelByte_ok(1)
    by (intro validUTF8_ascii) (fastforce simp: list_all_iff ascii_def)
  have again: "CanonicalDNSName s = (if ParseAddr s = None then Inr s else Inl NameIsIP)"
    using CanonicalDNSName_fixed [OF c] canonical_name_nonempty [OF c] v
    by (auto simp: CanonicalDNSName_def)
  have labels: "\<forall>label \<in> set (splitOn (CHR ''.'') s). label \<noteq> [] \<and> length label \<le> 63 \<and>
      list_all labelByte label \<and> hd label \<noteq> CHR ''-'' \<and> last label \<noteq> CHR ''-''"
    using c by (auto simp: canonical_name_def checkLabel_def maxDNSLabelOctets_def split: if_splits)
  have hidden: "ParseAddr s \<noteq> None" if "ParseAddr literal \<noteq> None" "name = literal @ ''.''" for literal
    using stripped_literal [of literal s] assms that by simp
  have "CanonicalDNSName ''127.0.0.1.'' = Inr ''127.0.0.1''" by code_simp
  moreover have "if \<exists>literal. ParseAddr literal \<noteq> None \<and> name = literal @ ''.''
     then ParseAddr s \<noteq> None \<and> name = s @ ''.'' \<and> CanonicalDNSName s = Inl NameIsIP
     else ParseAddr s = None \<and> CanonicalDNSName s = Inr s"
  proof (cases "ParseAddr s = None")
    case True
    then have "\<not> (\<exists>literal. ParseAddr literal \<noteq> None \<and> name = literal @ ''.'')" using hidden by blast
    then show ?thesis using True again by simp
  next
    case False
    then show ?thesis using again literal_behind_dot [OF assms] by auto
  qed
  ultimately show ?thesis
    using c labels by (simp add: canonical_name_def maxDNSNameOctets_def)
qed

theorem canonical_name_stable_witness:
  "CanonicalDNSName ''tunnel.example.com'' = Inr ''tunnel.example.com'' \<and>
   CanonicalDNSName ''127.0.0.1'' = Inl NameIsIP"
proof -
  have name: "CanonicalDNSName ''TUNNEL.example.COM.'' = Inr ''tunnel.example.com''"
    "ParseAddr ''tunnel.example.com'' = None" by code_simp+
  have literal: "CanonicalDNSName ''127.0.0.1.'' = Inr ''127.0.0.1''"
    "ParseAddr ''127.0.0.1'' \<noteq> None" by code_simp+
  show ?thesis
    using canonical_name_stable [OF name(1)] name(2) canonical_name_stable [OF literal(1)] literal(2)
    by (auto split: if_splits)
qed

text \<open>A host parsed from such a text has no canonical form.\<close>

lemma trailing_dot_literal:
  "ParseDialHost ''127.0.0.1.'' = Inr \<lparr>hostIP = ZeroAddr, hostName = ''127.0.0.1''\<rparr> \<and>
   Canonical \<lparr>hostIP = ZeroAddr, hostName = ''127.0.0.1''\<rparr> = Inl NameIsIP"
  by code_simp

end
