(* ===== verification/Server_Config.thy ===== *)
theory Server_Config
  imports Locator Kex Grant
begin

text \<open>
  \<open>internal/server\<close>: the server policy (\<open>server.go\<close>), its bind and dial network
  (\<open>network.go\<close>) and the managed \<open>authorized_keys\<close> format (\<open>authorized.go\<close>). An error of
  \<open>invalidField\<close> is \<open>InvalidField\<close> with its field and message; a message that wraps an error
  of the host-name checks is \<open>InvalidName\<close>.
\<close>

section \<open>Policy and network\<close>

datatype config_error = InvalidField string string | InvalidName string host_error

definition check_then :: "'e + unit \<Rightarrow> 'e + 'a \<Rightarrow> 'e + 'a" where
  "check_then check rest = (case check of Inl e \<Rightarrow> Inl e | Inr _ \<Rightarrow> rest)"

record Endpoint =
  endAddress :: Addr
  endPort :: int

record BindEndpoint =
  bindAddress :: Addr
  bindPort :: uint16

record ServiceEndpoints =
  svcListen :: BindEndpoint
  svcDial :: DialEndpoint

record Network =
  netGeneration :: uint64
  netData :: ServiceEndpoints
  netEnrollment :: ServiceEndpoints

record Config =
  cfgKind :: string
  cfgSchemaVersion :: int
  cfgProfileID :: string
  cfgSSHDBinarySHA256 :: string
  cfgBundleManifestSHA256 :: string
  cfgNetwork :: Network
  cfgTarget :: Endpoint
  cfgDedicatedUser :: string
  cfgHostKeyPath :: string
  cfgAuthorizedKeysPath :: string

definition ManifestKind :: string where "ManifestKind = ''warptweet.server-gateway''"
definition CurrentSchemaVersion :: int where "CurrentSchemaVersion = 2"
definition maxUserLength :: nat where "maxUserLength = 32"
definition sha256HexBytes :: nat where "sha256HexBytes = 64"
definition runtimePIDFile :: string where "runtimePIDFile = ''/run/warptweet/sshd/warptweet-sshd.pid''"
definition ServerHostKeyPath :: string where
  "ServerHostKeyPath = ''/var/lib/warptweet/ssh/ssh_host_mldsa44_ed25519_key''"
definition AuthorizedKeysDirectory :: string where
  "AuthorizedKeysDirectory = ''/var/lib/warptweet/authorized_keys''"

definition broadcast4 :: Addr where "broadcast4 = V4 [255, 255, 255, 255]"

definition validateEndpoint :: "string \<Rightarrow> Endpoint \<Rightarrow> config_error + unit" where
  "validateEndpoint field e =
     (let address = Unmap (endAddress e) in
      if \<not> isValid (endAddress e) then Inl (InvalidField (field @ ''.Address'') ''must be a numeric IP address'')
      else if Zone (endAddress e) \<noteq> [] then Inl (InvalidField (field @ ''.Address'') ''IPv6 zones are not permitted'')
      else if IsUnspecified address then Inl (InvalidField (field @ ''.Address'') ''wildcard addresses are not permitted'')
      else if IsMulticast address then Inl (InvalidField (field @ ''.Address'') ''multicast addresses are not permitted'')
      else if Is4 address \<and> address = broadcast4
      then Inl (InvalidField (field @ ''.Address'') ''the IPv4 broadcast address is not permitted'')
      else if endPort e < 1 \<or> endPort e > 65535 then Inl (InvalidField (field @ ''.Port'') ''must be between 1 and 65535'')
      else Inr ())"

definition validateBind :: "string \<Rightarrow> BindEndpoint \<Rightarrow> config_error + unit" where
  "validateBind field e =
     validateEndpoint field \<lparr>endAddress = bindAddress e, endPort = int (unat (bindPort e))\<rparr>"

definition validateDial :: "string \<Rightarrow> BindEndpoint \<Rightarrow> DialEndpoint \<Rightarrow> config_error + unit" where
  "validateDial field bind dial =
     (let hasIP = isValid (hostIP (epHost dial)); hasName = hostName (epHost dial) \<noteq> [];
          bindAddr = Unmap (bindAddress bind); addr = Unmap (hostIP (epHost dial)); host = field @ ''.Host'' in
      if epPort dial < 1 then Inl (InvalidField (field @ ''.Port'') ''must be between 1 and 65535'')
      else if hasIP = hasName then Inl (InvalidField host ''must be an IP literal or a DNS name'')
      else if hasName then
        (case CanonicalDNSName (hostName (epHost dial)) of
           Inl e \<Rightarrow> Inl (InvalidName host e)
         | Inr _ \<Rightarrow>
             if IsLoopback bindAddr
             then Inl (InvalidField host ''loopback bind cannot publish a non-loopback dial'') else Inr ())
      else if Zone (hostIP (epHost dial)) \<noteq> [] then Inl (InvalidField host ''IPv6 zones are not permitted'')
      else if IsUnspecified addr then Inl (InvalidField host ''unspecified addresses are not permitted'')
      else if IsMulticast addr then Inl (InvalidField host ''multicast addresses are not permitted'')
      else if Is4 addr \<and> addr = broadcast4
      then Inl (InvalidField host ''the IPv4 broadcast address is not permitted'')
      else if IsLinkLocalUnicast addr then Inl (InvalidField host ''link-local dial locators are not permitted'')
      else if IsLoopback addr \<and> \<not> IsLoopback bindAddr
      then Inl (InvalidField host ''loopback dial requires a loopback bind'')
      else if IsLoopback bindAddr \<and> \<not> IsLoopback addr
      then Inl (InvalidField host ''loopback bind cannot publish a non-loopback dial'')
      else Inr ())"

definition bindLocatorKey :: "BindEndpoint \<Rightarrow> string" where
  "bindLocatorKey e = addrString (Unmap (bindAddress e)) @ [CHR 0x00] @ showNat (unat (bindPort e))"

definition dialLocatorKey :: "DialEndpoint \<Rightarrow> host_error + string" where
  "dialLocatorKey e =
     (case Canonical (epHost e) of
        Inl err \<Rightarrow> Inl err | Inr host \<Rightarrow> Inr (host @ [CHR 0x00] @ showNat (unat (epPort e))))"

definition validateNetwork :: "Network \<Rightarrow> config_error + unit" where
  "validateNetwork n =
     (if netGeneration n = 0
      then Inl (InvalidField ''Network.PublishedEndpointGeneration'' ''must be at least 1'')
      else
      check_then (validateBind ''Network.Data.Listen'' (svcListen (netData n))) (
      check_then (validateBind ''Network.Enrollment.Listen'' (svcListen (netEnrollment n))) (
      if bindLocatorKey (svcListen (netData n)) = bindLocatorKey (svcListen (netEnrollment n))
      then Inl (InvalidField ''Network'' ''data listen and enrollment listen must not share the same canonical address:port'')
      else
      check_then (validateDial ''Network.Data.Dial'' (svcListen (netData n)) (svcDial (netData n))) (
      check_then (validateDial ''Network.Enrollment.Dial'' (svcListen (netEnrollment n)) (svcDial (netEnrollment n))) (
      case dialLocatorKey (svcDial (netData n)) of
        Inl e \<Rightarrow> Inl (InvalidName ''Network.Data.Dial'' e)
      | Inr dataKey \<Rightarrow>
          (case dialLocatorKey (svcDial (netEnrollment n)) of
             Inl e \<Rightarrow> Inl (InvalidName ''Network.Enrollment.Dial'' e)
           | Inr enrollKey \<Rightarrow>
               if dataKey = enrollKey
               then Inl (InvalidField ''Network'' ''data dial and enrollment dial must not share the same canonical host:port'')
               else Inr ()))))))"

definition validateSHA256 :: "string \<Rightarrow> string \<Rightarrow> config_error + unit" where
  "validateSHA256 field value =
     (if length value \<noteq> sha256HexBytes \<or>
         \<not> list_all (\<lambda>c. CHR ''0'' \<le> c \<and> c \<le> CHR ''9'' \<or> CHR ''a'' \<le> c \<and> c \<le> CHR ''f'') value
      then Inl (InvalidField field ''must contain exactly 64 lowercase hexadecimal characters'')
      else Inr ())"

definition isUserInitial :: "char \<Rightarrow> bool" where
  "isUserInitial c \<longleftrightarrow> c = CHR ''_'' \<or> CHR ''a'' \<le> c \<and> c \<le> CHR ''z''"

definition isUserContinuation :: "char \<Rightarrow> bool" where
  "isUserContinuation c \<longleftrightarrow> isUserInitial c \<or> CHR ''0'' \<le> c \<and> c \<le> CHR ''9'' \<or> c = CHR ''-''"

definition validateDedicatedUser :: "string \<Rightarrow> config_error + unit" where
  "validateDedicatedUser user =
     (if user = [] then Inl (InvalidField ''DedicatedUser'' ''must not be empty'')
      else if length user > maxUserLength then Inl (InvalidField ''DedicatedUser'' ''must be at most 32 ASCII characters'')
      else if \<not> isUserInitial (hd user)
      then Inl (InvalidField ''DedicatedUser'' ''must start with a lowercase ASCII letter or underscore'')
      else if \<not> list_all isUserContinuation (tl user)
      then Inl (InvalidField ''DedicatedUser'' ''contains an unsafe character'')
      else if user \<in> {''root'', ''daemon'', ''nobody'', ''sshd'', ''_sshd''}
      then Inl (InvalidField ''DedicatedUser'' ''is not a dedicated tunnel account'')
      else Inr ())"

definition managedAuthorizedKeysPath :: "string \<Rightarrow> string" where
  "managedAuthorizedKeysPath user = AuthorizedKeysDirectory @ ''/'' @ user"

definition validateConfig :: "Config \<Rightarrow> config_error + Profile" where
  "validateConfig config =
     (if cfgKind config \<noteq> ManifestKind then Inl (InvalidField ''Kind'' ManifestKind)
      else if cfgSchemaVersion config \<noteq> CurrentSchemaVersion then Inl (InvalidField ''SchemaVersion'' ''must be 2'')
      else case Lookup (cfgProfileID config) of
        Inl p \<Rightarrow> Inl (InvalidField ''ProfileID'' p)
      | Inr selected \<Rightarrow>
          if Ciphers selected = [] then Inl (InvalidField ''ProfileID'' ''profile has no ciphers'')
          else
          check_then (validateSHA256 ''SSHDBinarySHA256'' (cfgSSHDBinarySHA256 config)) (
          check_then (validateSHA256 ''OpenSSHBundleManifestSHA256'' (cfgBundleManifestSHA256 config)) (
          check_then (validateNetwork (cfgNetwork config)) (
          check_then (validateEndpoint ''Target'' (cfgTarget config)) (
          check_then (validateDedicatedUser (cfgDedicatedUser config)) (
          if cfgHostKeyPath config \<noteq> ServerHostKeyPath then Inl (InvalidField ''HostKeyPath'' ServerHostKeyPath)
          else if cfgAuthorizedKeysPath config \<noteq> managedAuthorizedKeysPath (cfgDedicatedUser config)
          then Inl (InvalidField ''AuthorizedKeysPath'' (managedAuthorizedKeysPath (cfgDedicatedUser config)))
          else Inr selected))))))"

definition configTarget :: "Config \<Rightarrow> AddrPort" where
  "configTarget config = (Unmap (endAddress (cfgTarget config)), word_of_int (endPort (cfgTarget config)))"

fun joinStr :: "string \<Rightarrow> string list \<Rightarrow> string" where
  "joinStr sep [] = []"
| "joinStr sep [w] = w"
| "joinStr sep (w # v # ws) = w @ sep @ joinStr sep (v # ws)"

definition renderLines :: "Profile \<Rightarrow> Config \<Rightarrow> string list" where
  "renderLines selected config =
     (let listen = svcListen (netData (cfgNetwork config)); listenAddress = Unmap (bindAddress listen) in
     [''# Generated by WarpTweet. Do not edit.'',
      ''AddressFamily '' @ (if Is4 listenAddress then ''inet'' else ''inet6''),
      ''Port '' @ showNat (unat (bindPort listen)),
      ''ListenAddress '' @ addrString listenAddress,
      ''PidFile '' @ runtimePIDFile,
      ''HostKey '' @ cfgHostKeyPath config,
      ''HostKeyAlgorithms '' @ AuthenticationKeyType selected,
      ''KexAlgorithms '' @ KeyExchangeAlgorithm selected,
      ''PubkeyAcceptedAlgorithms '' @ AuthenticationKeyType selected,
      ''Ciphers '' @ joinStr '','' (Ciphers selected),
      ''RekeyLimit 512M 1h'',
      ''Compression no'',
      ''AuthenticationMethods publickey'',
      ''PubkeyAuthentication yes'',
      ''PasswordAuthentication no'',
      ''KbdInteractiveAuthentication no'',
      ''HostbasedAuthentication no'',
      ''PermitEmptyPasswords no'',
      ''PermitRootLogin no'',
      ''StrictModes yes'',
      ''AllowUsers '' @ cfgDedicatedUser config,
      ''AuthorizedKeysFile '' @ cfgAuthorizedKeysPath config,
      ''MaxAuthTries 3'',
      ''LoginGraceTime 30'',
      ''MaxStartups 10:30:60'',
      ''MaxSessions 0'',
      ''AllowTcpForwarding local'',
      ''PermitOpen '' @ addrPortString (configTarget config) @ '' 127.0.0.1:29723'',
      ''PermitListen none'',
      ''AllowStreamLocalForwarding no'',
      ''AllowAgentForwarding no'',
      ''X11Forwarding no'',
      ''PermitTTY no'',
      ''PermitTunnel no'',
      ''GatewayPorts no'',
      ''PermitUserRC no'',
      ''PermitUserEnvironment no'',
      ''ExposeAuthInfo no'',
      ''PrintLastLog no'',
      ''PrintMotd no'',
      ''UseDNS no'',
      ''TCPKeepAlive no'',
      ''ClientAliveInterval 30'',
      ''ClientAliveCountMax 3'',
      ''VersionAddendum none'',
      ''LogLevel VERBOSE''])"

definition Render :: "Config \<Rightarrow> config_error + string" where
  "Render config =
     (case validateConfig config of
        Inl e \<Rightarrow> Inl e
      | Inr selected \<Rightarrow> Inr (joinStr [CHR 0x0A] (renderLines selected config) @ [CHR 0x0A]))"

section \<open>Publishing\<close>

definition DialFromBind :: "BindEndpoint \<Rightarrow> DialEndpoint" where
  "DialFromBind listen = \<lparr>epHost = IPDialHost (bindAddress listen), epPort = bindPort listen\<rparr>"

definition PublicationNetwork :: "Addr \<Rightarrow> uint16 \<Rightarrow> uint16 \<Rightarrow> Network" where
  "PublicationNetwork dataAddr dataPort enrollPort =
     (let dataListen = \<lparr>bindAddress = dataAddr, bindPort = dataPort\<rparr>;
          enrollListen = \<lparr>bindAddress = dataAddr, bindPort = enrollPort\<rparr> in
      \<lparr>netGeneration = 1,
       netData = \<lparr>svcListen = dataListen, svcDial = DialFromBind dataListen\<rparr>,
       netEnrollment = \<lparr>svcListen = enrollListen, svcDial = DialFromBind enrollListen\<rparr>\<rparr>)"

definition PublishedSet :: "Network \<Rightarrow> PublishedEndpointSet" where
  "PublishedSet n =
     \<lparr>pesGeneration = netGeneration n, pesData = svcDial (netData n), pesEnrollment = svcDial (netEnrollment n)\<rparr>"

definition nextPublishedEndpointGeneration :: "uint64 \<Rightarrow> config_error + uint64" where
  "nextPublishedEndpointGeneration current =
     (if current = 0 then Inl (InvalidField ''Network.PublishedEndpointGeneration'' ''must be at least 1'')
      else if current = 18446744073709551615
      then Inl (InvalidField ''Network.PublishedEndpointGeneration'' ''cannot increment past uint64 maximum'')
      else Inr (current + 1))"

text \<open>The second result tells whether the published locators changed; the Go code returns it with errors too.\<close>

definition ProposeNetwork ::
  "BindEndpoint \<Rightarrow> BindEndpoint \<Rightarrow> DialEndpoint \<Rightarrow> DialEndpoint \<Rightarrow> Network option \<Rightarrow>
   (config_error + Network) \<times> bool" where
  "ProposeNetwork dataListen enrollListen dataDial enrollDial stored =
     (let propose = (\<lambda>g. \<lparr>netGeneration = g,
            netData = \<lparr>svcListen = dataListen, svcDial = dataDial\<rparr>,
            netEnrollment = \<lparr>svcListen = enrollListen, svcDial = enrollDial\<rparr>\<rparr>) in
      case stored of
        None \<Rightarrow> (Inr (propose 1), False)
      | Some s \<Rightarrow>
          if netGeneration s = 0
          then (Inl (InvalidField ''Network.PublishedEndpointGeneration'' ''must be at least 1''), False)
          else if SamePublishedLocators (PublishedSet s) (PublishedSet (propose (netGeneration s)))
          then (Inr (propose (netGeneration s)), False)
          else (case nextPublishedEndpointGeneration (netGeneration s) of
              Inl e \<Rightarrow> (Inl e, True)
            | Inr g \<Rightarrow> (Inr (propose g), True)))"

section \<open>Generations\<close>

text \<open>
  The networks a server stores one after the other: every accepted proposal replaces the stored
  network, a refused one leaves it.
\<close>

type_synonym proposal = "BindEndpoint \<times> BindEndpoint \<times> DialEndpoint \<times> DialEndpoint"

definition storeProposal :: "Network \<Rightarrow> proposal \<Rightarrow> Network" where
  "storeProposal stored p =
     (case p of (dataListen, enrollListen, dataDial, enrollDial) \<Rightarrow>
      (case fst (ProposeNetwork dataListen enrollListen dataDial enrollDial (Some stored)) of
         Inl e \<Rightarrow> stored | Inr n \<Rightarrow> n))"

fun storedNetworks :: "Network \<Rightarrow> proposal list \<Rightarrow> Network list" where
  "storedNetworks stored [] = [stored]"
| "storedNetworks stored (p # ps) = stored # storedNetworks (storeProposal stored p) ps"

lemma next_generation:
  "nextPublishedEndpointGeneration g = Inr g' \<Longrightarrow> unat g' = Suc (unat g)"
proof -
  assume "nextPublishedEndpointGeneration g = Inr g'"
  then have g: "g' = g + 1" "g \<noteq> - 1"
    by (auto simp: nextPublishedEndpointGeneration_def split: if_splits)
  then have "1 + g \<noteq> 0" by (metis add.commute add_eq_0_iff)
  then show ?thesis using unatSuc g by (metis add.commute)
qed

lemma endpointEqual_trans: "endpointEqual a b \<Longrightarrow> endpointEqual b c \<Longrightarrow> endpointEqual a c"
  by (auto simp: endpointEqual_def hostEqual_def split: sum.splits)

lemma SamePublishedLocators_trans:
  "SamePublishedLocators a b \<Longrightarrow> SamePublishedLocators b c \<Longrightarrow> SamePublishedLocators a c"
  by (auto simp: SamePublishedLocators_def intro: endpointEqual_trans)

text \<open>One proposal: an unchanged network, equal locators under the same generation, or a new generation.\<close>

lemma storeProposal_cases:
  obtains (kept) "storeProposal stored p = stored"
  | (same) "netGeneration (storeProposal stored p) = netGeneration stored"
      "SamePublishedLocators (PublishedSet stored) (PublishedSet (storeProposal stored p))"
  | (renewed) "unat (netGeneration (storeProposal stored p)) = Suc (unat (netGeneration stored))"
proof -
  obtain dl el dd ed where p: "p = (dl, el, dd, ed)" by (metis prod_cases4)
  have "storeProposal stored p = stored \<or>
      netGeneration (storeProposal stored p) = netGeneration stored \<and>
        SamePublishedLocators (PublishedSet stored) (PublishedSet (storeProposal stored p)) \<or>
      unat (netGeneration (storeProposal stored p)) = Suc (unat (netGeneration stored))"
  proof (cases "netGeneration stored = 0 \<or> isl (nextPublishedEndpointGeneration (netGeneration stored))")
    case True
    then show ?thesis
      by (cases "nextPublishedEndpointGeneration (netGeneration stored)")
         (simp_all add: p storeProposal_def ProposeNetwork_def Let_def)
  next
    case False
    then obtain g where g: "nextPublishedEndpointGeneration (netGeneration stored) = Inr g"
      by (cases "nextPublishedEndpointGeneration (netGeneration stored)") auto
    with False show ?thesis
      by (simp add: p storeProposal_def ProposeNetwork_def Let_def next_generation [OF g])
  qed
  then show thesis using kept same renewed by blast
qed

lemma stored_hd: "storedNetworks stored ps ! 0 = stored"
  by (cases ps) auto

lemma stored_step:
  "Suc i < length (storedNetworks stored ps) \<Longrightarrow>
   \<exists>p. storedNetworks stored ps ! Suc i = storeProposal (storedNetworks stored ps ! i) p"
proof (induction ps arbitrary: stored i)
  case (Cons p ps)
  show ?case
  proof (cases i)
    case 0
    then have "storedNetworks stored (p # ps) ! Suc i = storeProposal (storedNetworks stored (p # ps) ! i) p"
      by (simp add: stored_hd)
    then show ?thesis by blast
  next
    case (Suc k)
    then show ?thesis using Cons by auto
  qed
qed simp

text \<open>
  C15. A generation identifies the published locators: however a server's endpoints are proposed
  one after the other, refused proposals included, the generations never decrease (and never
  wrap around at 64 bits), and two stored networks with the same generation publish the same
  canonical data and enrollment locators or are the same network.
\<close>

theorem generation_identifies_locators:
  assumes "i \<le> j" and "j < length (storedNetworks stored ps)"
  shows "unat (netGeneration (storedNetworks stored ps ! i)) \<le> unat (netGeneration (storedNetworks stored ps ! j)) \<and>
    (netGeneration (storedNetworks stored ps ! i) = netGeneration (storedNetworks stored ps ! j) \<longrightarrow>
     storedNetworks stored ps ! i = storedNetworks stored ps ! j \<or>
     SamePublishedLocators (PublishedSet (storedNetworks stored ps ! i)) (PublishedSet (storedNetworks stored ps ! j)))"
  using assms
proof (induction j rule: dec_induct)
  case (step j)
  let ?h = "storedNetworks stored ps"
  obtain p where p: "?h ! Suc j = storeProposal (?h ! j) p"
    using stored_step step.prems by blast
  have IH: "unat (netGeneration (?h ! i)) \<le> unat (netGeneration (?h ! j))"
    "netGeneration (?h ! i) = netGeneration (?h ! j) \<Longrightarrow> ?h ! i = ?h ! j \<or>
       SamePublishedLocators (PublishedSet (?h ! i)) (PublishedSet (?h ! j))"
    using step.IH step.prems by auto
  show ?case
    unfolding p
  proof (rule storeProposal_cases [of "?h ! j" p], goal_cases kept same renewed)
    case kept
    then show ?case using IH by simp
  next
    case same
    then show ?case using IH by (auto dest: SamePublishedLocators_trans)
  next
    case renewed
    then show ?case using IH by auto
  qed
qed simp

definition sample_bind :: BindEndpoint where
  "sample_bind = \<lparr>bindAddress = V4 [192, 0, 2, 10], bindPort = 22\<rparr>"

definition sample_dial :: "string \<Rightarrow> uint16 \<Rightarrow> DialEndpoint" where
  "sample_dial name port = \<lparr>epHost = \<lparr>hostIP = ZeroAddr, hostName = name\<rparr>, epPort = port\<rparr>"

theorem generation_identifies_locators_witness:
  defines "ps \<equiv> [(sample_bind, sample_bind, sample_dial ''a.example'' 22, sample_dial ''a.example'' 443),
      (sample_bind, sample_bind, sample_dial ''A.EXAMPLE.'' 22, sample_dial ''a.example'' 443)]"
  shows "map (unat \<circ> netGeneration) (storedNetworks (PublicationNetwork (V4 [192, 0, 2, 10]) 22 443) ps) = [1, 2, 2] \<and>
    SamePublishedLocators (PublishedSet (storedNetworks (PublicationNetwork (V4 [192, 0, 2, 10]) 22 443) ps ! 1))
      (PublishedSet (storedNetworks (PublicationNetwork (V4 [192, 0, 2, 10]) 22 443) ps ! 2))"
proof -
  have "map (unat \<circ> netGeneration) (storedNetworks (PublicationNetwork (V4 [192, 0, 2, 10]) 22 443) ps) = [1, 2, 2]"
    "2 < length (storedNetworks (PublicationNetwork (V4 [192, 0, 2, 10]) 22 443) ps)"
    "netGeneration (storedNetworks (PublicationNetwork (V4 [192, 0, 2, 10]) 22 443) ps ! 1)
       = netGeneration (storedNetworks (PublicationNetwork (V4 [192, 0, 2, 10]) 22 443) ps ! 2)"
    "storedNetworks (PublicationNetwork (V4 [192, 0, 2, 10]) 22 443) ps ! 1
       \<noteq> storedNetworks (PublicationNetwork (V4 [192, 0, 2, 10]) 22 443) ps ! 2"
    unfolding ps_def by code_simp+
  with generation_identifies_locators [OF _ this(2), of 1] show ?thesis by simp
qed

section \<open>The rendered configuration\<close>

definition keyword :: "string \<Rightarrow> string" where
  "keyword line = takeWhile (\<lambda>c. c \<noteq> CHR 0x20) line"

lemma check_then_ok: "check_then a b = Inr x \<longleftrightarrow> a = Inr () \<and> b = Inr x"
  by (auto simp: check_then_def split: sum.splits)

lemma validateConfig_ok:
  assumes "validateConfig config = Inr selected"
  shows "selected = current_profile" "validateNetwork (cfgNetwork config) = Inr ()"
    "validateEndpoint ''Target'' (cfgTarget config) = Inr ()"
    "validateDedicatedUser (cfgDedicatedUser config) = Inr ()"
    "cfgHostKeyPath config = ServerHostKeyPath"
    "cfgAuthorizedKeysPath config = managedAuthorizedKeysPath (cfgDedicatedUser config)"
  using assms
  by (auto simp: validateConfig_def Lookup_def check_then_ok split: sum.splits if_splits)

text \<open>Addresses, ports and account names are printable and free of quotation marks.\<close>

definition quotable :: "char \<Rightarrow> bool" where
  "quotable c \<longleftrightarrow> visible c \<and> c \<noteq> CHR 0x22"

lemma quotable_digit: "isDigit c \<Longrightarrow> quotable c"
  using visible_digit by (auto simp: quotable_def isDigit_iff)

lemma hexDigits_quotable: "list_all quotable (hexDigits n)"
proof (induction n rule: hexDigits.induct)
  case (1 n)
  have "k < 16 \<Longrightarrow> quotable (''0123456789abcdef'' ! k)" for k
  proof -
    assume "k < 16"
    moreover have "list_all quotable ''0123456789abcdef''" by code_simp
    ultimately show "quotable (''0123456789abcdef'' ! k)" by (simp only: list_all_length) simp
  qed
  then show ?case using 1 by (subst hexDigits.simps) simp
qed

lemma showNat_quotable: "list_all quotable (showNat n)"
  using showNat_digits [of n] quotable_digit by (auto simp: list_all_iff)

lemma quotable_punct: "quotable CHR ''.''" "quotable CHR '':''" "quotable CHR ''[''" "quotable CHR '']''" "quotable CHR ''f''"
  by code_simp+

lemma string4_quotable: "list_all quotable (string4 b)"
  using showNat_quotable by (simp add: string4_def quotable_punct)

lemma groups6_quotable: "list_all quotable (groups6 b is)"
  using hexDigits_quotable by (cases "is") (auto simp: list_all_iff quotable_punct)

lemma string6_quotable: "list_all quotable (string6 b)"
  using groups6_quotable by (simp add: string6_def quotable_punct split: option.splits)

lemma addrString_quotable: "isValid a \<Longrightarrow> Zone a = [] \<Longrightarrow> list_all quotable (addrString a)"
  using string4_quotable string6_quotable
  by (simp add: addrString_def isValid_def Zone_def zoneString_def quotable_punct split: Addr.splits)

lemma addrPortString_quotable:
  "isValid (fst ap) \<Longrightarrow> Zone (fst ap) = [] \<Longrightarrow> list_all quotable (addrPortString ap)"
  using string4_quotable addrString_quotable [of "fst ap"] showNat_quotable
  by (cases "fst ap") (simp_all add: addrPortString_def quotable_punct isValid_def)

lemma Zone_Unmap: "Zone a = [] \<Longrightarrow> Zone (Unmap a) = []"
  by (auto simp: Zone_def Unmap_def split: Addr.splits)

lemma isValid_Unmap: "isValid a \<Longrightarrow> isValid (Unmap a)"
  by (auto simp: isValid_def Unmap_def split: Addr.splits)

lemma validateEndpoint_ok:
  "validateEndpoint field e = Inr () \<Longrightarrow>
   isValid (endAddress e) \<and> Zone (endAddress e) = [] \<and> 1 \<le> endPort e \<and> endPort e \<le> 65535"
  by (auto simp: validateEndpoint_def Let_def split: if_splits)

lemma validateNetwork_listen:
  assumes "validateNetwork n = Inr ()"
  shows "isValid (bindAddress (svcListen (netData n))) \<and> Zone (bindAddress (svcListen (netData n))) = []"
proof -
  have "validateBind ''Network.Data.Listen'' (svcListen (netData n)) = Inr ()"
    using assms by (auto simp: validateNetwork_def check_then_ok split: if_splits)
  then show ?thesis by (auto simp: validateBind_def dest: validateEndpoint_ok)
qed

lemma user_quotable:
  assumes "validateDedicatedUser user = Inr ()" shows "list_all quotable user"
proof -
  have "isUserContinuation c \<Longrightarrow> quotable c" for c
    by (auto simp: isUserContinuation_def isUserInitial_def quotable_def visible_def less_eq_char_def)
  moreover have "user = hd user # tl user" "isUserContinuation (hd user)" "list_all isUserContinuation (tl user)"
    using assms by (auto simp: validateDedicatedUser_def isUserContinuation_def split: if_splits)
  ultimately show ?thesis by (metis list_all_iff set_ConsD)
qed

lemma split_joined:
  assumes "ws \<noteq> []" "\<forall>w \<in> set ws. sep \<notin> set w"
  shows "splitOn sep (joinStr [sep] ws) = ws"
  using assms by (induction "[sep]" ws rule: joinStr.induct) (auto simp: splitOn_append_sep splitOn_no_sep)

lemma no_LF_quotable: "list_all quotable s \<Longrightarrow> CHR 0x0A \<notin> set s"
proof -
  have "\<not> quotable CHR 0x0A" by code_simp
  then show "list_all quotable s \<Longrightarrow> CHR 0x0A \<notin> set s" by (auto simp only: list_all_iff)
qed

lemma renderLines_no_LF:
  assumes "validateConfig config = Inr selected" "line \<in> set (renderLines selected config)"
  shows "CHR 0x0A \<notin> set line"
proof -
  note v = validateConfig_ok [OF assms(1)]
  have user: "CHR 0x0A \<notin> set (cfgDedicatedUser config)"
    using user_quotable [OF v(4)] by (rule no_LF_quotable)
  have listen: "CHR 0x0A \<notin> set (addrString (Unmap (bindAddress (svcListen (netData (cfgNetwork config))))))"
    using validateNetwork_listen [OF v(2)]
    by (intro no_LF_quotable addrString_quotable) (auto simp: isValid_Unmap Zone_Unmap)
  have target: "CHR 0x0A \<notin> set (addrPortString (configTarget config))"
    using validateEndpoint_ok [OF v(3)]
    by (intro no_LF_quotable addrPortString_quotable) (auto simp: configTarget_def isValid_Unmap Zone_Unmap)
  have port: "CHR 0x0A \<notin> set (showNat n)" for n
    using showNat_quotable by (rule no_LF_quotable)
  show ?thesis
    using assms(2) user listen target port
    by (auto simp: renderLines_def Let_def v current_profile_def runtimePIDFile_def ServerHostKeyPath_def
        managedAuthorizedKeysPath_def AuthorizedKeysDirectory_def split: if_splits)
qed

lemma no_blank_quotable: "list_all quotable s \<Longrightarrow> CHR 0x20 \<notin> set s"
proof -
  have "\<not> quotable CHR 0x20" by code_simp
  then show "list_all quotable s \<Longrightarrow> CHR 0x20 \<notin> set s" by (auto simp only: list_all_iff)
qed

lemma keyword_renderLines:
  "map keyword (renderLines selected config) =
     [''#'', ''AddressFamily'', ''Port'', ''ListenAddress'', ''PidFile'', ''HostKey'', ''HostKeyAlgorithms'',
      ''KexAlgorithms'', ''PubkeyAcceptedAlgorithms'', ''Ciphers'', ''RekeyLimit'', ''Compression'',
      ''AuthenticationMethods'', ''PubkeyAuthentication'', ''PasswordAuthentication'',
      ''KbdInteractiveAuthentication'', ''HostbasedAuthentication'', ''PermitEmptyPasswords'',
      ''PermitRootLogin'', ''StrictModes'', ''AllowUsers'', ''AuthorizedKeysFile'', ''MaxAuthTries'',
      ''LoginGraceTime'', ''MaxStartups'', ''MaxSessions'', ''AllowTcpForwarding'', ''PermitOpen'',
      ''PermitListen'', ''AllowStreamLocalForwarding'', ''AllowAgentForwarding'', ''X11Forwarding'',
      ''PermitTTY'', ''PermitTunnel'', ''GatewayPorts'', ''PermitUserRC'', ''PermitUserEnvironment'',
      ''ExposeAuthInfo'', ''PrintLastLog'', ''PrintMotd'', ''UseDNS'', ''TCPKeepAlive'',
      ''ClientAliveInterval'', ''ClientAliveCountMax'', ''VersionAddendum'', ''LogLevel'']"
  by (simp add: renderLines_def Let_def keyword_def)

text \<open>
  C16. Nothing in a validated policy can add, remove, repeat or change a directive: the rendered
  file consists of exactly the following lines and nothing else, whatever the policy is. Only the
  address family, port and address to listen on, the account, its key file and the forwarding
  target depend on the policy, and they are the policy's listen address and port, account (which
  has no blanks, so that it is one account) and target. Every keyword occurs once.
\<close>

theorem render_fixed_directives:
  assumes "Render config = Inr out"
    and "listen = Unmap (bindAddress (svcListen (netData (cfgNetwork config))))"
    and "port = unat (bindPort (svcListen (netData (cfgNetwork config))))"
    and "user = cfgDedicatedUser config"
    and "target = (Unmap (endAddress (cfgTarget config)), word_of_int (endPort (cfgTarget config)))"
  shows "splitOn (CHR 0x0A) out =
      [''# Generated by WarpTweet. Do not edit.'',
       ''AddressFamily '' @ (if Is4 listen then ''inet'' else ''inet6''), ''Port '' @ showNat port,
       ''ListenAddress '' @ addrString listen, ''PidFile /run/warptweet/sshd/warptweet-sshd.pid'',
       ''HostKey /var/lib/warptweet/ssh/ssh_host_mldsa44_ed25519_key'',
       ''HostKeyAlgorithms ssh-mldsa44-ed25519@openssh.com'', ''KexAlgorithms mlkem768x25519-sha256'',
       ''PubkeyAcceptedAlgorithms ssh-mldsa44-ed25519@openssh.com'',
       ''Ciphers chacha20-poly1305@openssh.com'', ''RekeyLimit 512M 1h'', ''Compression no'',
       ''AuthenticationMethods publickey'', ''PubkeyAuthentication yes'', ''PasswordAuthentication no'',
       ''KbdInteractiveAuthentication no'', ''HostbasedAuthentication no'', ''PermitEmptyPasswords no'',
       ''PermitRootLogin no'', ''StrictModes yes'', ''AllowUsers '' @ user,
       ''AuthorizedKeysFile /var/lib/warptweet/authorized_keys/'' @ user, ''MaxAuthTries 3'',
       ''LoginGraceTime 30'', ''MaxStartups 10:30:60'', ''MaxSessions 0'', ''AllowTcpForwarding local'',
       ''PermitOpen '' @ addrPortString target @ '' 127.0.0.1:29723'', ''PermitListen none'',
       ''AllowStreamLocalForwarding no'', ''AllowAgentForwarding no'', ''X11Forwarding no'',
       ''PermitTTY no'', ''PermitTunnel no'', ''GatewayPorts no'', ''PermitUserRC no'',
       ''PermitUserEnvironment no'', ''ExposeAuthInfo no'', ''PrintLastLog no'', ''PrintMotd no'',
       ''UseDNS no'', ''TCPKeepAlive no'', ''ClientAliveInterval 30'', ''ClientAliveCountMax 3'',
       ''VersionAddendum none'', ''LogLevel VERBOSE''] @ [[]] \<and>
    distinct (map keyword (splitOn (CHR 0x0A) out)) \<and> CHR 0x20 \<notin> set user"
proof -
  obtain selected where v: "validateConfig config = Inr selected"
    and out: "out = joinStr [CHR 0x0A] (renderLines selected config) @ [CHR 0x0A]"
    using assms(1) by (auto simp: Render_def split: sum.splits)
  have "renderLines selected config \<noteq> []" by (simp add: renderLines_def Let_def)
  then have lines: "splitOn (CHR 0x0A) out = renderLines selected config @ [[]]"
    using renderLines_no_LF [OF v] by (simp add: out splitOn_append_sep split_joined)
  note fields = validateConfig_ok [OF v]
  have all: "renderLines selected config =
      [''# Generated by WarpTweet. Do not edit.'',
       ''AddressFamily '' @ (if Is4 listen then ''inet'' else ''inet6''), ''Port '' @ showNat port,
       ''ListenAddress '' @ addrString listen, ''PidFile /run/warptweet/sshd/warptweet-sshd.pid'',
       ''HostKey /var/lib/warptweet/ssh/ssh_host_mldsa44_ed25519_key'',
       ''HostKeyAlgorithms ssh-mldsa44-ed25519@openssh.com'', ''KexAlgorithms mlkem768x25519-sha256'',
       ''PubkeyAcceptedAlgorithms ssh-mldsa44-ed25519@openssh.com'',
       ''Ciphers chacha20-poly1305@openssh.com'', ''RekeyLimit 512M 1h'', ''Compression no'',
       ''AuthenticationMethods publickey'', ''PubkeyAuthentication yes'', ''PasswordAuthentication no'',
       ''KbdInteractiveAuthentication no'', ''HostbasedAuthentication no'', ''PermitEmptyPasswords no'',
       ''PermitRootLogin no'', ''StrictModes yes'', ''AllowUsers '' @ user,
       ''AuthorizedKeysFile /var/lib/warptweet/authorized_keys/'' @ user, ''MaxAuthTries 3'',
       ''LoginGraceTime 30'', ''MaxStartups 10:30:60'', ''MaxSessions 0'', ''AllowTcpForwarding local'',
       ''PermitOpen '' @ addrPortString target @ '' 127.0.0.1:29723'', ''PermitListen none'',
       ''AllowStreamLocalForwarding no'', ''AllowAgentForwarding no'', ''X11Forwarding no'',
       ''PermitTTY no'', ''PermitTunnel no'', ''GatewayPorts no'', ''PermitUserRC no'',
       ''PermitUserEnvironment no'', ''ExposeAuthInfo no'', ''PrintLastLog no'', ''PrintMotd no'',
       ''UseDNS no'', ''TCPKeepAlive no'', ''ClientAliveInterval 30'', ''ClientAliveCountMax 3'',
       ''VersionAddendum none'', ''LogLevel VERBOSE'']"
    unfolding fields(1)
    by (simp add: renderLines_def Let_def current_profile_def configTarget_def runtimePIDFile_def
        ServerHostKeyPath_def managedAuthorizedKeysPath_def AuthorizedKeysDirectory_def fields assms)
  have once: "distinct (map keyword (splitOn (CHR 0x0A) out))"
    unfolding lines map_append keyword_renderLines by code_simp
  have "CHR 0x20 \<notin> set user"
    using no_blank_quotable [OF user_quotable [OF fields(4)]] by (simp add: assms(4))
  then show ?thesis
    by (intro conjI once) (simp only: lines all)
qed

definition sample_config :: Config where
  "sample_config = \<lparr>
     cfgKind = ManifestKind, cfgSchemaVersion = 2, cfgProfileID = CurrentID,
     cfgSSHDBinarySHA256 = replicate 64 (CHR ''a''), cfgBundleManifestSHA256 = replicate 64 (CHR ''0''),
     cfgNetwork = PublicationNetwork (V4 [192, 0, 2, 10]) 22 443,
     cfgTarget = \<lparr>endAddress = V4 [10, 0, 0, 5], endPort = 8080\<rparr>,
     cfgDedicatedUser = ''warptweet'', cfgHostKeyPath = ServerHostKeyPath,
     cfgAuthorizedKeysPath = ''/var/lib/warptweet/authorized_keys/warptweet''\<rparr>"

theorem render_fixed_directives_witness:
  "\<exists>out. Render sample_config = Inr out \<and> length (splitOn (CHR 0x0A) out) = 47 \<and>
     ''PasswordAuthentication no'' \<in> set (splitOn (CHR 0x0A) out) \<and>
     ''PermitOpen 10.0.0.5:8080 127.0.0.1:29723'' \<in> set (splitOn (CHR 0x0A) out)"
proof -
  have "isl (Render sample_config) = False" by code_simp
  then obtain out where out: "Render sample_config = Inr out" by (cases "Render sample_config") auto
  have target: "addrPortString (Unmap (endAddress (cfgTarget sample_config)),
      word_of_int (endPort (cfgTarget sample_config))) = ''10.0.0.5:8080''" by code_simp
  note lines = conjunct1 [OF render_fixed_directives [OF out refl refl refl refl]]
  show ?thesis unfolding out by (rule exI [of _ out]) (simp add: lines target)
qed

end
