(* ===== verification/Managed_Keys.thy ===== *)
theory Managed_Keys
  imports Server_Config Authorized_Keys
begin

text \<open>
  \<open>internal/server/authorized.go\<close>: the canonical line of a managed client key, which binds the
  key to its target, the management service and an expiry time, and the validation of a whole
  \<open>authorized_keys\<close> file as a list of such lines.
\<close>

section \<open>Definitions\<close>

definition MaxAuthorizedKeyInputBytes :: nat where "MaxAuthorizedKeyInputBytes = 8 * 1024"
definition MaxAuthorizedKeysBytes :: nat where "MaxAuthorizedKeysBytes = 1024 * 1024"
definition ManagedClientMarker :: string where "ManagedClientMarker = ''warptweet-managed-client''"

datatype line_error =
    NotManagedFormat | WrongKeyType | ManagementRequired | TargetMismatch | ExpiryRequired
  | ManagementMismatch | ExpiryUnquoted | ExpiryShape | ExpiryNotUTC

datatype key_error =
    InputEmpty | InputTooLong nat | BadConfig config_error | LineEmpty | SurroundingSpace
  | ManyLines | ControlCharacter nat | MissingBlob | TypeMismatch string | BadBlob blob_error
  | ExpiryMissing | ExpiryError duration_error | FileTooLong nat | NoFinalLF
  | LineLength nat | LineControl nat nat | LineSuffix nat | LineFormat nat line_error
  | LineBlobField nat | LineDuplicate nat | LineBlob nat blob_error | LineRender nat key_error
  | LineNotCanonical nat

fun indexStr :: "string \<Rightarrow> string \<Rightarrow> nat option" where
  "indexStr [] p = (if p = [] then Some 0 else None)"
| "indexStr (c # cs) p = (if hasPrefix (c # cs) p then Some 0 else map_option Suc (indexStr cs p))"

text \<open>\<open>time.Parse\<close> with the layout \<open>20060102150405Z\<close>; like the library it takes a fraction.\<close>

definition parseCompact :: "string \<Rightarrow> time option" where
  "parseCompact s =
     (case takeDigits 4 s of None \<Rightarrow> None | Some (y, s) \<Rightarrow>
     (case takeDigits 2 s of None \<Rightarrow> None | Some (m, s) \<Rightarrow>
     (case takeDigits 2 s of None \<Rightarrow> None | Some (d, s) \<Rightarrow>
     (case takeHour s of None \<Rightarrow> None | Some (h, s) \<Rightarrow>
     (case takeDigits 2 s of None \<Rightarrow> None | Some (mi, s) \<Rightarrow>
     (case takeDigits 2 s of None \<Rightarrow> None | Some (sec, s) \<Rightarrow>
     (case takeFrac s of (ns, s) \<Rightarrow>
        if s = ''Z'' \<and> 1 \<le> m \<and> m \<le> 12 \<and> h < 24 \<and> mi < 60 \<and> sec < 60 \<and>
           1 \<le> d \<and> int d \<le> daysIn (int y) (int m)
        then Some (days_of (int y) (int m) (int d) * nanosPerDay
                   + int ((h * 3600 + mi * 60 + sec) * 1000000000 + ns))
        else None)))))))"

fun controlAt :: "(char \<Rightarrow> bool) \<Rightarrow> nat \<Rightarrow> string \<Rightarrow> nat option" where
  "controlAt bad i [] = None"
| "controlAt bad i (c # cs) = (if bad c then Some i else controlAt bad (Suc i) cs)"

fun lineBytes :: "nat \<Rightarrow> string \<Rightarrow> key_error + unit" where
  "lineBytes i [] = Inr ()"
| "lineBytes i (c # cs) =
     (if c = CHR 0x0D \<or> c = CHR 0x0A then Inl ManyLines
      else if of_char c < (0x20 :: nat) \<and> c \<noteq> CHR 0x09 \<or> c = CHR 0x7F then Inl (ControlCharacter i)
      else lineBytes (Suc i) cs)"

definition chompLine :: "string \<Rightarrow> string" where
  "chompLine raw =
     (if hasSuffix raw [CHR 0x0A]
      then (let line = butlast raw in if hasSuffix line [CHR 0x0D] then butlast line else line)
      else raw)"

definition blank :: "char \<Rightarrow> bool" where
  "blank c \<longleftrightarrow> c = CHR 0x20 \<or> c = CHR 0x09"

definition onePublicKeyLine :: "string \<Rightarrow> key_error + string" where
  "onePublicKeyLine raw =
     (let line = chompLine raw in
      if line = [] then Inl LineEmpty
      else if blank (hd line) \<or> blank (last line) then Inl SurroundingSpace
      else check_then (lineBytes 0 line) (Inr line))"

definition managedAuthorizedKeyPrefixForTarget :: "string \<Rightarrow> AddrPort \<Rightarrow> time \<Rightarrow> key_error + string" where
  "managedAuthorizedKeyPrefixForTarget algorithm target notAfter =
     (if isZeroTime notAfter then Inl ExpiryMissing
      else case OpenSSHExpiryTime notAfter of
        Inl e \<Rightarrow> Inl (ExpiryError e)
      | Inr expiry \<Rightarrow> Inr (''restrict,port-forwarding,permitopen=\"'' @ addrPortString target @
          ''\",permitopen=\"127.0.0.1:29723\",expiry-time=\"'' @ expiry @ ''\" '' @ algorithm @ '' ''))"

definition renderManagedAuthorizedKeyForTarget ::
  "string \<Rightarrow> string \<Rightarrow> AddrPort \<Rightarrow> time \<Rightarrow> key_error + string" where
  "renderManagedAuthorizedKeyForTarget algorithm blob target notAfter =
     (case managedAuthorizedKeyPrefixForTarget algorithm target notAfter of
        Inl e \<Rightarrow> Inl e
      | Inr start \<Rightarrow> Inr (start @ blob @ '' '' @ ManagedClientMarker @ [CHR 0x0A]))"

definition renderManagedAuthorizedKey :: "Config \<Rightarrow> string \<Rightarrow> string \<Rightarrow> time \<Rightarrow> key_error + string" where
  "renderManagedAuthorizedKey config algorithm blob notAfter =
     renderManagedAuthorizedKeyForTarget algorithm blob (configTarget config) notAfter"

text \<open>The checks that \<open>RenderAuthorizedKey\<close> and \<open>RenderAuthorizedKeyForTarget\<close> share: the key's blob.\<close>

definition plainKeyBlob :: "Config \<Rightarrow> string \<Rightarrow> key_error + Profile \<times> string" where
  "plainKeyBlob config publicKey =
     (if publicKey = [] then Inl InputEmpty
      else if length publicKey > MaxAuthorizedKeyInputBytes then Inl (InputTooLong (length publicKey))
      else case validateConfig config of
        Inl e \<Rightarrow> Inl (BadConfig e)
      | Inr selected \<Rightarrow>
      (case onePublicKeyLine publicKey of
        Inl e \<Rightarrow> Inl e
      | Inr line \<Rightarrow>
          let fs = stringFields line in
          if length fs < 2 then Inl MissingBlob
          else if fs ! 0 \<noteq> AuthenticationKeyType selected then Inl (TypeMismatch (fs ! 0))
          else (case ValidatePublicKeyBlob (fs ! 1) (AuthenticationKeyType selected) (RawPublicKeyBytes selected) of
              Inl e \<Rightarrow> Inl (BadBlob e) | Inr _ \<Rightarrow> Inr (selected, fs ! 1))))"

definition RenderAuthorizedKeyForTarget :: "Config \<Rightarrow> string \<Rightarrow> AddrPort \<Rightarrow> time \<Rightarrow> key_error + string" where
  "RenderAuthorizedKeyForTarget config publicKey target notAfter =
     (case plainKeyBlob config publicKey of
        Inl e \<Rightarrow> Inl e
      | Inr (selected, blob) \<Rightarrow>
          renderManagedAuthorizedKeyForTarget (AuthenticationKeyType selected) blob target notAfter)"

definition RenderAuthorizedKey :: "Config \<Rightarrow> string \<Rightarrow> time \<Rightarrow> key_error + string" where
  "RenderAuthorizedKey config publicKey notAfter =
     (case plainKeyBlob config publicKey of
        Inl e \<Rightarrow> Inl e
      | Inr _ \<Rightarrow> RenderAuthorizedKeyForTarget config publicKey (configTarget config) notAfter)"

text \<open>The part of \<open>parseManagedAuthorizedKey\<close> that reads the options after their fixed beginning.\<close>

definition parseOptions :: "Config \<Rightarrow> string \<Rightarrow> line_error + time" where
  "parseOptions config remainder =
     (let sep = ''\",permitopen=\"''; expirySep = ''\",expiry-time=\"'' in
      case indexStr remainder sep of
        None \<Rightarrow> Inl ManagementRequired
      | Some targetEnd \<Rightarrow>
          if take targetEnd remainder \<noteq> addrPortString (configTarget config) then Inl TargetMismatch
          else let remainder = drop (targetEnd + length sep) remainder in
          (case indexStr remainder expirySep of
             None \<Rightarrow> Inl ExpiryRequired
           | Some mgmtEnd \<Rightarrow>
               if take mgmtEnd remainder \<noteq> ''127.0.0.1:29723'' then Inl ManagementMismatch
               else let expiryAndRest = drop (mgmtEnd + length expirySep) remainder in
               if \<not> hasSuffix expiryAndRest ''\"'' then Inl ExpiryUnquoted
               else let expiry = butlast expiryAndRest in
               if \<not> hasSuffix expiry ''Z'' \<or> length expiry \<noteq> 15 then Inl ExpiryShape
               else (case parseCompact expiry of None \<Rightarrow> Inl ExpiryNotUTC | Some notAfter \<Rightarrow> Inr notAfter)))"

definition parseManagedAuthorizedKey :: "Config \<Rightarrow> string \<Rightarrow> string \<Rightarrow> line_error + time \<times> string" where
  "parseManagedAuthorizedKey config algorithm line =
     (let fs = stringFields line; start = ''restrict,port-forwarding,permitopen=\"'' in
      if length fs < 3 then Inl NotManagedFormat
      else if fs ! 1 \<noteq> algorithm then Inl WrongKeyType
      else if \<not> hasPrefix (fs ! 0) start then Inl NotManagedFormat
      else if length fs > 3 \<and> joinStr '' '' (drop 3 fs) \<noteq> ManagedClientMarker then Inl NotManagedFormat
      else case parseOptions config (drop (length start) (fs ! 0)) of
        Inl e \<Rightarrow> Inl e | Inr notAfter \<Rightarrow> Inr (notAfter, fs ! 2))"

definition validateLine :: "Config \<Rightarrow> Profile \<Rightarrow> nat \<Rightarrow> string set \<Rightarrow> string \<Rightarrow> key_error + string" where
  "validateLine config selected n seen line =
     (if line = [] \<or> length line > MaxAuthorizedKeyInputBytes \<or> CHR 0x0D \<in> set line then Inl (LineLength n)
      else case controlAt (\<lambda>c. of_char c < (0x20 :: nat) \<or> c = CHR 0x7F) 0 line of
        Some i \<Rightarrow> Inl (LineControl n i)
      | None \<Rightarrow>
      if \<not> hasSuffix line ('' '' @ ManagedClientMarker) then Inl (LineSuffix n)
      else (case parseManagedAuthorizedKey config (AuthenticationKeyType selected) line of
        Inl e \<Rightarrow> Inl (LineFormat n e)
      | Inr (notAfter, blob) \<Rightarrow>
          if blob = [] \<or> containsAny blob [CHR 0x20, CHR 0x09] then Inl (LineBlobField n)
          else if blob \<in> seen then Inl (LineDuplicate n)
          else (case ValidatePublicKeyBlob blob (AuthenticationKeyType selected) (RawPublicKeyBytes selected) of
            Inl e \<Rightarrow> Inl (LineBlob n e)
          | Inr _ \<Rightarrow>
            (case renderManagedAuthorizedKey config (AuthenticationKeyType selected) blob notAfter of
              Inl e \<Rightarrow> Inl (LineRender n e)
            | Inr canonical \<Rightarrow>
                if canonical = [] \<or> last canonical \<noteq> CHR 0x0A \<or> line \<noteq> butlast canonical
                then Inl (LineNotCanonical n) else Inr blob))))"

fun validateLines :: "Config \<Rightarrow> Profile \<Rightarrow> nat \<Rightarrow> string set \<Rightarrow> string list \<Rightarrow> key_error + unit" where
  "validateLines config selected n seen [] = Inr ()"
| "validateLines config selected n seen (line # lines) =
     (case validateLine config selected n seen line of
        Inl e \<Rightarrow> Inl e
      | Inr blob \<Rightarrow> validateLines config selected (Suc n) (insert blob seen) lines)"

definition ValidateAuthorizedKeys :: "Config \<Rightarrow> string \<Rightarrow> key_error + nat" where
  "ValidateAuthorizedKeys config contents =
     (case validateConfig config of
        Inl e \<Rightarrow> Inl (BadConfig e)
      | Inr selected \<Rightarrow>
          if contents = [] then Inr 0
          else if length contents > MaxAuthorizedKeysBytes then Inl (FileTooLong (length contents))
          else if last contents \<noteq> CHR 0x0A then Inl NoFinalLF
          else let lines = splitOn (CHR 0x0A) (butlast contents) in
          check_then (validateLines config selected 1 {} lines) (Inr (length lines)))"

section \<open>Expiry times\<close>

text \<open>The clock fields of a time of day.\<close>

lemma clock_fields:
  assumes "s < (86400 :: nat)"
  shows "s div 3600 < 24" "s mod 3600 div 60 < 60" "s mod 60 < 60"
    "s div 3600 * 3600 + s mod 3600 div 60 * 60 + s mod 60 = s"
proof -
  show "s div 3600 < 24" using assms by (simp add: less_mult_imp_div_less)
  show "s mod 3600 div 60 < 60" by (simp add: less_mult_imp_div_less)
  show "s mod 60 < 60" by simp
  have "s mod 3600 mod 60 = s mod 60" by (simp add: mod_mod_cancel)
  then show "s div 3600 * 3600 + s mod 3600 div 60 * 60 + s mod 60 = s"
    by (metis div_mult_mod_eq add.assoc)
qed

lemma expiry_text:
  assumes "plain_time t" "t \<noteq> 0" "t mod Second = 0"
  obtains e where "OpenSSHExpiryTime t = Inr e" "length e = 15" "list_all (\<lambda>c. isDigit c \<or> c = CHR ''Z'') e"
    "hasSuffix e ''Z''" "parseCompact e = Some t"
proof -
  obtain y m d where c: "civil (t div nanosPerDay) = (y, m, d)" by (metis prod_cases3)
  note v = civil_valid [OF c]
  have y: "0 \<le> y" "y < 10 ^ 4" using assms(1) c by (simp_all add: plain_time_def timeYear_def)
  define ns where "ns = nat (t mod nanosPerDay)"
  define s where "s = ns div 1000000000"
  have ns: "int ns = t mod nanosPerDay" "ns < 86400 * 1000000000"
    by (simp_all add: ns_def nanosPerDay_def nat_less_iff)
  have "int (ns mod 1000000000) = 0"
    using assms(3) ns(1) by (simp add: zmod_int nanosPerDay_def Second_def mod_mod_cancel)
  then have zero: "ns = s * 1000000000" unfolding s_def by (simp add: mod_0_imp_dvd)
  have s: "s < 86400" using ns(2) by (simp add: s_def less_mult_imp_div_less)
  note hms = clock_fields [OF s]
  define e where "e = dec 4 (nat y) @ dec 2 (nat m) @ dec 2 (nat d) @
      dec 2 (s div 3600) @ dec 2 (s mod 3600 div 60) @ dec 2 (s mod 60) @ ''Z''"
  have "OpenSSHExpiryTime t = Inr e"
    using y v(1-3,5) assms(2)
    by (simp add: OpenSSHExpiryTime_def isZeroTime_def c Let_def appendInt_nonneg e_def flip: ns_def s_def)
  moreover have "length e = 15" by (simp add: e_def)
  moreover have "list_all (\<lambda>c. isDigit c \<or> c = CHR ''Z'') e"
    by (auto simp: e_def list_all_iff dest: dec_digits)
  moreover have "hasSuffix e ''Z''" by (auto simp: e_def hasSuffix_iff)
  moreover have "parseCompact e = Some t"
  proof -
    have bounds: "nat y < 10 ^ 4" "nat m < 10 ^ 2" "nat d < 10 ^ 2" "nat m \<le> 12" "Suc 0 \<le> nat m"
      "Suc 0 \<le> nat d" "int (nat d) \<le> daysIn (int (nat y)) (int (nat m))"
      using y v(1-5) by (simp_all add: nat_less_iff)
    have small: "s div 3600 < 100" "s mod 3600 div 60 < 10 ^ 2" "s mod 60 < 10 ^ 2"
      using hms by simp_all
    have "takeFrac ''Z'' = (0, ''Z'')" by code_simp
    then have "parseCompact e = Some (days_of y m d * nanosPerDay + int (s * 1000000000))"
      unfolding e_def parseCompact_def
      using bounds(4-7) hms y(1) v(1,3)
      by (simp add: takeDigits_dec [OF bounds(1)] takeDigits_dec [OF bounds(2)]
          takeDigits_dec [OF bounds(3)] takeHour_dec [OF small(1)] takeDigits_dec [OF small(2)]
          takeDigits_dec [OF small(3)] del: takeDigits_dec takeHour_dec)
    also have "\<dots> = Some t" using v(6) ns(1) zero by simp
    finally show ?thesis .
  qed
  ultimately show thesis by (rule that)
qed

lemma decimal_bound: "list_all isDigit s \<Longrightarrow> decimal 0 s < 10 ^ length s"
proof (induction s rule: rev_induct)
  case (snoc c s)
  then have "decimal 0 s < 10 ^ length s" "of_char c \<le> (57 :: nat)" by (auto simp: isDigit_iff)
  then show ?case by (simp add: decimal_append)
qed simp

lemma takeDigits_SomeD:
  "takeDigits n s = Some (v, r) \<Longrightarrow> v < 10 ^ n \<and> length s = n + length r"
  using decimal_bound [of "take n s"] by (auto simp: takeDigits_def split: if_splits)

lemma takeHour_SomeD: "takeHour s = Some (v, r) \<Longrightarrow> length r + 1 \<le> length s \<and> length s \<le> length r + 2"
  by (auto simp: takeHour_def split: option.splits dest: takeDigits_SomeD)

lemma takeFrac_short:
  assumes "takeFrac s = (ns, ''Z'')" "length s \<le> 2" shows "ns = 0"
proof (rule ccontr)
  assume "ns \<noteq> 0"
  then obtain c rest where s: "s = c # rest" "takeWhile isDigit rest \<noteq> []" "dropWhile isDigit rest = ''Z''"
    using assms(1) by (auto simp: takeFrac_def Let_def split: list.splits if_splits)
  then have "length rest = length (takeWhile isDigit rest) + length ''Z''"
    by (metis length_append takeWhile_dropWhile_id)
  moreover have "0 < length (takeWhile isDigit rest)" using s(2) by blast
  ultimately show False using assms(2) s(1) by simp
qed

lemma parseCompact_plain:
  assumes "parseCompact e = Some t" "length e = 15"
  shows "plain_time t" "t mod Second = 0"
proof -
  obtain y s1 m s2 d s3 h s4 mi s5 sec s6 ns where
    r: "takeDigits 4 e = Some (y, s1)" "takeDigits 2 s1 = Some (m, s2)" "takeDigits 2 s2 = Some (d, s3)"
      "takeHour s3 = Some (h, s4)" "takeDigits 2 s4 = Some (mi, s5)" "takeDigits 2 s5 = Some (sec, s6)"
      "takeFrac s6 = (ns, ''Z'')"
    and ok: "1 \<le> m" "m \<le> 12" "h < 24" "mi < 60" "sec < 60" "1 \<le> d" "int d \<le> daysIn (int y) (int m)"
    and t: "t = days_of (int y) (int m) (int d) * nanosPerDay
        + int ((h * 3600 + mi * 60 + sec) * 1000000000 + ns)"
    using assms(1) by (auto simp: parseCompact_def split: option.splits prod.splits if_splits)
  have "length s6 \<le> 2"
    using takeDigits_SomeD [OF r(1)] takeDigits_SomeD [OF r(2)] takeDigits_SomeD [OF r(3)]
      takeHour_SomeD [OF r(4)] takeDigits_SomeD [OF r(5)] takeDigits_SomeD [OF r(6)] assms(2) by linarith
  then have ns: "ns = 0" using takeFrac_short r(7) by simp
  have y: "int y < 10000" using takeDigits_SomeD [OF r(1)] by simp
  define x where "x = int ((h * 3600 + mi * 60 + sec) * 1000000000)"
  have x: "0 \<le> x" "x < nanosPerDay" using ok(3-5) by (simp_all add: x_def nanosPerDay_def)
  have t': "t = days_of (int y) (int m) (int d) * nanosPerDay + x" using t ns by (simp add: x_def)
  have "timeYear t = int y"
    unfolding t' using ok by (intro timeYear_date x) auto
  then show "plain_time t" using y by (simp add: plain_time_def)
  have "t = (days_of (int y) (int m) (int d) * 86400 + int (h * 3600 + mi * 60 + sec)) * Second"
    by (simp add: t' x_def nanosPerDay_def Second_def algebra_simps)
  then show "t mod Second = 0" by simp
qed

lemma parseOptions_plain: "parseOptions config s = Inr t \<Longrightarrow> plain_time t \<and> t mod Second = 0"
  using parseCompact_plain
  by (auto simp: parseOptions_def Let_def split: if_splits option.splits)

section \<open>Lines\<close>

lemma fieldsFrom_word: "list_all visible w \<Longrightarrow> fieldsFrom acc (w @ rest) = fieldsFrom (rev w @ acc) rest"
  by (induction w arbitrary: acc) (simp_all add: space_prefix_visible)

lemma space_prefix_space: "space_prefix (CHR 0x20 # rest) = 1"
  by (simp add: space_prefix_def space_encodings_def hasPrefix_def)

lemma fieldsFrom_space: "w \<noteq> [] \<Longrightarrow> fieldsFrom w (CHR 0x20 # rest) = rev w # fieldsFrom [] rest"
  by (simp add: space_prefix_space)

lemma stringFields_words:
  "\<forall>w \<in> set ws. w \<noteq> [] \<and> list_all visible w \<Longrightarrow> stringFields (joinStr '' '' ws) = ws"
  unfolding stringFields_def
proof (induction "'' ''" ws rule: joinStr.induct)
  case (2 w)
  then have "fieldsFrom [] (w @ []) = [w]" by (subst fieldsFrom_word) auto
  then show ?case by simp
next
  case (3 w v ws)
  then have "fieldsFrom [] (w @ CHR 0x20 # joinStr '' '' (v # ws)) = w # fieldsFrom [] (joinStr '' '' (v # ws))"
    by (subst fieldsFrom_word, simp) (subst fieldsFrom_space, auto)
  then show ?case using 3 by simp
qed simp

lemma indexStr_first: "q \<notin> set a \<Longrightarrow> indexStr (a @ (q # p) @ b) (q # p) = Some (length a)"
proof (induction a)
  case Nil
  then show ?case using hasPrefix_append [of "q # p" b] by simp
next
  case (Cons c a)
  then show ?case by (auto simp: hasPrefix_def)
qed

definition options :: "string \<Rightarrow> string \<Rightarrow> string" where
  "options target e = ''restrict,port-forwarding,permitopen=\"'' @ target @
     ''\",permitopen=\"127.0.0.1:29723\",expiry-time=\"'' @ e @ ''\"''"

definition managedLine :: "string \<Rightarrow> string \<Rightarrow> string \<Rightarrow> string \<Rightarrow> string" where
  "managedLine target e algorithm blob = joinStr '' '' [options target e, algorithm, blob, ManagedClientMarker]"

definition keyType :: string where "keyType = AuthenticationKeyType current_profile"

lemma keyType_visible: "keyType \<noteq> []" "list_all visible keyType"
  by (simp_all add: keyType_def current_profile_def visible_def)

lemma marker_visible: "ManagedClientMarker \<noteq> []" "list_all visible ManagedClientMarker"
  by (simp_all add: ManagedClientMarker_def visible_def)

lemma render_line:
  "renderManagedAuthorizedKey config algorithm blob t = Inr out \<longleftrightarrow>
   (\<exists>e. t \<noteq> 0 \<and> OpenSSHExpiryTime t = Inr e \<and>
     out = managedLine (addrPortString (configTarget config)) e algorithm blob @ [CHR 0x0A])"
  by (auto simp: renderManagedAuthorizedKey_def renderManagedAuthorizedKeyForTarget_def isZeroTime_def
      managedAuthorizedKeyPrefixForTarget_def managedLine_def options_def split: sum.splits)

lemma options_visible:
  assumes "list_all quotable target" "list_all visible e"
  shows "list_all visible (options target e)"
proof -
  have "list_all visible target" using assms(1) by (auto simp: quotable_def list_all_iff)
  moreover have "list_all visible ''restrict,port-forwarding,permitopen=\"''"
    "list_all visible ''\",permitopen=\"127.0.0.1:29723\",expiry-time=\"''" "list_all visible ''\"''"
    by code_simp+
  ultimately show ?thesis unfolding options_def using assms(2) by (simp only: list_all_append)
qed

lemma parse_options:
  assumes "CHR 0x22 \<notin> set (addrPortString (configTarget config))"
    and "hasSuffix e ''Z''" "length e = 15" "parseCompact e = Some t"
  shows "parseOptions config (addrPortString (configTarget config) @ ''\",permitopen=\"'' @
      ''127.0.0.1:29723\",expiry-time=\"'' @ e @ ''\"'') = Inr t"
proof -
  let ?T = "addrPortString (configTarget config)"
  have i1: "indexStr (?T @ ''\",permitopen=\"'' @ ''127.0.0.1:29723\",expiry-time=\"'' @ e @ ''\"'') ''\",permitopen=\"''
      = Some (length ?T)"
    by (rule indexStr_first [OF assms(1)])
  show ?thesis
    unfolding parseOptions_def Let_def i1 using assms(2-4)
    by (simp add: hasSuffix_iff hasPrefix_def)
qed

lemma parse_line:
  assumes target: "list_all quotable (addrPortString (configTarget config))"
    and e: "list_all visible e" "hasSuffix e ''Z''" "length e = 15" "parseCompact e = Some t"
    and blob: "blob \<noteq> []" "list_all visible blob"
  shows "parseManagedAuthorizedKey config keyType
      (managedLine (addrPortString (configTarget config)) e keyType blob) = Inr (t, blob)"
proof -
  let ?T = "addrPortString (configTarget config)"
  have "options ?T e \<noteq> []" by (simp add: options_def)
  then have fs: "stringFields (managedLine ?T e keyType blob) = [options ?T e, keyType, blob, ManagedClientMarker]"
    unfolding managedLine_def using options_visible [OF target e(1)] keyType_visible marker_visible blob
    by (intro stringFields_words) auto
  have q: "CHR 0x22 \<notin> set ?T" using target by (auto simp: list_all_iff quotable_def)
  have start: "hasPrefix (options ?T e) ''restrict,port-forwarding,permitopen=\"''"
    unfolding options_def by (rule hasPrefix_append)
  have rest: "drop (length ''restrict,port-forwarding,permitopen=\"'') (options ?T e) =
      ?T @ ''\",permitopen=\"'' @ ''127.0.0.1:29723\",expiry-time=\"'' @ e @ ''\"''"
    unfolding options_def by simp
  have "parseOptions config (?T @ ''\",permitopen=\"'' @ ''127.0.0.1:29723\",expiry-time=\"'' @ e @ ''\"'') = Inr t"
    by (rule parse_options [OF q e(2-4)])
  then show ?thesis
    unfolding parseManagedAuthorizedKey_def fs Let_def using start rest by simp
qed

lemma b64_encode_visible: "list_all visible (b64_encode bs)"
proof -
  have alphabet: "list_all visible b64_alphabet" "visible b64_pad" by code_simp+
  have char: "i < 64 \<Longrightarrow> visible (b64_char i)" for i
    using alphabet(1) b64_char_in by (auto simp: list_all_iff)
  show ?thesis by (induction bs rule: b64_encode.induct) (simp_all add: char alphabet)
qed

lemma valid_blob:
  assumes "ValidatePublicKeyBlob blob keyType (RawPublicKeyBytes current_profile) = Inr ()"
  shows "blob \<noteq> []" "list_all visible blob"
proof -
  have "length keyType < 2 ^ 32" "RawPublicKeyBytes current_profile < 2 ^ 32"
    by (simp_all add: keyType_def current_profile_def)
  then obtain raw where enc: "blob = b64_encode (sshString (bytes_of keyType) @ sshString raw)"
    using assms by (auto simp: ValidatePublicKeyBlob_ok_iff)
  then show "list_all visible blob" by (simp only: b64_encode_visible)
  have "b64_encode (sshString (bytes_of keyType) @ sshString raw) \<noteq> b64_encode []"
    by (simp only: b64_encode_inject) (simp add: sshString_def AppendString_def be32_def)
  then show "blob \<noteq> []" by (simp add: enc)
qed

lemma controlAt_None: "controlAt bad i s = None \<longleftrightarrow> (\<forall>c \<in> set s. \<not> bad c)"
  by (induction s arbitrary: i) auto

text \<open>An entry that the file may hold: a valid key and an expiry at a whole second of a four-digit year.\<close>

definition managed_entry :: "string \<times> time \<Rightarrow> bool" where
  "managed_entry en \<longleftrightarrow>
     ValidatePublicKeyBlob (fst en) keyType (RawPublicKeyBytes current_profile) = Inr () \<and>
     plain_time (snd en) \<and> snd en \<noteq> 0 \<and> snd en mod Second = 0"

definition entry_line :: "Config \<Rightarrow> string \<times> time \<Rightarrow> string \<Rightarrow> bool" where
  "entry_line config en line \<longleftrightarrow>
     managed_entry en \<and> length line \<le> MaxAuthorizedKeyInputBytes \<and>
     renderManagedAuthorizedKey config keyType (fst en) (snd en) = Inr (line @ [CHR 0x0A])"

lemma configTarget_quotable:
  "validateConfig config = Inr selected \<Longrightarrow> list_all quotable (addrPortString (configTarget config))"
  using validateEndpoint_ok [OF validateConfig_ok(3)]
  by (intro addrPortString_quotable) (auto simp: configTarget_def isValid_Unmap Zone_Unmap)

lemma line_suffix: "hasSuffix (managedLine target e algorithm blob) ('' '' @ ManagedClientMarker)"
  by (auto simp: managedLine_def hasSuffix_iff intro: exI [of _ "_ @ _"])

lemma validateLine_iff:
  assumes v: "validateConfig config = Inr current_profile"
  shows "validateLine config current_profile n seen line = Inr blob \<longleftrightarrow>
    blob \<notin> seen \<and> (\<exists>t. entry_line config (blob, t) line)" (is "?l \<longleftrightarrow> ?r")
proof
  assume ?l
  then obtain t where p: "parseManagedAuthorizedKey config keyType line = Inr (t, blob)"
    and b: "blob \<notin> seen" "ValidatePublicKeyBlob blob keyType (RawPublicKeyBytes current_profile) = Inr ()"
    and len: "length line \<le> MaxAuthorizedKeyInputBytes"
    and out: "renderManagedAuthorizedKey config keyType blob t = Inr (line @ [CHR 0x0A])"
    unfolding validateLine_def keyType_def
    by (auto split: if_splits option.splits sum.splits prod.splits)
       (metis append_butlast_last_id)
  have "plain_time t" "t mod Second = 0"
    using p parseOptions_plain
    by (auto simp: parseManagedAuthorizedKey_def Let_def split: if_splits sum.splits)
  moreover have "t \<noteq> 0" using out by (simp add: render_line)
  ultimately show ?r using b len out by (auto simp: entry_line_def managed_entry_def)
next
  assume ?r
  then obtain t where b: "blob \<notin> seen" and en: "managed_entry (blob, t)"
    and len: "length line \<le> MaxAuthorizedKeyInputBytes"
    and out: "renderManagedAuthorizedKey config keyType blob t = Inr (line @ [CHR 0x0A])"
    by (auto simp: entry_line_def)
  note k = en [unfolded managed_entry_def fst_conv snd_conv]
  note vb = valid_blob [OF conjunct1 [OF k]]
  obtain e where e: "OpenSSHExpiryTime t = Inr e" "length e = 15"
      "list_all (\<lambda>c. isDigit c \<or> c = CHR ''Z'') e" "hasSuffix e ''Z''" "parseCompact e = Some t"
    using k expiry_text by metis
  have ev: "list_all visible e"
    using e(3) visible_digit by (auto simp: list_all_iff visible_def)
  have line: "line = managedLine (addrPortString (configTarget config)) e keyType blob"
    using out e(1) by (simp add: render_line)
  have p: "parseManagedAuthorizedKey config keyType line = Inr (t, blob)"
    unfolding line by (rule parse_line [OF configTarget_quotable [OF v] ev e(4,2,5) vb])
  have chars: "visible c \<or> c = CHR 0x20" if "c \<in> set line" for c
    using that options_visible [OF configTarget_quotable [OF v] ev] keyType_visible(2) marker_visible(2) vb(2)
    by (auto simp: line managedLine_def list_all_iff)
  then have c1: "\<forall>c \<in> set line. \<not> (of_char c < (0x20 :: nat) \<or> c = CHR 0x7F)" "CHR 0x0D \<notin> set line"
    by (auto simp: visible_def dest!: chars)
  have c2: "\<not> containsAny blob [CHR 0x20, CHR 0x09]"
    using vb(2) by (auto simp: containsAny_def list_all_iff visible_def)
  have "line \<noteq> []" "hasSuffix line ('' '' @ ManagedClientMarker)"
    using line_suffix by (auto simp: line managedLine_def options_def)
  then show ?l
    using p b k vb(1) c1 c2 len out controlAt_None [of "\<lambda>c. of_char c < (0x20 :: nat) \<or> c = CHR 0x7F" 0 line]
    by (simp add: validateLine_def flip: keyType_def)
qed

lemma validateLines_iff:
  assumes v: "validateConfig config = Inr current_profile"
  shows "validateLines config current_profile n seen lines = Inr () \<longleftrightarrow>
    (\<exists>entries. list_all2 (entry_line config) entries lines \<and> distinct (map fst entries) \<and>
      fst ` set entries \<inter> seen = {})"
proof (induction lines arbitrary: n seen)
  case (Cons line lines)
  have "validateLines config current_profile n seen (line # lines) = Inr () \<longleftrightarrow>
      (\<exists>blob. validateLine config current_profile n seen line = Inr blob \<and>
         validateLines config current_profile (Suc n) (insert blob seen) lines = Inr ())"
    by (auto split: sum.splits)
  also have "\<dots> \<longleftrightarrow> (\<exists>blob t entries. blob \<notin> seen \<and> entry_line config (blob, t) line \<and>
      list_all2 (entry_line config) entries lines \<and> distinct (map fst entries) \<and>
      fst ` set entries \<inter> insert blob seen = {})"
    unfolding validateLine_iff [OF v] Cons.IH by blast
  also have "\<dots> \<longleftrightarrow> (\<exists>entries. list_all2 (entry_line config) entries (line # lines) \<and>
      distinct (map fst entries) \<and> fst ` set entries \<inter> seen = {})" (is "?a \<longleftrightarrow> ?b")
  proof
    assume ?a
    then obtain blob t entries where "blob \<notin> seen" "entry_line config (blob, t) line"
      "list_all2 (entry_line config) entries lines" "distinct (map fst entries)"
      "fst ` set entries \<inter> insert blob seen = {}" by blast
    then show ?b by (intro exI [of _ "(blob, t) # entries"]) auto
  next
    assume ?b
    then obtain z zs where "entry_line config z line" "list_all2 (entry_line config) zs lines"
      "distinct (map fst (z # zs))" "fst ` set (z # zs) \<inter> seen = {}"
      by (auto simp only: list_all2_Cons2)
    then show ?a by (intro exI [of _ "fst z"] exI [of _ "snd z"] exI [of _ zs]) auto
  qed
  finally show ?case .
qed auto

lemma entry_line_no_LF: "list_all2 (entry_line config) entries lines \<Longrightarrow> validateConfig config = Inr current_profile
  \<Longrightarrow> line \<in> set lines \<Longrightarrow> CHR 0x0A \<notin> set line"
proof -
  assume a: "list_all2 (entry_line config) entries lines" "validateConfig config = Inr current_profile" "line \<in> set lines"
  then obtain en where "entry_line config en line" by (metis list_all2_conv_all_nth in_set_conv_nth)
  then have "validateLine config current_profile 0 {} line = Inr (fst en)"
    using validateLine_iff [OF a(2), of 0 "{}" line "fst en"] by (metis empty_iff prod.collapse)
  then have "controlAt (\<lambda>c. of_char c < (0x20 :: nat) \<or> c = CHR 0x7F) 0 line = None"
    by (cases "controlAt (\<lambda>c. of_char c < (0x20 :: nat) \<or> c = CHR 0x7F) 0 line")
       (simp_all add: validateLine_def split: if_splits)
  then have "\<not> (of_char CHR 0x0A < (0x20 :: nat))" if "CHR 0x0A \<in> set line"
    using that unfolding controlAt_None by blast
  then show ?thesis by auto
qed

lemma split_concat_LF:
  assumes "\<forall>line \<in> set lines. CHR 0x0A \<notin> set line" "lines \<noteq> []"
  shows "splitOn (CHR 0x0A) (butlast (concat (map (\<lambda>l. l @ [CHR 0x0A]) lines))) = lines"
  using assms
proof (induction lines rule: rev_induct)
  case (snoc line lines)
  have "splitOn (CHR 0x0A) (concat (map (\<lambda>l. l @ [CHR 0x0A]) lines) @ line) = lines @ [line]"
    using snoc.prems
    by (induction lines) (auto simp: splitOn_append_sep splitOn_no_sep)
  then show ?case by (simp add: butlast_append)
qed simp

lemma concat_split_LF:
  "concat (map (\<lambda>l. l @ [sep]) (splitOn sep s)) = s @ [sep]"
proof (induction s)
  case (Cons c s)
  obtain w ws where "splitOn sep s = w # ws" by (cases "splitOn sep s") auto
  then show ?case using Cons by auto
qed simp

text \<open>
  C17. The validator accepts exactly what the renderer writes: a file passes with \<open>n\<close> keys if and
  only if the policy is valid, the file is within its size limit, and it is the concatenation of
  the lines that \<open>renderManagedAuthorizedKey\<close> produces for \<open>n\<close> entries with pairwise distinct,
  valid key blobs and whole-second expiry times, each line within its own limit. Nothing else, in
  particular no other option, target or comment, can be in an accepted file.
\<close>

theorem validate_authorized_keys_iff:
  "ValidateAuthorizedKeys config contents = Inr n \<longleftrightarrow>
   (\<exists>entries lines. validateConfig config = Inr current_profile \<and>
      length contents \<le> MaxAuthorizedKeysBytes \<and> length entries = n \<and> distinct (map fst entries) \<and>
      list_all2 (entry_line config) entries lines \<and>
      contents = concat (map (\<lambda>line. line @ [CHR 0x0A]) lines))" (is "?l \<longleftrightarrow> ?r")
proof (cases "validateConfig config")
  case (Inr selected)
  then have v: "validateConfig config = Inr current_profile" using validateConfig_ok(1) by blast
  show ?thesis
  proof
    assume l: ?l
    show ?r
    proof (cases "contents = []")
      case True
      then have "n = 0" using l v by (simp add: ValidateAuthorizedKeys_def)
      then show ?thesis using True v by (intro exI [of _ "[]"]) auto
    next
      case False
      define lines where "lines = splitOn (CHR 0x0A) (butlast contents)"
      have f: "length contents \<le> MaxAuthorizedKeysBytes" "last contents = CHR 0x0A" "n = length lines"
          "validateLines config current_profile 1 {} lines = Inr ()"
        using l False v by (auto simp: ValidateAuthorizedKeys_def lines_def check_then_ok Let_def split: if_splits)
      have "contents = butlast contents @ [CHR 0x0A]" using False f(2) by (metis append_butlast_last_id)
      then have "contents = concat (map (\<lambda>line. line @ [CHR 0x0A]) lines)"
        unfolding lines_def concat_split_LF .
      moreover obtain entries where "list_all2 (entry_line config) entries lines" "distinct (map fst entries)"
        using f(4) unfolding validateLines_iff [OF v] by blast
      ultimately show ?thesis using v f(1,3) by (blast dest: list_all2_lengthD)
    qed
  next
    assume ?r
    then obtain entries lines where r: "length contents \<le> MaxAuthorizedKeysBytes" "length entries = n"
      "distinct (map fst entries)" "list_all2 (entry_line config) entries lines"
      "contents = concat (map (\<lambda>line. line @ [CHR 0x0A]) lines)" by blast
    show ?l
    proof (cases "lines = []")
      case True
      then show ?thesis using r v by (simp add: ValidateAuthorizedKeys_def)
    next
      case False
      then have c: "contents \<noteq> []" "last contents = CHR 0x0A"
        using r(5) by (cases lines rule: rev_cases; simp)+
      have "splitOn (CHR 0x0A) (butlast contents) = lines"
        unfolding r(5) by (rule split_concat_LF) (use entry_line_no_LF [OF r(4) v] False in auto)
      moreover have "validateLines config current_profile 1 {} lines = Inr ()"
        unfolding validateLines_iff [OF v] using r(3,4) by auto
      ultimately show ?thesis
        using v r(1,2) c list_all2_lengthD [OF r(4)] by (simp add: ValidateAuthorizedKeys_def check_then_def)
    qed
  qed
qed (simp add: ValidateAuthorizedKeys_def)

end
