(* ===== verification/MLDSA_Field.thy ===== *)
theory MLDSA_Field
  imports WT_Prelude "HOL-Library.Numeral_Type"
begin

text \<open>
  Arithmetic of \<open>internal/mldsa/field.go\<close>: elements of \<open>Z\<^sub>q\<close> in the Montgomery domain, held in
  32-bit words and computed with 64-bit intermediate values. \<open>val\<close> is the element of \<open>Z\<^sub>q\<close> that
  a word stands for; the ring is the finite ring of the numeral type \<open>8380417\<close>.
\<close>

section \<open>Definitions\<close>

definition q :: "'a :: numeral" where "q = 8380417"
definition RR :: uint32 where "RR = 2365951"
definition qNegInv :: uint32 where "qNegInv = 4236238847"
definition one :: uint32 where "one = 4193792"
definition minusOne :: uint32 where "minusOne = 4186625"

type_synonym fieldElement = uint32
type_synonym Zq = 8380417

definition fieldReduceOnce :: "uint32 \<Rightarrow> fieldElement" where
  "fieldReduceOnce a =
     (let x = (ucast a :: uint64) - q; b = (if (ucast a :: uint64) < q then 1 else 0)
      in ucast (x + b * q))"

definition fieldMontgomeryReduce :: "uint64 \<Rightarrow> fieldElement" where
  "fieldMontgomeryReduce x =
     (let t = ucast x * qNegInv; u = drop_bit 32 (x + ucast t * q) in fieldReduceOnce (ucast u))"

definition fieldAdd :: "fieldElement \<Rightarrow> fieldElement \<Rightarrow> fieldElement" where
  "fieldAdd a b = fieldReduceOnce (a + b)"

definition fieldSub :: "fieldElement \<Rightarrow> fieldElement \<Rightarrow> fieldElement" where
  "fieldSub a b = fieldReduceOnce (a - b + q)"

definition fieldMontgomeryMul :: "fieldElement \<Rightarrow> fieldElement \<Rightarrow> fieldElement" where
  "fieldMontgomeryMul a b = fieldMontgomeryReduce (ucast a * ucast b)"

definition fieldMontgomeryMulSub :: "fieldElement \<Rightarrow> fieldElement \<Rightarrow> fieldElement \<Rightarrow> fieldElement" where
  "fieldMontgomeryMulSub a b c = fieldMontgomeryReduce (ucast a * ucast (b - c + q))"

definition fieldMontgomeryAddMul ::
  "fieldElement \<Rightarrow> fieldElement \<Rightarrow> fieldElement \<Rightarrow> fieldElement \<Rightarrow> fieldElement" where
  "fieldMontgomeryAddMul a b c d = fieldMontgomeryReduce (ucast a * ucast b + ucast c * ucast d)"

definition fieldToMontgomery :: "uint32 \<Rightarrow> fieldElement option" where
  "fieldToMontgomery a = (if q \<le> a then None else Some (fieldMontgomeryMul a RR))"

definition fieldSubToMontgomery :: "uint32 \<Rightarrow> uint32 \<Rightarrow> fieldElement" where
  "fieldSubToMontgomery a b = fieldMontgomeryMul (a - b + q) RR"

definition fieldFromMontgomery :: "fieldElement \<Rightarrow> uint32" where
  "fieldFromMontgomery a = fieldMontgomeryReduce (ucast a)"

text \<open>
  Signed 32-bit values are integers. \<open>subtle.ConstantTimeLessOrEq\<close> is the sign of the wrapping
  32-bit difference \<open>a - b - 1\<close>; it is the comparison where that difference does not wrap, which
  covers every call of the package.
\<close>

definition constantTimeSelectLessOrEqual :: "int \<Rightarrow> int \<Rightarrow> int \<Rightarrow> int \<Rightarrow> int" where
  "constantTimeSelectLessOrEqual a b yes no =
     (if sint (word_of_int (a - b - 1) :: 32 word) < 0 then yes else no)"

definition constantTimeSelectEqual :: "uint32 \<Rightarrow> uint32 \<Rightarrow> uint32 \<Rightarrow> uint32 \<Rightarrow> uint32" where
  "constantTimeSelectEqual a b yes no = (if a = b then yes else no)"

definition constantTimeAbs :: "int \<Rightarrow> uint32" where
  "constantTimeAbs x = word_of_int (constantTimeSelectLessOrEqual 0 x x (- x))"

definition int32 :: "uint32 \<Rightarrow> int" where
  "int32 = sint"

definition fieldCenteredMod :: "fieldElement \<Rightarrow> int" where
  "fieldCenteredMod r =
     (let x = int32 (fieldFromMontgomery r) in constantTimeSelectLessOrEqual x (q div 2) x (x - q))"

definition fieldInfinityNorm :: "fieldElement \<Rightarrow> uint32" where
  "fieldInfinityNorm r =
     (let x = int32 (fieldFromMontgomery r)
      in word_of_int (constantTimeSelectLessOrEqual x (q div 2) x (q - x)))"

lemma constantTimeSelectLessOrEqual_eq:
  assumes "- (2 ^ 31) < a - b" "a - b \<le> 2 ^ 31"
  shows "constantTimeSelectLessOrEqual a b yes no = (if a \<le> b then yes else no)"
proof -
  have "signed_take_bit 31 (a - b - 1) = a - b - 1"
    by (rule signed_take_bit_int_eq_self) (use assms in auto)
  then have "sint (word_of_int (a - b - 1) :: 32 word) = a - b - 1"
    by (simp only: signed_of_int len_num1 len_bit0) simp
  then show ?thesis by (simp add: constantTimeSelectLessOrEqual_def)
qed

section \<open>The ring of residues\<close>

lemma card_Zq [simp]: "CARD(Zq) = 8380417"
  by simp

lemma of_int_Zq_eq: "(of_int a :: Zq) = of_int b \<longleftrightarrow> a mod 8380417 = b mod 8380417"
proof -
  have "(of_int a :: Zq) = of_int b \<longleftrightarrow> Rep_bit1 (of_int a :: Zq) = Rep_bit1 (of_int b :: Zq)"
    by (simp only: Rep_bit1_inject)
  also have "\<dots> \<longleftrightarrow> a mod 8380417 = b mod 8380417"
    unfolding bit1.of_int_eq bit1.Rep_Abs_mod by simp
  finally show ?thesis .
qed

lemma of_nat_Zq_eq: "(of_nat a :: Zq) = of_nat b \<longleftrightarrow> a mod 8380417 = b mod 8380417"
proof -
  have "(of_nat a :: Zq) = of_nat b \<longleftrightarrow> int a mod 8380417 = int b mod 8380417"
    using of_int_Zq_eq [of "int a" "int b"] by simp
  also have "\<dots> \<longleftrightarrow> int (a mod 8380417) = int (b mod 8380417)" by (simp add: zmod_int)
  finally show ?thesis by simp
qed

definition rinv :: Zq where "rinv = 8265825"

lemma R_rinv: "(of_nat (2 ^ 32) :: Zq) * rinv = 1"
proof -
  have "(of_nat (2 ^ 32) :: Zq) * rinv = of_nat (2 ^ 32 * 8265825)" by (simp add: rinv_def)
  also have "\<dots> = of_nat 1" unfolding of_nat_Zq_eq by simp
  finally show ?thesis by simp
qed

definition val :: "fieldElement \<Rightarrow> Zq" where
  "val a = of_nat (unat a) * rinv"

definition reduced :: "fieldElement \<Rightarrow> bool" where
  "reduced a \<longleftrightarrow> unat a < 8380417"

lemma rinv_R: "rinv * (of_nat (2 ^ 32) :: Zq) = 1"
  by (subst mult.commute) (rule R_rinv)

lemma val_R: "val a * of_nat (2 ^ 32) = of_nat (unat a)"
  by (simp only: val_def mult.assoc rinv_R mult_1_right)

lemma val_inject:
  assumes "reduced a" "reduced b" shows "val a = val b \<longleftrightarrow> a = b"
proof
  assume "val a = val b"
  then have "(of_nat (unat a) :: Zq) = of_nat (unat b)" by (simp only: val_R [symmetric])
  then have "unat a = unat b" using assms unfolding of_nat_Zq_eq reduced_def by simp
  then show "a = b" by (simp only: word_unat_eq_iff)
qed simp

section \<open>Reduction\<close>

lemma unat_ucast_up [simp]: "unat (ucast (a :: uint32) :: uint64) = unat a"
proof -
  have "unat a < 2 ^ 64" using unsigned_less [where ?'a = nat, of a] by simp
  then show ?thesis by (simp add: unsigned_ucast_eq take_bit_nat_eq_self)
qed

lemma unat_ucast_down: "unat (x :: uint64) < 2 ^ 32 \<Longrightarrow> unat (ucast x :: uint32) = unat x"
  by (simp add: unsigned_ucast_eq take_bit_nat_eq_self)

lemma unat_reduceOnce: "unat (fieldReduceOnce a) = (if unat a < 8380417 then unat a else unat a - 8380417)"
proof (cases "unat a < 8380417")
  case True
  then have "(ucast a :: uint64) < q" by (simp add: word_less_nat_alt q_def)
  then have "fieldReduceOnce a = ucast (ucast a :: uint64)" by (simp add: fieldReduceOnce_def)
  also have "unat (ucast (ucast a :: uint64) :: uint32) = unat a"
    using True by (subst unat_ucast_down) simp_all
  finally show ?thesis using True by simp
next
  case False
  then have l: "\<not> (ucast a :: uint64) < q" by (simp add: word_less_nat_alt q_def)
  have d: "unat ((ucast a :: uint64) - q) = unat a - 8380417"
    using l by (simp add: unat_sub not_less q_def)
  have "unat a - 8380417 < 2 ^ 32" using unsigned_less [where ?'a = nat, of a] by simp
  then have "unat (ucast ((ucast a :: uint64) - q) :: uint32) = unat a - 8380417"
    using d by (subst unat_ucast_down) simp_all
  then show ?thesis using False l by (simp add: fieldReduceOnce_def)
qed

lemma reduceOnce_lt: "unat a < 2 * 8380417 \<Longrightarrow> reduced (fieldReduceOnce a)"
  unfolding reduced_def unat_reduceOnce by (cases "unat a < 8380417") simp_all

lemma reduceOnce_cong: "unat (fieldReduceOnce a) mod 8380417 = unat a mod 8380417"
  by (simp add: unat_reduceOnce le_mod_geq)

text \<open>The Montgomery step: adding the right multiple of \<open>q\<close> makes the value divisible by \<open>2\<^sup>3\<^sup>2\<close>.\<close>

lemma montgomery_mod: "(x + (x mod m * c mod m) * p) mod m = (x + x * c * p) mod (m :: nat)"
  by (metis mod_add_right_eq mod_mult_left_eq)

lemma montgomery_divides:
  fixes x :: nat
  shows "(x + (x mod 2 ^ 32 * 4236238847 mod 2 ^ 32) * 8380417) mod 2 ^ 32 = 0"
proof -
  have "(x + (x mod 2 ^ 32 * 4236238847 mod 2 ^ 32) * 8380417) mod 2 ^ 32
      = (x + x * 4236238847 * 8380417) mod 2 ^ 32"
    by (rule montgomery_mod)
  also have "\<dots> = (x * (1 + 4236238847 * 8380417)) mod 2 ^ 32"
    by (simp add: distrib_left mult.assoc)
  also have "(1 + 4236238847 * 8380417 :: nat) = 2 ^ 32 * 8265825" by simp
  also have "(x * (2 ^ 32 * 8265825)) mod 2 ^ 32 = 0" by simp
  finally show ?thesis .
qed

lemma montgomeryReduce:
  assumes "unat x < 8380417 * 2 ^ 32"
  shows "reduced (fieldMontgomeryReduce x)"
    and "val (fieldMontgomeryReduce x) = of_nat (unat x) * rinv * rinv"
proof -
  define t :: uint32 where "t = ucast x * qNegInv"
  define s where "s = unat x + unat t * 8380417"
  have t: "unat t = unat x mod 2 ^ 32 * 4236238847 mod 2 ^ 32"
    by (simp add: t_def qNegInv_def unat_word_ariths unsigned_ucast_eq take_bit_eq_mod)
  have tlt: "unat t < 2 ^ 32" using unsigned_less [of t] by simp
  have slt: "s < 2 * 8380417 * 2 ^ 32" using assms tlt by (simp add: s_def)
  have "unat (ucast t * q :: uint64) = unat t * 8380417"
    using tlt by (simp add: unat_word_ariths q_def)
  then have us: "unat (x + ucast t * q) = s"
    using slt by (simp add: unat_word_ariths s_def)
  have div: "s mod 2 ^ 32 = 0" unfolding s_def t by (rule montgomery_divides)
  define u where "u = s div 2 ^ 32"
  have u: "s = u * 2 ^ 32" "u < 2 * 8380417" using div slt by (auto simp: u_def less_mult_imp_div_less)
  have uu: "unat (ucast (drop_bit 32 (x + ucast t * q)) :: uint32) = u"
  proof -
    have "unat (drop_bit 32 (x + ucast t * q)) = u"
      using slt by (simp only: unsigned_drop_bit_eq us) (simp add: drop_bit_eq_div u_def take_bit_nat_eq_self)
    then show ?thesis using u(2) by (subst unat_ucast_down) simp_all
  qed
  have eq: "fieldMontgomeryReduce x = fieldReduceOnce (ucast (drop_bit 32 (x + ucast t * q)))"
    by (simp add: fieldMontgomeryReduce_def t_def)
  show "reduced (fieldMontgomeryReduce x)"
    unfolding eq by (rule reduceOnce_lt) (simp only: uu u(2))
  have "(of_nat (unat (fieldMontgomeryReduce x)) :: Zq) = of_nat u"
    unfolding eq of_nat_Zq_eq reduceOnce_cong uu ..
  moreover have u_eq: "(of_nat u :: Zq) * of_nat (2 ^ 32) = of_nat (unat x)"
  proof -
    have "(of_nat u :: Zq) * of_nat (2 ^ 32) = of_nat s" by (simp only: u(1) of_nat_mult)
    also have "\<dots> = of_nat (unat x)" unfolding of_nat_Zq_eq s_def by simp
    finally show ?thesis .
  qed
  ultimately have "(of_nat (unat (fieldMontgomeryReduce x)) :: Zq) = of_nat (unat x) * rinv"
    by (simp only: R_rinv mult.assoc mult_1_right flip: u_eq)
  then show "val (fieldMontgomeryReduce x) = of_nat (unat x) * rinv * rinv" by (simp add: val_def)
qed

section \<open>Field operations\<close>

lemma val_reduceOnce: "val (fieldReduceOnce a) = of_nat (unat a) * rinv"
proof -
  have "(of_nat (unat (fieldReduceOnce a)) :: Zq) = of_nat (unat a)"
    unfolding of_nat_Zq_eq by (rule reduceOnce_cong)
  then show ?thesis unfolding val_def by (rule arg_cong)
qed

lemma of_nat_q: "(of_nat 8380417 :: Zq) = 0"
proof -
  have "(of_nat 8380417 :: Zq) = of_nat 0" unfolding of_nat_Zq_eq by simp
  then show ?thesis by simp
qed

lemma unat_add_field: "reduced a \<Longrightarrow> reduced b \<Longrightarrow> unat (a + b) = unat a + unat b"
  by (simp add: reduced_def unat_word_ariths)

lemma unat_sub_field:
  assumes "unat a < 2 ^ 31" "reduced b"
  shows "unat (a - b + q) = unat a + 8380417 - unat b"
proof -
  have "unat (a + q) = unat a + 8380417" using assms(1) by (simp add: unat_word_ariths q_def)
  moreover from this have "b \<le> a + q" using assms(2) by (simp add: word_le_nat_alt reduced_def)
  moreover have "a - b + q = (a + q) - b" by simp
  ultimately show ?thesis by (simp only: unat_sub)
qed

lemma of_nat_diff_q:
  assumes "y \<le> x + 8380417" shows "(of_nat (x + 8380417 - y) :: Zq) = of_nat x - of_nat y"
proof -
  have "(of_nat (x + 8380417 - y) :: Zq) = of_nat (x + 8380417) - of_nat y"
    using assms by (rule of_nat_diff)
  then show ?thesis by (simp only: of_nat_add of_nat_q add_0_right)
qed

lemma reduced_31: "reduced a \<Longrightarrow> unat a < 2 ^ 31"
  by (simp add: reduced_def)

lemma fieldAdd:
  assumes "reduced a" "reduced b"
  shows "reduced (fieldAdd a b)" "val (fieldAdd a b) = val a + val b"
proof -
  note u = unat_add_field [OF assms]
  show "reduced (fieldAdd a b)"
    unfolding fieldAdd_def using assms by (intro reduceOnce_lt) (simp add: u reduced_def)
  show "val (fieldAdd a b) = val a + val b"
    unfolding fieldAdd_def val_reduceOnce u by (simp only: val_def of_nat_add distrib_right)
qed

lemma fieldSub:
  assumes "reduced a" "reduced b"
  shows "reduced (fieldSub a b)" "val (fieldSub a b) = val a - val b"
proof -
  note u = unat_sub_field [OF reduced_31 [OF assms(1)] assms(2)]
  show "reduced (fieldSub a b)"
    unfolding fieldSub_def using assms by (intro reduceOnce_lt) (simp add: u reduced_def)
  have "unat b \<le> unat a + 8380417" using assms(2) by (simp add: reduced_def)
  then show "val (fieldSub a b) = val a - val b"
    unfolding fieldSub_def val_reduceOnce u by (simp only: val_def of_nat_diff_q left_diff_distrib)
qed

lemma unat_mul64: "unat (a :: uint32) * unat (b :: uint32) < 2 ^ 64 \<Longrightarrow>
    unat ((ucast a :: uint64) * ucast b) = unat a * unat b"
  by (simp add: unat_word_ariths)

lemma mult_bound: "a < m \<Longrightarrow> b \<le> k \<Longrightarrow> 0 < k \<Longrightarrow> a * b < m * (k :: nat)"
  by (meson le_less_trans less_imp_le mult_le_mono1 mult_le_mono2 mult_strict_right_mono)

lemma montgomeryMul_any:
  assumes "reduced b"
  shows "reduced (fieldMontgomeryMul a b)" "val (fieldMontgomeryMul a b) = val a * val b"
proof -
  have "unat b < 8380417" "unat a \<le> 2 ^ 32"
    using assms unsigned_less [where ?'a = nat, of a] by (simp_all add: reduced_def)
  then have lt: "unat a * unat b < 8380417 * 2 ^ 32"
    using mult_bound [of "unat b" 8380417 "unat a" "2 ^ 32"] by (simp add: mult.commute)
  then have u: "unat ((ucast a :: uint64) * ucast b) = unat a * unat b"
    by (intro unat_mul64) simp
  note m = montgomeryReduce [of "(ucast a :: uint64) * ucast b", unfolded u, OF lt]
  show "reduced (fieldMontgomeryMul a b)" unfolding fieldMontgomeryMul_def by (rule m)
  show "val (fieldMontgomeryMul a b) = val a * val b"
    unfolding fieldMontgomeryMul_def m by (simp only: val_def of_nat_mult ac_simps)
qed

lemma montgomeryMulSub:
  assumes "reduced a" "reduced b" "reduced c"
  shows "reduced (fieldMontgomeryMulSub a b c)" "val (fieldMontgomeryMulSub a b c) = val a * (val b - val c)"
proof -
  have eq: "fieldMontgomeryMulSub a b c = fieldMontgomeryMul (b - c + q) a"
    by (simp add: fieldMontgomeryMulSub_def fieldMontgomeryMul_def mult.commute)
  have le: "unat c \<le> unat b + 8380417" using assms(3) by (simp add: reduced_def)
  have "val (b - c + q) = val b - val c"
    unfolding val_def unat_sub_field [OF reduced_31 [OF assms(2)] assms(3)] of_nat_diff_q [OF le]
    by (rule left_diff_distrib)
  then show "reduced (fieldMontgomeryMulSub a b c)" "val (fieldMontgomeryMulSub a b c) = val a * (val b - val c)"
    unfolding eq using montgomeryMul_any [OF assms(1), of "b - c + q"] by (simp_all only: mult.commute)
qed

lemma montgomeryAddMul:
  assumes "reduced a" "reduced b" "reduced c" "reduced d"
  shows "reduced (fieldMontgomeryAddMul a b c d)"
    "val (fieldMontgomeryAddMul a b c d) = val a * val b + val c * val d"
proof -
  have "unat a * unat b < 8380417 * 8380417" "unat c * unat d < 8380417 * 8380417"
    using assms mult_bound [of "unat a" 8380417 "unat b" 8380417] mult_bound [of "unat c" 8380417 "unat d" 8380417]
    by (simp_all add: reduced_def)
  then have lt: "unat a * unat b + unat c * unat d < 8380417 * 2 ^ 32"
    and p: "unat ((ucast a :: uint64) * ucast b) = unat a * unat b"
      "unat ((ucast c :: uint64) * ucast d) = unat c * unat d"
    by (simp_all add: unat_mul64)
  then have u: "unat ((ucast a :: uint64) * ucast b + ucast c * ucast d) = unat a * unat b + unat c * unat d"
    by (simp add: unat_word_ariths(1))
  note m = montgomeryReduce [of "(ucast a :: uint64) * ucast b + ucast c * ucast d", unfolded u, OF lt]
  show "reduced (fieldMontgomeryAddMul a b c d)" unfolding fieldMontgomeryAddMul_def by (rule m)
  show "val (fieldMontgomeryAddMul a b c d) = val a * val b + val c * val d"
    unfolding fieldMontgomeryAddMul_def m by (simp only: val_def of_nat_mult of_nat_add distrib_right distrib_left ac_simps)
qed

lemma val_RR: "val RR = of_nat (2 ^ 32)"
proof -
  have "unat RR = 2365951" by (simp add: RR_def)
  then have "val RR = of_nat 2365951 * rinv" unfolding val_def by (rule arg_cong)
  also have "(of_nat 2365951 :: Zq) = of_nat (2 ^ 32 * 2 ^ 32)" unfolding of_nat_Zq_eq by simp
  also have "of_nat (2 ^ 32 * 2 ^ 32) * rinv = of_nat (2 ^ 32)"
    by (simp only: of_nat_mult mult.assoc R_rinv mult_1_right)
  finally show ?thesis .
qed

lemma reduced_RR: "reduced RR"
  by (simp add: reduced_def RR_def)

lemma toMontgomery:
  assumes "unat a < 8380417"
  obtains x where "fieldToMontgomery a = Some x" "reduced x" "val x = of_nat (unat a)"
proof -
  have "\<not> q \<le> a" using assms by (simp add: word_le_nat_alt q_def)
  moreover have "val (fieldMontgomeryMul a RR) = of_nat (unat a)"
    by (simp only: montgomeryMul_any(2) [OF reduced_RR] val_RR val_R)
  ultimately show thesis
    using that montgomeryMul_any(1) [OF reduced_RR] by (simp add: fieldToMontgomery_def)
qed

lemma fromMontgomery:
  assumes "reduced a"
  shows "unat (fieldFromMontgomery a) < 8380417" "of_nat (unat (fieldFromMontgomery a)) = val a"
proof -
  have lt: "unat (ucast a :: uint64) < 8380417 * 2 ^ 32" using assms by (simp add: reduced_def)
  note m = montgomeryReduce [OF lt, unfolded unat_ucast_up]
  show "unat (fieldFromMontgomery a) < 8380417"
    using m(1) by (simp add: fieldFromMontgomery_def reduced_def)
  have "val (fieldFromMontgomery a) * of_nat (2 ^ 32) = val a"
    unfolding fieldFromMontgomery_def m(2) by (simp only: val_def mult.assoc rinv_R mult_1_right)
  then show "of_nat (unat (fieldFromMontgomery a)) = val a" by (simp only: val_R)
qed

lemma subToMontgomery:
  assumes "unat a < 2 ^ 31" "reduced b"
  shows "reduced (fieldSubToMontgomery a b)"
    "val (fieldSubToMontgomery a b) = of_nat (unat a) - of_nat (unat b)"
proof -
  have le: "unat b \<le> unat a + 8380417" using assms(2) by (simp add: reduced_def)
  show "reduced (fieldSubToMontgomery a b)"
    unfolding fieldSubToMontgomery_def by (rule montgomeryMul_any [OF reduced_RR])
  show "val (fieldSubToMontgomery a b) = of_nat (unat a) - of_nat (unat b)"
    unfolding fieldSubToMontgomery_def
    by (simp only: montgomeryMul_any(2) [OF reduced_RR] val_RR val_R unat_sub_field [OF assms] of_nat_diff_q [OF le])
qed

lemma toMontgomery_fromMontgomery:
  assumes "reduced a" shows "fieldToMontgomery (fieldFromMontgomery a) = Some a"
proof -
  obtain x where x: "fieldToMontgomery (fieldFromMontgomery a) = Some x" "reduced x"
    "val x = of_nat (unat (fieldFromMontgomery a))"
    using fromMontgomery(1) [OF assms] by (rule toMontgomery)
  from x(3) have "val x = val a" by (simp only: fromMontgomery(2) [OF assms])
  then have "x = a" by (simp only: val_inject [OF x(2) assms])
  then show ?thesis using x(1) by simp
qed

section \<open>Centered representatives\<close>

text \<open>The representative of an element of \<open>Z\<^sub>q\<close> between \<open>-(q-1)/2\<close> and \<open>(q-1)/2\<close>.\<close>

definition centered :: "Zq \<Rightarrow> int" where
  "centered x = (let r = Rep_bit1 x in if r \<le> 4190208 then r else r - 8380417)"

lemma Rep_of_nat: "k < 8380417 \<Longrightarrow> Rep_bit1 (of_nat k :: Zq) = int k"
  unfolding bit1.of_nat_eq bit1.Rep_Abs_mod by simp

lemma centered_of_nat:
  "k < 8380417 \<Longrightarrow> centered (of_nat k) = (if k \<le> 4190208 then int k else int k - 8380417)"
  by (simp add: centered_def Rep_of_nat del: of_nat_less_iff)

lemma of_int_q: "(of_int 8380417 :: Zq) = 0"
proof -
  have "(of_int 8380417 :: Zq) = of_int 0" unfolding of_int_Zq_eq by simp
  then show ?thesis by simp
qed

lemma Zq_cases: obtains k where "(x :: Zq) = of_nat k" "k < 8380417"
proof -
  obtain z where "x = of_int z" "0 \<le> z" "z < 8380417"
    using bit1.cases [of x thesis] by auto
  then show thesis using that [of "nat z"] by simp
qed

lemma of_int_centered: "of_int (centered x) = x"
proof (cases x rule: Zq_cases)
  case (1 k)
  then show ?thesis
    by (cases "k \<le> 4190208") (simp_all only: centered_of_nat of_int_diff of_int_q if_True if_False of_int_of_nat_eq diff_zero)
qed

lemma centered_bounds: "- 4190208 \<le> centered x" "centered x \<le> 4190208"
  by (cases x rule: Zq_cases; simp add: centered_of_nat)+

lemma centered_unique:
  assumes "of_int z = (x :: Zq)" "- 4190208 \<le> z" "z \<le> 4190208" shows "centered x = z"
proof -
  have "centered x mod 8380417 = z mod 8380417"
    unfolding of_int_Zq_eq [symmetric] using assms(1) by (simp only: of_int_centered)
  then have "8380417 dvd centered x - z" by (simp only: mod_eq_dvd_iff)
  then obtain k where k: "centered x - z = 8380417 * k" by (rule dvdE)
  have "\<bar>centered x - z\<bar> < 8380417" using centered_bounds [of x] assms(2,3) by linarith
  then have "k = 0" unfolding k by (simp add: abs_mult)
  then show ?thesis using k by simp
qed

lemma sint_small: "unat (x :: uint32) < 2 ^ 31 \<Longrightarrow> sint x = int (unat x)"
proof -
  assume "unat x < 2 ^ 31"
  then have "int (unat x) < int (2 ^ 31)" by (simp only: of_nat_less_iff)
  then have u: "uint x < 2 ^ 31" by simp
  have "sint x = signed_take_bit 31 (uint x)" by (simp add: sint_uint)
  also have "\<dots> = uint x"
  proof (rule signed_take_bit_int_eq_self)
    show "- (2 ^ 31) \<le> uint x" by (rule order_trans [OF _ unsigned_greater_eq]) simp
  qed (rule u)
  finally show ?thesis by simp
qed

lemma centeredMod:
  assumes "reduced r" shows "fieldCenteredMod r = centered (val r)"
proof -
  note f = fromMontgomery [OF assms]
  have "int32 (fieldFromMontgomery r) = int (unat (fieldFromMontgomery r))"
    unfolding int32_def by (rule sint_small) (use f(1) in simp)
  then show ?thesis
    unfolding f(2) [symmetric]
    using f(1)
    by (simp add: fieldCenteredMod_def constantTimeSelectLessOrEqual_eq q_def centered_of_nat [OF f(1)] del: of_nat_unat)
qed

lemma infinityNorm:
  assumes "reduced r" shows "int (unat (fieldInfinityNorm r)) = \<bar>centered (val r)\<bar>"
proof -
  note f = fromMontgomery [OF assms]
  have i: "int32 (fieldFromMontgomery r) = int (unat (fieldFromMontgomery r))"
    unfolding int32_def by (rule sint_small) (use f(1) in simp)
  have "constantTimeSelectLessOrEqual x (q div 2) x (q - x) = \<bar>constantTimeSelectLessOrEqual x (q div 2) x (x - q)\<bar>"
    if "0 \<le> x" "x < 8380417" for x :: int
    using that by (simp add: constantTimeSelectLessOrEqual_eq q_def)
  then have "fieldInfinityNorm r = word_of_int \<bar>fieldCenteredMod r\<bar>"
    using f(1) by (simp only: fieldInfinityNorm_def fieldCenteredMod_def Let_def i)
  then show ?thesis
    using centered_bounds [of "val r"]
    by (simp add: centeredMod [OF assms] unsigned_of_int take_bit_int_eq_self)
qed

text \<open>
  C18. The word arithmetic implements the field: for reduced elements every operation gives a
  reduced element, no 32- or 64-bit intermediate value loses information, and under \<open>val\<close> the
  operations are addition, subtraction, multiplication, the fused \<open>a (b - c)\<close> and \<open>a b + c d\<close> of
  \<open>Z\<^sub>q\<close>; converting into and out of the Montgomery domain is the identity on the residue, and the
  infinity norm is the absolute value of the centered representative.
\<close>

theorem field_refines_Zq:
  assumes "reduced a" "reduced b" "reduced c" "reduced d"
  shows "reduced (fieldAdd a b) \<and> val (fieldAdd a b) = val a + val b \<and>
    reduced (fieldSub a b) \<and> val (fieldSub a b) = val a - val b \<and>
    reduced (fieldMontgomeryMul a b) \<and> val (fieldMontgomeryMul a b) = val a * val b \<and>
    reduced (fieldMontgomeryMulSub a b c) \<and> val (fieldMontgomeryMulSub a b c) = val a * (val b - val c) \<and>
    reduced (fieldMontgomeryAddMul a b c d) \<and>
      val (fieldMontgomeryAddMul a b c d) = val a * val b + val c * val d \<and>
    unat (fieldFromMontgomery a) < 8380417 \<and> of_nat (unat (fieldFromMontgomery a)) = val a \<and>
    fieldToMontgomery (fieldFromMontgomery a) = Some a \<and>
    int (unat (fieldInfinityNorm a)) = \<bar>centered (val a)\<bar>"
  by (intro conjI fieldAdd fieldSub montgomeryMul_any montgomeryMulSub montgomeryAddMul fromMontgomery
      toMontgomery_fromMontgomery infinityNorm assms)

theorem field_refines_Zq_witness:
  "val (fieldAdd 8380416 25847) = val 8380416 + val 25847 \<and> fieldToMontgomery (fieldFromMontgomery 25847) = Some 25847"
proof -
  have r: "reduced 8380416" "reduced 25847" by (simp_all add: reduced_def)
  show ?thesis using field_refines_Zq [OF r r] field_refines_Zq [OF r(2,2,2,2)] by blast
qed

end
