(* ===== verification/MLDSA_NTT.thy ===== *)
theory MLDSA_NTT
  imports MLDSA_Field
begin

text \<open>
  The number-theoretic transform of \<open>internal/mldsa/field.go\<close>. A ring element is the list of its
  256 coefficients. The unrolled innermost loops of the source perform the same butterflies, in
  the same order, as the general loop, so that one loop with the block lengths 128 down to 1 (and
  1 up to 128 for the inverse) stands for both.
\<close>

section \<open>Definitions\<close>

definition zetas :: "fieldElement list" where
  "zetas = [4193792, 25847, 5771523, 7861508, 237124, 7602457, 7504169, 466468, 1826347, 2353451,
      8021166, 6288512, 3119733, 5495562, 3111497, 2680103, 2725464, 1024112, 7300517, 3585928,
      7830929, 7260833, 2619752, 6271868, 6262231, 4520680, 6980856, 5102745, 1757237, 8360995,
      4010497, 280005, 2706023, 95776, 3077325, 3530437, 6718724, 4788269, 5842901, 3915439,
      4519302, 5336701, 3574422, 5512770, 3539968, 8079950, 2348700, 7841118, 6681150, 6736599,
      3505694, 4558682, 3507263, 6239768, 6779997, 3699596, 811944, 531354, 954230, 3881043,
      3900724, 5823537, 2071892, 5582638, 4450022, 6851714, 4702672, 5339162, 6927966, 3475950,
      2176455, 6795196, 7122806, 1939314, 4296819, 7380215, 5190273, 5223087, 4747489, 126922,
      3412210, 7396998, 2147896, 2715295, 5412772, 4686924, 7969390, 5903370, 7709315, 7151892,
      8357436, 7072248, 7998430, 1349076, 1852771, 6949987, 5037034, 264944, 508951, 3097992,
      44288, 7280319, 904516, 3958618, 4656075, 8371839, 1653064, 5130689, 2389356, 8169440,
      759969, 7063561, 189548, 4827145, 3159746, 6529015, 5971092, 8202977, 1315589, 1341330,
      1285669, 6795489, 7567685, 6940675, 5361315, 4499357, 4751448, 3839961, 2091667, 3407706,
      2316500, 3817976, 5037939, 2244091, 5933984, 4817955, 266997, 2434439, 7144689, 3513181,
      4860065, 4621053, 7183191, 5187039, 900702, 1859098, 909542, 819034, 495491, 6767243,
      8337157, 7857917, 7725090, 5257975, 2031748, 3207046, 4823422, 7855319, 7611795, 4784579,
      342297, 286988, 5942594, 4108315, 3437287, 5038140, 1735879, 203044, 2842341, 2691481,
      5790267, 1265009, 4055324, 1247620, 2486353, 1595974, 4613401, 1250494, 2635921, 4832145,
      5386378, 1869119, 1903435, 7329447, 7047359, 1237275, 5062207, 6950192, 7929317, 1312455,
      3306115, 6417775, 7100756, 1917081, 5834105, 7005614, 1500165, 777191, 2235880, 3406031,
      7838005, 5548557, 6709241, 6533464, 5796124, 4656147, 594136, 4603424, 6366809, 2432395,
      2454455, 8215696, 1957272, 3369112, 185531, 7173032, 5196991, 162844, 1616392, 3014001,
      810149, 1652634, 4686184, 6581310, 5341501, 3523897, 3866901, 269760, 2213111, 7404533,
      1717735, 472078, 7953734, 1723600, 6577327, 1910376, 6712985, 7276084, 8119771, 4546524,
      5441381, 6144432, 7959518, 6094090, 183443, 7403526, 1612842, 4834730, 7826001, 3919660,
      8332111, 7018208, 3937738, 1400424, 7534263, 1976782]"

definition butterfly :: "fieldElement \<Rightarrow> nat \<Rightarrow> nat \<Rightarrow> fieldElement list \<Rightarrow> fieldElement list" where
  "butterfly zeta i k f =
     (let t = fieldMontgomeryMul zeta (f ! k); f' = f[k := fieldSub (f ! i) t]
      in f'[i := fieldAdd (f' ! i) t])"

definition nttBlock :: "fieldElement \<Rightarrow> nat \<Rightarrow> nat \<Rightarrow> fieldElement list \<Rightarrow> fieldElement list" where
  "nttBlock zeta len start f =
     foldl (\<lambda>f j. butterfly zeta (start + j) (start + len + j) f) f [0..<len]"

definition nttLayer :: "nat \<times> fieldElement list \<Rightarrow> nat \<Rightarrow> nat \<times> fieldElement list" where
  "nttLayer s len =
     foldl (\<lambda>(m, f) b. (m + 1, nttBlock (zetas ! (m + 1)) len (2 * len * b) f)) s [0..<128 div len]"

definition ntt :: "fieldElement list \<Rightarrow> fieldElement list" where
  "ntt f = snd (foldl nttLayer (0, f) [128, 64, 32, 16, 8, 4, 2, 1])"

definition invButterfly :: "fieldElement \<Rightarrow> nat \<Rightarrow> nat \<Rightarrow> fieldElement list \<Rightarrow> fieldElement list" where
  "invButterfly zeta i k f =
     (let t = f ! i; f' = f[i := fieldAdd t (f ! k)]
      in f'[k := fieldMontgomeryMulSub zeta (f' ! k) t])"

definition invBlock :: "fieldElement \<Rightarrow> nat \<Rightarrow> nat \<Rightarrow> fieldElement list \<Rightarrow> fieldElement list" where
  "invBlock zeta len start f =
     foldl (\<lambda>f j. invButterfly zeta (start + j) (start + len + j) f) f [0..<len]"

definition invLayer :: "nat \<times> fieldElement list \<Rightarrow> nat \<Rightarrow> nat \<times> fieldElement list" where
  "invLayer s len =
     foldl (\<lambda>(m, f) b. (m - 1, invBlock (zetas ! m) len (2 * len * b) f)) s [0..<128 div len]"

definition inverseNTT :: "fieldElement list \<Rightarrow> fieldElement list" where
  "inverseNTT f =
     map (\<lambda>x. fieldMontgomeryMul x 16382) (snd (foldl invLayer (255, f) [1, 2, 4, 8, 16, 32, 64, 128]))"

definition polyAdd :: "fieldElement list \<Rightarrow> fieldElement list \<Rightarrow> fieldElement list" where
  "polyAdd a b = map2 fieldAdd a b"

definition polySub :: "fieldElement list \<Rightarrow> fieldElement list \<Rightarrow> fieldElement list" where
  "polySub a b = map2 fieldSub a b"

definition nttMul :: "fieldElement list \<Rightarrow> fieldElement list \<Rightarrow> fieldElement list" where
  "nttMul a b = map2 fieldMontgomeryMul a b"

section \<open>What a layer computes\<close>

text \<open>
  Both transforms replace pairs of coefficients \<open>(a, b)\<close> by \<open>(lo a b, hi a b)\<close>. A block of
  length \<open>len\<close> does so for \<open>len\<close> pairs at distance \<open>len\<close>, a layer for every block.
\<close>

definition pairStep :: "('a \<Rightarrow> 'a \<Rightarrow> 'a) \<Rightarrow> ('a \<Rightarrow> 'a \<Rightarrow> 'a) \<Rightarrow> nat \<Rightarrow> nat \<Rightarrow> 'a list \<Rightarrow> 'a list" where
  "pairStep lo hi i k f = f[i := lo (f ! i) (f ! k), k := hi (f ! i) (f ! k)]"

definition pairBlock :: "('a \<Rightarrow> 'a \<Rightarrow> 'a) \<Rightarrow> ('a \<Rightarrow> 'a \<Rightarrow> 'a) \<Rightarrow> nat \<Rightarrow> nat \<Rightarrow> nat \<Rightarrow> 'a list \<Rightarrow> 'a list" where
  "pairBlock lo hi len n start f = foldl (\<lambda>f j. pairStep lo hi (start + j) (start + len + j) f) f [0..<n]"

lemma block_nth:
  assumes "n \<le> len" "start + 2 * len \<le> length f"
  shows "length (pairBlock lo hi len n start f) = length f \<and>
    (\<forall>x < length f. pairBlock lo hi len n start f ! x =
      (if start \<le> x \<and> x < start + n then lo (f ! x) (f ! (x + len))
       else if start + len \<le> x \<and> x < start + len + n then hi (f ! (x - len)) (f ! x) else f ! x))"
  using assms(1)
proof (induction n)
  case (Suc n)
  let ?g = "pairBlock lo hi len n start f"
  have len: "length ?g = length f" and
    nth: "\<And>x. x < length f \<Longrightarrow> ?g ! x =
      (if start \<le> x \<and> x < start + n then lo (f ! x) (f ! (x + len))
       else if start + len \<le> x \<and> x < start + len + n then hi (f ! (x - len)) (f ! x) else f ! x)"
    using Suc by auto
  have ends: "?g ! (start + n) = f ! (start + n)" "?g ! (start + len + n) = f ! (start + len + n)"
    using nth [of "start + n"] nth [of "start + len + n"] Suc.prems assms(2) by auto
  have step: "pairBlock lo hi len (Suc n) start f =
      ?g[start + n := lo (f ! (start + n)) (f ! (start + len + n)),
         start + len + n := hi (f ! (start + n)) (f ! (start + len + n))]"
    by (simp add: pairBlock_def pairStep_def flip: ends)
  show ?case
  proof (intro conjI allI impI)
    show "length (pairBlock lo hi len (Suc n) start f) = length f" by (simp add: step len)
    fix x assume x: "x < length f"
    show "pairBlock lo hi len (Suc n) start f ! x =
      (if start \<le> x \<and> x < start + Suc n then lo (f ! x) (f ! (x + len))
       else if start + len \<le> x \<and> x < start + len + Suc n then hi (f ! (x - len)) (f ! x) else f ! x)"
      unfolding step using x Suc.prems assms(2) nth [OF x] len
      by (cases "x = start + n"; cases "x = start + len + n") (auto simp: nth_list_update ac_simps)
  qed
qed (auto simp: pairBlock_def)

definition pairLayer :: "(nat \<Rightarrow> 'a \<Rightarrow> 'a \<Rightarrow> 'a) \<Rightarrow> (nat \<Rightarrow> 'a \<Rightarrow> 'a \<Rightarrow> 'a) \<Rightarrow> nat \<Rightarrow> nat \<Rightarrow> 'a list \<Rightarrow> 'a list" where
  "pairLayer lo hi len B f = foldl (\<lambda>f b. pairBlock (lo b) (hi b) len len (2 * len * b) f) f [0..<B]"

lemma layer_nth:
  fixes f :: "'a list" and lo hi :: "nat \<Rightarrow> 'a \<Rightarrow> 'a \<Rightarrow> 'a"
  assumes "2 * len * B \<le> length f"
  defines "h \<equiv> \<lambda>B. pairLayer lo hi len B f"
  shows "length (h B) = length f \<and> (\<forall>x < length f. h B ! x =
    (if x < 2 * len * B
     then (let b = x div (2 * len) in
           if x mod (2 * len) < len then lo b (f ! x) (f ! (x + len)) else hi b (f ! (x - len)) (f ! x))
     else f ! x))"
  using assms(1)
proof (induction B)
  case (Suc B)
  let ?g = "h B"
  have le: "2 * len * B + 2 * len \<le> length f" using Suc.prems by (simp add: algebra_simps)
  have len: "length ?g = length f" and
    nth: "\<And>x. x < length f \<Longrightarrow> ?g ! x =
      (if x < 2 * len * B
       then (let b = x div (2 * len) in
             if x mod (2 * len) < len then lo b (f ! x) (f ! (x + len)) else hi b (f ! (x - len)) (f ! x))
       else f ! x)"
    using Suc le by auto
  have step: "h (Suc B) = pairBlock (lo B) (hi B) len len (2 * len * B) ?g" by (simp add: h_def pairLayer_def)
  have bl: "2 * len * B + 2 * len \<le> length ?g" using le len by simp
  note blk = block_nth [OF order_refl bl, of "lo B" "hi B"]
  show ?case
  proof (intro conjI allI impI)
    show "length (h (Suc B)) = length f" using blk len by (simp add: step)
    fix x assume x: "x < length f"
    let ?s = "2 * len * B"
    have g: "h (Suc B) ! x =
      (if ?s \<le> x \<and> x < ?s + len then lo B (?g ! x) (?g ! (x + len))
       else if ?s + len \<le> x \<and> x < ?s + len + len then hi B (?g ! (x - len)) (?g ! x) else ?g ! x)"
      using blk x len by (simp add: step)
    consider "x < ?s" | "?s + 2 * len \<le> x" | "?s \<le> x" "x < ?s + 2 * len" by linarith
    then show "h (Suc B) ! x =
      (if x < 2 * len * Suc B
       then (let b = x div (2 * len) in
             if x mod (2 * len) < len then lo b (f ! x) (f ! (x + len)) else hi b (f ! (x - len)) (f ! x))
       else f ! x)"
    proof cases
      case 1
      then show ?thesis using g nth [OF x] by (simp add: Let_def)
    next
      case 2
      then show ?thesis using g nth [OF x] by (simp add: algebra_simps)
    next
      case 3
      define r where "r = x - ?s"
      have r: "x = ?s + r" "r < 2 * len" using 3 by (simp_all add: r_def)
      have dm: "x div (2 * len) = B" "x mod (2 * len) = r"
        unfolding r(1) using r(2) by simp_all
      have "?g ! x = f ! x" "r < len \<Longrightarrow> ?g ! (x + len) = f ! (x + len)" "len \<le> r \<Longrightarrow> ?g ! (x - len) = f ! (x - len)"
        using nth [of x] nth [of "x + len"] nth [of "x - len"] r x le by auto
      then show ?thesis using g r dm by (simp add: Let_def)
    qed
  qed
qed (simp add: h_def pairLayer_def)

section \<open>The layers of the two transforms\<close>

abbreviation addMul :: "fieldElement \<Rightarrow> fieldElement \<Rightarrow> fieldElement \<Rightarrow> fieldElement" where
  "addMul z a b \<equiv> fieldAdd a (fieldMontgomeryMul z b)"

abbreviation subMul :: "fieldElement \<Rightarrow> fieldElement \<Rightarrow> fieldElement \<Rightarrow> fieldElement" where
  "subMul z a b \<equiv> fieldSub a (fieldMontgomeryMul z b)"

abbreviation mulSub :: "fieldElement \<Rightarrow> fieldElement \<Rightarrow> fieldElement \<Rightarrow> fieldElement" where
  "mulSub z a b \<equiv> fieldMontgomeryMulSub z b a"

lemma butterfly_pair: "i \<noteq> k \<Longrightarrow> butterfly z i k f = pairStep (addMul z) (subMul z) i k f"
  by (simp add: butterfly_def pairStep_def Let_def list_update_swap)

lemma invButterfly_pair: "i \<noteq> k \<Longrightarrow> invButterfly z i k f = pairStep fieldAdd (mulSub z) i k f"
  by (simp add: invButterfly_def pairStep_def Let_def)

lemma nttBlock_pair: "0 < len \<Longrightarrow> nttBlock z len start f = pairBlock (addMul z) (subMul z) len len start f"
  by (simp add: nttBlock_def pairBlock_def butterfly_pair)

lemma invBlock_pair: "0 < len \<Longrightarrow> invBlock z len start f = pairBlock fieldAdd (mulSub z) len len start f"
  by (simp add: invBlock_def pairBlock_def invButterfly_pair)

lemma nttLayer_pair:
  assumes "0 < len"
  shows "nttLayer (m, f) len = (m + 128 div len,
    pairLayer (\<lambda>b. addMul (zetas ! (m + b + 1))) (\<lambda>b. subMul (zetas ! (m + b + 1))) len (128 div len) f)"
proof -
  have "foldl (\<lambda>(m, f) b. (m + 1, nttBlock (zetas ! (m + 1)) len (2 * len * b) f)) (m, f) [0..<B] =
      (m + B, pairLayer (\<lambda>b. addMul (zetas ! (m + b + 1))) (\<lambda>b. subMul (zetas ! (m + b + 1))) len B f)" for B
    by (induction B) (simp_all add: pairLayer_def nttBlock_pair [OF assms])
  then show ?thesis unfolding nttLayer_def .
qed

lemma invLayer_pair:
  assumes "0 < len"
  shows "invLayer (m, f) len = (m - 128 div len,
    pairLayer (\<lambda>b. fieldAdd) (\<lambda>b. mulSub (zetas ! (m - b))) len (128 div len) f)"
proof -
  have "foldl (\<lambda>(m, f) b. (m - 1, invBlock (zetas ! m) len (2 * len * b) f)) (m, f) [0..<B] =
      (m - B, pairLayer (\<lambda>b. fieldAdd) (\<lambda>b. mulSub (zetas ! (m - b))) len B f)" for B
    by (induction B) (simp_all add: pairLayer_def invBlock_pair [OF assms])
  then show ?thesis unfolding invLayer_def .
qed

section \<open>The transforms over the ring\<close>

definition wf_poly :: "fieldElement list \<Rightarrow> bool" where
  "wf_poly f \<longleftrightarrow> length f = 256 \<and> list_all reduced f"

definition coeff :: "fieldElement list \<Rightarrow> nat \<Rightarrow> Zq" where
  "coeff f x = val (f ! x)"

definition z :: "nat \<Rightarrow> Zq" where
  "z k = val (zetas ! k)"

definition fwd :: "nat \<Rightarrow> (nat \<Rightarrow> Zq) \<Rightarrow> nat \<Rightarrow> Zq" where
  "fwd len V x =
     (let c = z (128 div len + x div (2 * len)) in
      if x mod (2 * len) < len then V x + c * V (x + len) else V (x - len) - c * V x)"

definition bwd :: "nat \<Rightarrow> (nat \<Rightarrow> Zq) \<Rightarrow> nat \<Rightarrow> Zq" where
  "bwd len V x =
     (let c = z (2 * (128 div len) - 1 - x div (2 * len)) in
      if x mod (2 * len) < len then V x + V (x + len) else c * (V x - V (x - len)))"

lemma length_zetas [simp]: "length zetas = 256"
  by (simp add: zetas_def)

lemma reduced_zetas: "k < 256 \<Longrightarrow> reduced (zetas ! k)"
proof -
  have "list_all (\<lambda>a. a < 8380417) zetas" by (simp add: zetas_def)
  then show "k < 256 \<Longrightarrow> reduced (zetas ! k)"
    by (simp add: list_all_length reduced_def word_less_nat_alt)
qed

lemma wf_nth: "wf_poly f \<Longrightarrow> x < 256 \<Longrightarrow> reduced (f ! x)"
  by (simp add: wf_poly_def list_all_length)

text \<open>The block lengths, and where an index lies in its block.\<close>

definition lens :: "nat list" where "lens = [128, 64, 32, 16, 8, 4, 2, 1]"

lemma lens_props:
  assumes "len \<in> set lens"
  shows "0 < len" "2 * len * (128 div len) = 256"
  using assms by (auto simp: lens_def)

lemma block_index:
  assumes "len \<in> set lens" "x < 256"
  shows "x div (2 * len) < 128 div len"
    and "x mod (2 * len) < len \<Longrightarrow> x + len < 256 \<and> (x + len) div (2 * len) = x div (2 * len) \<and>
      (x + len) mod (2 * len) = x mod (2 * len) + len"
    and "\<not> x mod (2 * len) < len \<Longrightarrow> len \<le> x \<and> (x - len) div (2 * len) = x div (2 * len) \<and>
      (x - len) mod (2 * len) = x mod (2 * len) - len \<and> x mod (2 * len) - len < len"
proof -
  let ?l = "2 * len"
  have l: "0 < ?l" "?l * (128 div len) = 256" using lens_props [OF assms(1)] by simp_all
  define b r where "b = x div ?l" and "r = x mod ?l"
  have x: "x = ?l * b + r" "r < ?l" using l by (simp_all add: b_def r_def)
  show b: "x div ?l < 128 div len" using assms(2) l by (metis div_less_iff_less_mult mult.commute)
  have up: "?l * b + ?l \<le> 256" using b l(2) unfolding b_def by (metis Suc_leI mult_Suc_right mult_le_mono2 add.commute)
  have dm: "(?l * b + s) div ?l = b" "(?l * b + s) mod ?l = s" if "s < ?l" for s
    using that l by simp_all
  show "x mod ?l < len \<Longrightarrow> x + len < 256 \<and> (x + len) div ?l = x div ?l \<and> (x + len) mod ?l = x mod ?l + len"
    using dm [of "r + len"] up x by (simp add: b_def [symmetric] r_def [symmetric] add.assoc)
  show "\<not> x mod ?l < len \<Longrightarrow> len \<le> x \<and> (x - len) div ?l = x div ?l \<and>
      (x - len) mod ?l = x mod ?l - len \<and> x mod ?l - len < len"
  proof -
    assume "\<not> x mod ?l < len"
    then have r: "len \<le> r" by (simp add: r_def)
    then have "x - len = ?l * b + (r - len)" using x(1) by simp
    then show ?thesis using dm [of "r - len"] x r by (simp add: b_def [symmetric] r_def [symmetric])
  qed
qed

lemma nttLayer_coeff:
  assumes f: "wf_poly f" and l: "len \<in> set lens"
  obtains g where "nttLayer (128 div len - 1, f) len = (2 * (128 div len) - 1, g)" "wf_poly g"
    "\<And>x. x < 256 \<Longrightarrow> coeff g x = fwd len (coeff f) x"
proof -
  let ?B = "128 div len"
  have p: "0 < len" "2 * len * ?B = 256" and B: "0 < ?B" "?B \<le> 128" using l by (auto simp: lens_def)
  define g where "g = pairLayer (\<lambda>b. addMul (zetas ! (?B + b))) (\<lambda>b. subMul (zetas ! (?B + b))) len ?B f"
  have ix: "?B - 1 + b + 1 = ?B + b" for b using B(1) by simp
  have len: "length f = 256" using f by (simp add: wf_poly_def)
  have nth: "g ! x = (let z = zetas ! (?B + x div (2 * len)) in
      if x mod (2 * len) < len then addMul z (f ! x) (f ! (x + len)) else subMul z (f ! (x - len)) (f ! x))"
    if "x < 256" for x
    using layer_nth [of len ?B f "\<lambda>b. addMul (zetas ! (?B + b))" "\<lambda>b. subMul (zetas ! (?B + b))"] that len p(2)
    by (simp add: g_def Let_def)
  have glen: "length g = 256"
    using layer_nth [of len ?B f] len p(2) by (simp add: g_def)
  have "reduced (g ! x) \<and> coeff g x = fwd len (coeff f) x" if x: "x < 256" for x
  proof -
    let ?z = "zetas ! (?B + x div (2 * len))"
    have "?B + x div (2 * len) < 256" using block_index(1) [OF l x] B(2) by linarith
    then have z: "reduced ?z" by (rule reduced_zetas)
    show ?thesis
    proof (cases "x mod (2 * len) < len")
      case True
      have r: "reduced (f ! x)" "reduced (f ! (x + len))"
        using wf_nth [OF f] block_index(2) [OF l x True] x by auto
      have "g ! x = addMul ?z (f ! x) (f ! (x + len))" using nth [OF x] True by (simp add: Let_def)
      then show ?thesis
        using fieldAdd [OF r(1) montgomeryMul_any(1) [OF r(2), of ?z]] montgomeryMul_any(2) [OF r(2), of ?z] True
        by (simp add: coeff_def fwd_def z_def Let_def)
    next
      case False
      have r: "reduced (f ! (x - len))" "reduced (f ! x)"
        using wf_nth [OF f] block_index(3) [OF l x False] x by auto
      have "g ! x = subMul ?z (f ! (x - len)) (f ! x)" using nth [OF x] False by (simp add: Let_def)
      then show ?thesis
        using fieldSub [OF r(1) montgomeryMul_any(1) [OF r(2), of ?z]] montgomeryMul_any(2) [OF r(2), of ?z] False
        by (simp add: coeff_def fwd_def z_def Let_def)
    qed
  qed
  moreover have "nttLayer (?B - 1, f) len = (2 * ?B - 1, g)"
    unfolding nttLayer_pair [OF p(1)] g_def ix using B(1) by simp
  ultimately show thesis using glen by (intro that) (auto simp: wf_poly_def list_all_length)
qed

lemma invLayer_coeff:
  assumes f: "wf_poly f" and l: "len \<in> set lens"
  obtains g where "invLayer (2 * (128 div len) - 1, f) len = (128 div len - 1, g)" "wf_poly g"
    "\<And>x. x < 256 \<Longrightarrow> coeff g x = bwd len (coeff f) x"
proof -
  let ?B = "128 div len"
  have p: "0 < len" "2 * len * ?B = 256" and B: "0 < ?B" "?B \<le> 128" using l by (auto simp: lens_def)
  define g where "g = pairLayer (\<lambda>b. fieldAdd) (\<lambda>b. mulSub (zetas ! (2 * ?B - 1 - b))) len ?B f"
  have len: "length f = 256" using f by (simp add: wf_poly_def)
  have nth: "g ! x = (let z = zetas ! (2 * ?B - 1 - x div (2 * len)) in
      if x mod (2 * len) < len then fieldAdd (f ! x) (f ! (x + len)) else mulSub z (f ! (x - len)) (f ! x))"
    if "x < 256" for x
    using layer_nth [of len ?B f "\<lambda>b. fieldAdd" "\<lambda>b. mulSub (zetas ! (2 * ?B - 1 - b))"] that len p(2)
    by (simp add: g_def Let_def)
  have glen: "length g = 256"
    using layer_nth [of len ?B f] len p(2) by (simp add: g_def)
  have "reduced (g ! x) \<and> coeff g x = bwd len (coeff f) x" if x: "x < 256" for x
  proof -
    let ?z = "zetas ! (2 * ?B - 1 - x div (2 * len))"
    have "2 * ?B - 1 - x div (2 * len) < 256" using B(2) by linarith
    then have z: "reduced ?z" by (rule reduced_zetas)
    show ?thesis
    proof (cases "x mod (2 * len) < len")
      case True
      have r: "reduced (f ! x)" "reduced (f ! (x + len))"
        using wf_nth [OF f] block_index(2) [OF l x True] x by auto
      then show ?thesis
        using nth [OF x] True fieldAdd [OF r] by (simp add: coeff_def bwd_def Let_def)
    next
      case False
      have r: "reduced (f ! (x - len))" "reduced (f ! x)"
        using wf_nth [OF f] block_index(3) [OF l x False] x by auto
      have "g ! x = mulSub ?z (f ! (x - len)) (f ! x)" using nth [OF x] False by (simp add: Let_def)
      then show ?thesis
        using montgomeryMulSub [OF z r(2,1)] False by (simp add: coeff_def bwd_def z_def Let_def)
    qed
  qed
  moreover have "invLayer (2 * ?B - 1, f) len = (?B - 1, g)"
    unfolding invLayer_pair [OF p(1)] g_def by simp
  ultimately show thesis using glen by (intro that) (auto simp: wf_poly_def list_all_length)
qed

lemma fwd_cong:
  "\<forall>x < 256. V x = W x \<Longrightarrow> len \<in> set lens \<Longrightarrow> x < 256 \<Longrightarrow> fwd len V x = fwd len W x"
  using block_index(2,3) [of len x] by (auto simp: fwd_def Let_def)

lemma bwd_cong:
  "\<forall>x < 256. V x = W x \<Longrightarrow> len \<in> set lens \<Longrightarrow> x < 256 \<Longrightarrow> bwd len V x = bwd len W x"
  using block_index(2,3) [of len x] by (auto simp: bwd_def Let_def)

definition fwds :: "nat list \<Rightarrow> (nat \<Rightarrow> Zq) \<Rightarrow> nat \<Rightarrow> Zq" where
  "fwds ls V = foldl (\<lambda>V len. fwd len V) V ls"

definition bwds :: "nat list \<Rightarrow> (nat \<Rightarrow> Zq) \<Rightarrow> nat \<Rightarrow> Zq" where
  "bwds ls V = foldl (\<lambda>V len. bwd len V) V ls"

lemma fwds_cong:
  "\<forall>x < 256. V x = W x \<Longrightarrow> set ls \<subseteq> set lens \<Longrightarrow> x < 256 \<Longrightarrow> fwds ls V x = fwds ls W x"
proof (induction ls arbitrary: V W)
  case (Cons l ls)
  have "\<forall>x < 256. fwd l V x = fwd l W x" using Cons.prems fwd_cong by auto
  then show ?case using Cons by (simp add: fwds_def)
qed (simp add: fwds_def)

lemma bwds_cong:
  "\<forall>x < 256. V x = W x \<Longrightarrow> set ls \<subseteq> set lens \<Longrightarrow> x < 256 \<Longrightarrow> bwds ls V x = bwds ls W x"
proof (induction ls arbitrary: V W)
  case (Cons l ls)
  have "\<forall>x < 256. bwd l V x = bwd l W x" using Cons.prems bwd_cong by auto
  then show ?case using Cons by (simp add: bwds_def)
qed (simp add: bwds_def)

text \<open>Layers follow one another: the counter of one starts where the last one stopped.\<close>

fun upward :: "nat \<Rightarrow> nat list \<Rightarrow> bool" where
  "upward m [] = True"
| "upward m (l # ls) \<longleftrightarrow> l \<in> set lens \<and> m = 128 div l - 1 \<and> upward (2 * (128 div l) - 1) ls"

fun downward :: "nat \<Rightarrow> nat list \<Rightarrow> bool" where
  "downward m [] = True"
| "downward m (l # ls) \<longleftrightarrow> l \<in> set lens \<and> m = 2 * (128 div l) - 1 \<and> downward (128 div l - 1) ls"

lemma upward_lens: "upward m ls \<Longrightarrow> set ls \<subseteq> set lens"
  by (induction ls arbitrary: m) auto

lemma downward_lens: "downward m ls \<Longrightarrow> set ls \<subseteq> set lens"
  by (induction ls arbitrary: m) auto

lemma nttLayers_coeff:
  assumes "wf_poly f" "upward m ls"
  obtains m' g where "foldl nttLayer (m, f) ls = (m', g)" "wf_poly g"
    "\<And>x. x < 256 \<Longrightarrow> coeff g x = fwds ls (coeff f) x"
  using assms
proof (induction ls arbitrary: m f thesis)
  case (Cons l ls)
  obtain g where g: "nttLayer (m, f) l = (2 * (128 div l) - 1, g)" "wf_poly g"
      "\<And>x. x < 256 \<Longrightarrow> coeff g x = fwd l (coeff f) x"
    using nttLayer_coeff [of f l] Cons.prems by auto
  obtain m' h where h: "foldl nttLayer (2 * (128 div l) - 1, g) ls = (m', h)" "wf_poly h"
      "\<And>x. x < 256 \<Longrightarrow> coeff h x = fwds ls (coeff g) x"
    using Cons.IH [of "2 * (128 div l) - 1" g] g(2) Cons.prems by auto
  have ls: "set ls \<subseteq> set lens" using Cons.prems(3) upward_lens by auto
  have "x < 256 \<Longrightarrow> coeff h x = fwds (l # ls) (coeff f) x" for x
    using h(3) [of x] g(3) fwds_cong [of "coeff g" "fwd l (coeff f)" ls x] ls by (simp add: fwds_def)
  then show ?case using Cons.prems(1) g(1) h(1,2) by simp
qed (simp add: fwds_def)

lemma invLayers_coeff:
  assumes "wf_poly f" "downward m ls"
  obtains m' g where "foldl invLayer (m, f) ls = (m', g)" "wf_poly g"
    "\<And>x. x < 256 \<Longrightarrow> coeff g x = bwds ls (coeff f) x"
  using assms
proof (induction ls arbitrary: m f thesis)
  case (Cons l ls)
  obtain g where g: "invLayer (m, f) l = (128 div l - 1, g)" "wf_poly g"
      "\<And>x. x < 256 \<Longrightarrow> coeff g x = bwd l (coeff f) x"
    using invLayer_coeff [of f l] Cons.prems by auto
  obtain m' h where h: "foldl invLayer (128 div l - 1, g) ls = (m', h)" "wf_poly h"
      "\<And>x. x < 256 \<Longrightarrow> coeff h x = bwds ls (coeff g) x"
    using Cons.IH [of "128 div l - 1" g] g(2) Cons.prems by auto
  have ls: "set ls \<subseteq> set lens" using Cons.prems(3) downward_lens by auto
  have "x < 256 \<Longrightarrow> coeff h x = bwds (l # ls) (coeff f) x" for x
    using h(3) [of x] g(3) bwds_cong [of "coeff g" "bwd l (coeff f)" ls x] ls by (simp add: bwds_def)
  then show ?case using Cons.prems(1) g(1) h(1,2) by simp
qed (simp add: bwds_def)

lemma ntt_coeff:
  assumes "wf_poly f"
  shows "wf_poly (ntt f)" "x < 256 \<Longrightarrow> coeff (ntt f) x = fwds lens (coeff f) x"
proof -
  have "upward 0 lens" by (simp add: lens_def)
  then obtain m' g where "foldl nttLayer (0, f) lens = (m', g)" "wf_poly g"
    "\<And>x. x < 256 \<Longrightarrow> coeff g x = fwds lens (coeff f) x"
    using nttLayers_coeff [OF assms] by blast
  moreover have "ntt f = snd (foldl nttLayer (0, f) lens)" by (simp add: ntt_def lens_def)
  ultimately show "wf_poly (ntt f)" "x < 256 \<Longrightarrow> coeff (ntt f) x = fwds lens (coeff f) x" by auto
qed

lemma inverseNTT_coeff:
  assumes "wf_poly f"
  shows "wf_poly (inverseNTT f)" "x < 256 \<Longrightarrow> coeff (inverseNTT f) x = bwds (rev lens) (coeff f) x * val 16382"
proof -
  have "downward 255 (rev lens)" by (simp add: lens_def)
  then obtain m' g where g: "foldl invLayer (255, f) (rev lens) = (m', g)" "wf_poly g"
    "\<And>x. x < 256 \<Longrightarrow> coeff g x = bwds (rev lens) (coeff f) x"
    using invLayers_coeff [OF assms] by blast
  have r: "reduced 16382" by (simp add: reduced_def)
  have eq: "inverseNTT f = map (\<lambda>x. fieldMontgomeryMul x 16382) g"
    using g(1) by (simp add: inverseNTT_def lens_def)
  show "wf_poly (inverseNTT f)"
    using g(2) montgomeryMul_any(1) [OF r] by (simp add: eq wf_poly_def list_all_length)
  show "x < 256 \<Longrightarrow> coeff (inverseNTT f) x = bwds (rev lens) (coeff f) x * val 16382"
    using g(2) g(3) [of x] montgomeryMul_any(2) [OF r, of "g ! x"]
    by (simp add: eq wf_poly_def coeff_def)
qed

section \<open>The roots of unity\<close>

text \<open>
  The table holds, in the order the transforms use it, a square root of \<open>-1\<close> and from there on
  the square roots of each entry and of its negative; the entries used by the inverse transform
  are the negated inverses.
\<close>

definition zetaNs :: "nat list" where
  "zetaNs = [1, 4808194, 3765607, 3761513, 5178923, 5496691, 5234739, 5178987, 7778734, 3542485, 2682288,
      2129892, 3764867, 7375178, 557458, 7159240, 5010068, 4317364, 2663378, 6705802, 4855975,
      7946292, 676590, 7044481, 5152541, 1714295, 2453983, 1460718, 7737789, 4795319, 2815639,
      2283733, 3602218, 3182878, 2740543, 4793971, 5269599, 2101410, 3704823, 1159875, 394148,
      928749, 1095468, 4874037, 2071829, 4361428, 3241972, 2156050, 3415069, 1759347, 7562881,
      4805951, 3756790, 6444618, 6663429, 4430364, 5483103, 3192354, 556856, 3870317, 2917338,
      1853806, 3345963, 1858416, 3073009, 1277625, 5744944, 3852015, 4183372, 5157610, 5258977,
      8106357, 2508980, 2028118, 1937570, 4564692, 2811291, 5396636, 7270901, 4158088, 1528066,
      482649, 1148858, 5418153, 7814814, 169688, 2462444, 5046034, 4213992, 4892034, 1987814,
      5183169, 1736313, 235407, 5130263, 3258457, 5801164, 1787943, 5989328, 6125690, 3482206,
      4197502, 7080401, 6018354, 7062739, 2461387, 3035980, 621164, 3901472, 7153756, 2925816,
      3374250, 1356448, 5604662, 2683270, 5601629, 4912752, 2312838, 7727142, 7921254, 348812,
      8052569, 1011223, 6026202, 4561790, 6458164, 6143691, 1744507, 1753, 6444997, 5720892,
      6924527, 2660408, 6600190, 8321269, 2772600, 1182243, 87208, 636927, 4415111, 4423672,
      6084020, 5095502, 4663471, 8352605, 822541, 1009365, 5926272, 6400920, 1596822, 4423473,
      4620952, 6695264, 4969849, 2678278, 4611469, 4829411, 635956, 8129971, 5925040, 4234153,
      6607829, 2192938, 6653329, 2387513, 4768667, 8111961, 5199961, 3747250, 2296099, 1239911,
      4541938, 3195676, 2642980, 1254190, 8368000, 2998219, 141835, 8291116, 2513018, 7025525,
      613238, 7070156, 6161950, 7921677, 6458423, 4040196, 4908348, 2039144, 6500539, 7561656,
      6201452, 6757063, 2105286, 6006015, 6346610, 586241, 7200804, 527981, 5637006, 6903432,
      1994046, 2491325, 6987258, 507927, 7192532, 7655613, 6545891, 5346675, 8041997, 2647994,
      3009748, 5767564, 4148469, 749577, 4357667, 3980599, 2569011, 6764887, 1723229, 1665318,
      2028038, 1163598, 5011144, 3994671, 8368538, 7009900, 3020393, 3363542, 214880, 545376,
      7609976, 3105558, 7277073, 508145, 7826699, 860144, 3430436, 140244, 6866265, 6195333,
      3123762, 2358373, 6187330, 5365997, 6663603, 2926054, 7987710, 8077412, 3531229, 4405932,
      4606686, 1900052, 7598542, 1054478, 7648983]"

lemma length_zetaNs [simp]: "length zetaNs = 256"
  by (simp add: zetaNs_def)

lemma zetaNs_eq: "map (\<lambda>a. unat a * 8265825 mod 8380417) zetas = zetaNs"
  by (simp add: zetas_def zetaNs_def)

lemma z_zetaNs: "k < 256 \<Longrightarrow> z k = of_nat (zetaNs ! k)"
proof -
  assume k: "k < 256"
  have "unat (zetas ! k) * 8265825 mod 8380417 = zetaNs ! k"
    unfolding zetaNs_eq [symmetric] using k by simp
  then have "(of_nat (unat (zetas ! k) * 8265825) :: Zq) = of_nat (zetaNs ! k)"
    unfolding of_nat_Zq_eq by (metis mod_mod_trivial)
  moreover have "(of_nat 8265825 :: Zq) = rinv" by (simp add: rinv_def)
  ultimately show ?thesis by (simp only: z_def val_def of_nat_mult)
qed

lemma zeta_squares:
  "map (\<lambda>x. x * x mod 8380417) (tl zetaNs) = 8380416 # concat (map (\<lambda>p. [p, 8380417 - p]) (take 127 (tl zetaNs)))"
  by (simp add: zetaNs_def)

lemma zeta_pairs:
  "list_all (\<lambda>B. let w = take B (drop B zetaNs) in list_all (\<lambda>(x, y). x * y mod 8380417 = 8380416) (zip w (rev w)))
     [1, 2, 4, 8, 16, 32, 64, 128]"
  by (simp add: zetaNs_def)

lemma minus_one_Zq: "(of_nat 8380416 :: Zq) = - 1"
proof -
  have "(of_nat 8380416 :: Zq) + 1 = of_nat 8380417" by simp
  then show ?thesis by (simp only: of_nat_q add_eq_0_iff2)
qed

lemma Zq_square: "x * y mod 8380417 = w \<Longrightarrow> (of_nat x :: Zq) * of_nat y = of_nat w"
  by (metis of_nat_Zq_eq of_nat_mult mod_mod_trivial)

lemma of_nat_neg: "p \<le> 8380417 \<Longrightarrow> (of_nat (8380417 - p) :: Zq) = - of_nat p"
  by (simp only: of_nat_diff of_nat_q diff_0)

lemma nth_concat_pairs:
  "i < 2 * length ps \<Longrightarrow>
   concat (map (\<lambda>p. [f p, g p]) ps) ! i = (if even i then f (ps ! (i div 2)) else g (ps ! (i div 2)))"
proof (induction ps arbitrary: i)
  case (Cons p ps)
  consider "i = 0" | "i = 1" | k where "i = Suc (Suc k)" by (metis One_nat_def not0_implies_Suc)
  then show ?case using Cons by cases auto
qed simp

lemma zetaNs_le: "k < 256 \<Longrightarrow> zetaNs ! k \<le> 8380417"
  unfolding zetaNs_eq [symmetric] by (simp add: less_imp_le)

lemma z_squares: "z 1 * z 1 = -1"
    "2 \<le> k \<Longrightarrow> k < 256 \<Longrightarrow> z k * z k = (if even k then z (k div 2) else - z (k div 2))"
proof -
  define ps where "ps = take 127 (tl zetaNs)"
  have lp: "length ps = 127" unfolding ps_def by simp
  have ps: "ps ! j = zetaNs ! Suc j" if "j < 127" for j
    unfolding ps_def using that by (simp only: nth_take nth_tl length_tl length_zetaNs)
  have t: "map (\<lambda>x. x * x mod 8380417) (tl zetaNs) ! i = zetaNs ! Suc i * zetaNs ! Suc i mod 8380417"
    if "i < 255" for i
  proof -
    have "i < length (tl zetaNs)" using that by simp
    then show ?thesis by (simp only: nth_map nth_tl)
  qed
  note sq = zeta_squares [folded ps_def]
  have "zetaNs ! Suc 0 * zetaNs ! Suc 0 mod 8380417 = 8380416"
    using t [of 0] unfolding sq by simp
  then show "z 1 * z 1 = -1" by (simp only: z_zetaNs Zq_square minus_one_Zq One_nat_def)
  assume k: "2 \<le> k" "k < 256"
  define i where "i = k - 2"
  have i: "k = Suc (Suc i)" using k(1) by (simp add: i_def)
  have kd: "Suc (i div 2) = k div 2" "even i = even k" "i < 2 * length ps" "i div 2 < 127" using i k lp by simp_all
  have "zetaNs ! k * zetaNs ! k mod 8380417 = (8380416 # concat (map (\<lambda>p. [p, 8380417 - p]) ps)) ! Suc i"
  proof -
    have "Suc i < 255" using k(2) i by simp
    then show ?thesis using t [of "Suc i"] by (simp only: sq i)
  qed
  also have "\<dots> = (if even i then ps ! (i div 2) else 8380417 - ps ! (i div 2))"
    by (simp only: nth_Cons_Suc nth_concat_pairs [OF kd(3)])
  also have "\<dots> = (if even k then zetaNs ! (k div 2) else 8380417 - zetaNs ! (k div 2))"
    by (simp only: ps [OF kd(4)] kd(1,2))
  finally have eq: "z k * z k = of_nat (if even k then zetaNs ! (k div 2) else 8380417 - zetaNs ! (k div 2))"
    unfolding z_zetaNs [OF k(2)] by (rule Zq_square)
  have h: "k div 2 < 256" using k by simp
  show "z k * z k = (if even k then z (k div 2) else - z (k div 2))"
    unfolding eq z_zetaNs [OF h] using of_nat_neg [OF zetaNs_le [OF h]] by (cases "even k") simp_all
qed

lemma z_pairs:
  assumes "len \<in> set lens" "b < 128 div len"
  shows "z (128 div len + b) * z (2 * (128 div len) - 1 - b) = -1"
proof -
  define B where "B = 128 div len"
  have B: "B \<in> set [1, 2, 4, 8, 16, 32, 64, 128]" "b < B" "2 * B \<le> 256" using assms by (auto simp: lens_def B_def)
  let ?w = "take B (drop B zetaNs)"
  have "list_all (\<lambda>(x, y). x * y mod 8380417 = 8380416) (zip ?w (rev ?w))"
    using zeta_pairs B(1) unfolding list_all_iff Let_def by blast
  moreover have "length ?w = B" using B(3) by simp
  ultimately have "?w ! b * rev ?w ! b mod 8380417 = 8380416"
    using B(2) by (auto simp: list_all_length)
  moreover have "rev ?w ! b = ?w ! (B - Suc b)" using B(2,3) by (simp add: rev_nth)
  moreover have "?w ! b = zetaNs ! (B + b)" "?w ! (B - Suc b) = zetaNs ! (B + (B - Suc b))" using B(2,3) by simp_all
  moreover have "B + (B - Suc b) = 2 * B - 1 - b" using B(2) by simp
  ultimately have "zetaNs ! (B + b) * zetaNs ! (2 * B - 1 - b) mod 8380417 = 8380416" by simp
  moreover have "B + b < 256" "2 * B - 1 - b < 256" using B(2,3) by simp_all
  ultimately show ?thesis unfolding B_def [symmetric] by (simp only: z_zetaNs Zq_square minus_one_Zq)
qed

section \<open>The inverse transform inverts\<close>

lemma bwd_fwd:
  assumes "len \<in> set lens" "x < 256" shows "bwd len (fwd len V) x = 2 * V x"
proof -
  note b = block_index [OF assms]
  let ?c = "z (128 div len + x div (2 * len))" and ?d = "z (2 * (128 div len) - 1 - x div (2 * len))"
  have cd: "?c * ?d = -1" by (rule z_pairs [OF assms(1) b(1)])
  show ?thesis
  proof (cases "x mod (2 * len) < len")
    case True
    then show ?thesis using b(2) by (simp add: bwd_def fwd_def Let_def)
  next
    case False
    have "bwd len (fwd len V) x = ?d * ((V (x - len) - ?c * V x) - (V (x - len) + ?c * V x))"
      using False b(3) lens_props(1) [OF assms(1)] by (simp add: bwd_def fwd_def Let_def)
    also have "\<dots> = - 2 * (?c * ?d) * V x" by (simp add: algebra_simps)
    also have "\<dots> = 2 * V x" unfolding cd by simp
    finally show ?thesis .
  qed
qed

lemma fwd_bwd:
  assumes "len \<in> set lens" "x < 256" shows "fwd len (bwd len V) x = 2 * V x"
proof -
  note b = block_index [OF assms]
  let ?c = "z (128 div len + x div (2 * len))" and ?d = "z (2 * (128 div len) - 1 - x div (2 * len))"
  have cd: "?c * ?d = -1" by (rule z_pairs [OF assms(1) b(1)])
  show ?thesis
  proof (cases "x mod (2 * len) < len")
    case True
    have "fwd len (bwd len V) x = V x + V (x + len) + (?c * ?d) * (V (x + len) - V x)"
      using True b(2) by (simp add: bwd_def fwd_def Let_def mult.assoc)
    then show ?thesis unfolding cd by simp
  next
    case False
    have "fwd len (bwd len V) x = V (x - len) + V x - (?c * ?d) * (V x - V (x - len))"
      using False b(3) lens_props(1) [OF assms(1)] by (simp add: bwd_def fwd_def Let_def mult.assoc)
    then show ?thesis unfolding cd by simp
  qed
qed

lemma bwd_scale: "bwd len (\<lambda>x. c * V x) x = c * bwd len V x"
  by (simp add: bwd_def Let_def algebra_simps)

lemma fwd_scale: "fwd len (\<lambda>x. c * V x) x = c * fwd len V x"
  by (simp add: fwd_def Let_def algebra_simps)

lemma bwds_fwds:
  "set ls \<subseteq> set lens \<Longrightarrow> x < 256 \<Longrightarrow> bwds (rev ls) (fwds ls V) x = 2 ^ length ls * V x"
proof (induction ls arbitrary: V x)
  case (Cons l ls)
  have l: "l \<in> set lens" using Cons.prems by simp
  have "bwds (rev (l # ls)) (fwds (l # ls) V) x = bwd l (bwds (rev ls) (fwds ls (fwd l V))) x"
    by (simp add: bwds_def fwds_def)
  also have "\<dots> = bwd l (\<lambda>x. 2 ^ length ls * fwd l V x) x"
    by (rule bwd_cong [OF _ l Cons.prems(2)]) (use Cons in simp)
  also have "\<dots> = 2 ^ length ls * (2 * V x)" by (simp only: bwd_scale bwd_fwd [OF l Cons.prems(2)])
  finally show ?case by simp
qed (simp add: bwds_def fwds_def)

lemma fwds_bwds:
  "set ls \<subseteq> set lens \<Longrightarrow> x < 256 \<Longrightarrow> fwds (rev ls) (bwds ls V) x = 2 ^ length ls * V x"
proof (induction ls arbitrary: V x)
  case (Cons l ls)
  have l: "l \<in> set lens" using Cons.prems by simp
  have "fwds (rev (l # ls)) (bwds (l # ls) V) x = fwd l (fwds (rev ls) (bwds ls (bwd l V))) x"
    by (simp add: bwds_def fwds_def)
  also have "\<dots> = fwd l (\<lambda>x. 2 ^ length ls * bwd l V x) x"
    by (rule fwd_cong [OF _ l Cons.prems(2)]) (use Cons in simp)
  also have "\<dots> = 2 ^ length ls * (2 * V x)" by (simp only: fwd_scale fwd_bwd [OF l Cons.prems(2)])
  finally show ?case by simp
qed (simp add: bwds_def fwds_def)

lemma fwds_scale:
  "set ls \<subseteq> set lens \<Longrightarrow> x < 256 \<Longrightarrow> fwds ls (\<lambda>x. c * V x) x = c * fwds ls V x"
proof (induction ls arbitrary: V x)
  case (Cons l ls)
  then show ?case by (simp add: fwds_def fwd_scale [abs_def])
qed (simp add: fwds_def)

lemma val_16382: "2 ^ 8 * val 16382 = 1"
proof -
  have "(2 ^ 8 * val 16382 :: Zq) = of_nat (2 ^ 8 * (16382 * 8265825))"
    unfolding val_def rinv_def by simp
  also have "\<dots> = of_nat 1" unfolding of_nat_Zq_eq by simp
  finally show ?thesis by simp
qed

lemma poly_eqI:
  assumes "wf_poly f" "wf_poly g" "\<And>x. x < 256 \<Longrightarrow> coeff f x = coeff g x" shows "f = g"
  using assms by (intro nth_equalityI) (auto simp: wf_poly_def coeff_def list_all_length val_inject)

lemma inverseNTT_ntt:
  assumes "wf_poly f" shows "inverseNTT (ntt f) = f"
proof (rule poly_eqI)
  note n = ntt_coeff [OF assms]
  show "wf_poly (inverseNTT (ntt f))" by (rule inverseNTT_coeff [OF n(1)])
  fix x :: nat assume x: "x < 256"
  have "coeff (inverseNTT (ntt f)) x = bwds (rev lens) (coeff (ntt f)) x * val 16382"
    by (rule inverseNTT_coeff(2) [OF n(1) x])
  also have "bwds (rev lens) (coeff (ntt f)) x = bwds (rev lens) (fwds lens (coeff f)) x"
    using n(2) by (intro bwds_cong) (auto simp: x)
  also have "\<dots> = 2 ^ 8 * coeff f x" using bwds_fwds [OF order_refl x] by (simp add: lens_def)
  finally have "coeff (inverseNTT (ntt f)) x = val 16382 * (2 ^ 8 * coeff f x)" by (simp only: mult.commute)
  then show "coeff (inverseNTT (ntt f)) x = coeff f x" using val_16382
    by (simp only: mult.assoc [symmetric] mult.commute [of "val 16382"] mult_1_left)
qed fact

lemma ntt_inverseNTT:
  assumes "wf_poly f" shows "ntt (inverseNTT f) = f"
proof (rule poly_eqI)
  note n = inverseNTT_coeff [OF assms]
  show "wf_poly (ntt (inverseNTT f))" by (rule ntt_coeff [OF n(1)])
  fix x :: nat assume x: "x < 256"
  have "coeff (ntt (inverseNTT f)) x = fwds lens (coeff (inverseNTT f)) x"
    by (rule ntt_coeff(2) [OF n(1) x])
  also have "\<dots> = fwds lens (\<lambda>x. val 16382 * bwds (rev lens) (coeff f) x) x"
    using n(2) by (intro fwds_cong) (auto simp: x mult.commute)
  also have "\<dots> = val 16382 * fwds lens (bwds (rev lens) (coeff f)) x"
    by (rule fwds_scale [OF order_refl x])
  also have "fwds lens (bwds (rev lens) (coeff f)) x = 2 ^ 8 * coeff f x"
    using fwds_bwds [of "rev lens" x "coeff f"] x by (simp add: lens_def)
  finally show "coeff (ntt (inverseNTT f)) x = coeff f x" using val_16382
    by (simp only: mult.assoc [symmetric] mult.commute [of "val 16382"] mult_1_left)
qed fact

end
