(* ===== verification/MLDSA_Ring.thy ===== *)
theory MLDSA_Ring
  imports MLDSA_NTT
begin

text \<open>
  What the transform of \<open>field.go\<close> is for: it evaluates a polynomial at the 256 roots of
  \<open>X\<^sup>2\<^sup>5\<^sup>6 + 1\<close>, it is linear, and multiplying pointwise between the two transforms is
  multiplication in \<open>Z\<^sub>q[X] / (X\<^sup>2\<^sup>5\<^sup>6 + 1)\<close>.
\<close>

section \<open>Coefficients of sums and products\<close>

lemma poly_pointwise:
  assumes "wf_poly a" "wf_poly b" "\<And>u v. reduced u \<Longrightarrow> reduced v \<Longrightarrow> reduced (op u v)"
  shows "wf_poly (map2 op a b)"
  using assms by (auto simp: wf_poly_def list_all_length)

lemma polyAdd:
  assumes "wf_poly a" "wf_poly b"
  shows "wf_poly (polyAdd a b)" "x < 256 \<Longrightarrow> coeff (polyAdd a b) x = coeff a x + coeff b x"
  using assms fieldAdd unfolding polyAdd_def
  by (auto intro!: poly_pointwise simp: wf_nth wf_poly_def coeff_def list_all_length)

lemma polySub:
  assumes "wf_poly a" "wf_poly b"
  shows "wf_poly (polySub a b)" "x < 256 \<Longrightarrow> coeff (polySub a b) x = coeff a x - coeff b x"
  using assms fieldSub unfolding polySub_def
  by (auto intro!: poly_pointwise simp: wf_nth wf_poly_def coeff_def list_all_length)

lemma nttMul:
  assumes "wf_poly a" "wf_poly b"
  shows "wf_poly (nttMul a b)" "x < 256 \<Longrightarrow> coeff (nttMul a b) x = coeff a x * coeff b x"
  using assms montgomeryMul_any unfolding nttMul_def
  by (auto intro!: poly_pointwise simp: wf_nth wf_poly_def coeff_def list_all_length)

section \<open>Linearity\<close>

lemma fwd_linear:
  "fwd len (\<lambda>x. V x + W x) x = fwd len V x + fwd len W x"
  "fwd len (\<lambda>x. V x - W x) x = fwd len V x - fwd len W x"
  by (simp_all add: fwd_def Let_def algebra_simps)

lemma bwd_linear:
  "bwd len (\<lambda>x. V x + W x) x = bwd len V x + bwd len W x"
  "bwd len (\<lambda>x. V x - W x) x = bwd len V x - bwd len W x"
  by (simp_all add: bwd_def Let_def algebra_simps)

lemma fwds_linear:
  "fwds ls (\<lambda>x. V x + W x) = (\<lambda>x. fwds ls V x + fwds ls W x)"
  "fwds ls (\<lambda>x. V x - W x) = (\<lambda>x. fwds ls V x - fwds ls W x)"
  by (induction ls arbitrary: V W) (simp_all add: fwds_def fwd_linear [abs_def])

lemma bwds_linear:
  "bwds ls (\<lambda>x. V x + W x) = (\<lambda>x. bwds ls V x + bwds ls W x)"
  "bwds ls (\<lambda>x. V x - W x) = (\<lambda>x. bwds ls V x - bwds ls W x)"
  by (induction ls arbitrary: V W) (simp_all add: bwds_def bwd_linear [abs_def])

lemma ntt_linear:
  assumes "wf_poly a" "wf_poly b"
  shows "ntt (polyAdd a b) = polyAdd (ntt a) (ntt b)" "ntt (polySub a b) = polySub (ntt a) (ntt b)"
proof -
  note wf = ntt_coeff(1) [OF assms(1)] ntt_coeff(1) [OF assms(2)] polyAdd(1) [OF assms] polySub(1) [OF assms]
  show "ntt (polyAdd a b) = polyAdd (ntt a) (ntt b)"
  proof (rule poly_eqI)
    fix x :: nat assume x: "x < 256"
    have "coeff (ntt (polyAdd a b)) x = fwds lens (\<lambda>x. coeff a x + coeff b x) x"
      unfolding ntt_coeff(2) [OF wf(3) x] by (rule fwds_cong) (simp_all add: polyAdd [OF assms] x)
    then show "coeff (ntt (polyAdd a b)) x = coeff (polyAdd (ntt a) (ntt b)) x"
      by (simp only: fwds_linear polyAdd(2) [OF wf(1,2) x] ntt_coeff(2) [OF assms(1) x] ntt_coeff(2) [OF assms(2) x])
  qed (intro ntt_coeff polyAdd assms)+
  show "ntt (polySub a b) = polySub (ntt a) (ntt b)"
  proof (rule poly_eqI)
    fix x :: nat assume x: "x < 256"
    have "coeff (ntt (polySub a b)) x = fwds lens (\<lambda>x. coeff a x - coeff b x) x"
      unfolding ntt_coeff(2) [OF wf(4) x] by (rule fwds_cong) (simp_all add: polySub [OF assms] x)
    then show "coeff (ntt (polySub a b)) x = coeff (polySub (ntt a) (ntt b)) x"
      by (simp only: fwds_linear polySub(2) [OF wf(1,2) x] ntt_coeff(2) [OF assms(1) x] ntt_coeff(2) [OF assms(2) x])
  qed (intro ntt_coeff polySub assms)+
qed

lemma inverseNTT_linear:
  assumes "wf_poly a" "wf_poly b"
  shows "inverseNTT (polyAdd a b) = polyAdd (inverseNTT a) (inverseNTT b)"
    "inverseNTT (polySub a b) = polySub (inverseNTT a) (inverseNTT b)"
proof -
  note wf = inverseNTT_coeff(1) [OF assms(1)] inverseNTT_coeff(1) [OF assms(2)]
  have "inverseNTT (polyAdd a b) = inverseNTT (ntt (polyAdd (inverseNTT a) (inverseNTT b)))"
    by (simp add: ntt_linear [OF wf] ntt_inverseNTT assms)
  then show "inverseNTT (polyAdd a b) = polyAdd (inverseNTT a) (inverseNTT b)"
    by (simp add: inverseNTT_ntt polyAdd [OF wf])
  have "inverseNTT (polySub a b) = inverseNTT (ntt (polySub (inverseNTT a) (inverseNTT b)))"
    by (simp add: ntt_linear [OF wf] ntt_inverseNTT assms)
  then show "inverseNTT (polySub a b) = polySub (inverseNTT a) (inverseNTT b)"
    by (simp add: inverseNTT_ntt polySub [OF wf])
qed

section \<open>Evaluation at the roots\<close>

definition signedRoot :: "nat \<Rightarrow> nat \<Rightarrow> Zq" where
  "signedRoot len b = (if even b then z (128 div len + b div 2) else - z (128 div len + b div 2))"

lemma signedRoot_square:
  assumes "len \<in> set lens" "b < 256 div len"
  shows "signedRoot len b * signedRoot len b = (if len = 128 then -1 else signedRoot (2 * len) (b div 2))"
proof (cases "len = 128")
  case True
  then have "128 div len + b div 2 = 1" using assms(2) by simp
  then show ?thesis using True z_squares(1) by (simp add: signedRoot_def)
next
  case False
  define B where "B = 128 div (2 * len)"
  have B: "128 div len = 2 * B" "0 < B" "256 div len = 4 * B" "B \<le> 64"
    using assms(1) False by (auto simp: lens_def B_def)
  let ?k = "2 * B + b div 2"
  have k: "2 \<le> ?k" "?k < 256" "even ?k = even (b div 2)" "?k div 2 = B + b div 2 div 2"
    using B assms(2) by (linarith, linarith, simp_all)
  have "signedRoot len b * signedRoot len b = z ?k * z ?k" by (simp add: signedRoot_def B)
  also have "\<dots> = (if even (b div 2) then z (B + b div 2 div 2) else - z (B + b div 2 div 2))"
    unfolding z_squares(2) [OF k(1,2)] k(3,4) ..
  finally show ?thesis using False by (simp add: signedRoot_def B_def)
qed

definition root :: "nat \<Rightarrow> Zq" where "root = signedRoot 1"

lemma root_power:
  assumes "x < 256" "len \<in> set lens"
  shows "root x ^ len = signedRoot len (x div len)"
proof -
  have step: "root x ^ (2 * len) = signedRoot (2 * len) (x div (2 * len))"
    if "len \<in> set lens" "len \<noteq> 128" "root x ^ len = signedRoot len (x div len)" for len
  proof -
    have "x div len < 256 div len" using assms(1) that(1) by (auto simp: lens_def)
    then show ?thesis
      using signedRoot_square [OF that(1), of "x div len"] that(2,3)
      by (simp add: power_mult mult.commute [of 2] power2_eq_square div_mult2_eq power_mult [symmetric])
  qed
  have p1: "root x ^ 1 = signedRoot 1 (x div 1)" by (simp add: root_def)
  have p2: "root x ^ 2 = signedRoot 2 (x div 2)" using step [OF _ _ p1] by (simp add: lens_def)
  have p4: "root x ^ 4 = signedRoot 4 (x div 4)" using step [OF _ _ p2] by (simp add: lens_def)
  have p8: "root x ^ 8 = signedRoot 8 (x div 8)" using step [OF _ _ p4] by (simp add: lens_def)
  have p16: "root x ^ 16 = signedRoot 16 (x div 16)" using step [OF _ _ p8] by (simp add: lens_def)
  have p32: "root x ^ 32 = signedRoot 32 (x div 32)" using step [OF _ _ p16] by (simp add: lens_def)
  have p64: "root x ^ 64 = signedRoot 64 (x div 64)" using step [OF _ _ p32] by (simp add: lens_def)
  have p128: "root x ^ 128 = signedRoot 128 (x div 128)" using step [OF _ _ p64] by (simp add: lens_def)
  have "len = 1 \<or> len = 2 \<or> len = 4 \<or> len = 8 \<or> len = 16 \<or> len = 32 \<or> len = 64 \<or> len = 128"
    using assms(2) by (auto simp: lens_def)
  then show ?thesis using p1 p2 p4 p8 p16 p32 p64 p128 by (elim disjE) (simp_all only:)
qed

lemma root_256: "x < 256 \<Longrightarrow> root x ^ 256 = -1"
proof -
  assume x: "x < 256"
  have "root x ^ 256 = root x ^ 128 * root x ^ 128" by (simp flip: power_add)
  also have "\<dots> = signedRoot 128 (x div 128) * signedRoot 128 (x div 128)"
    by (simp only: root_power [OF x, of 128] lens_def list.set insert_iff simp_thms)
  also have "\<dots> = -1" using signedRoot_square [of 128 "x div 128"] x by (simp add: lens_def)
  finally show ?thesis .
qed

text \<open>The polynomial that a block of coefficients stands for, at a point.\<close>

definition blockEval :: "nat \<Rightarrow> (nat \<Rightarrow> Zq) \<Rightarrow> nat \<Rightarrow> Zq \<Rightarrow> Zq" where
  "blockEval s V b y = (\<Sum>j < s. V (s * b + j) * y ^ j)"

lemma sum_halves: "(\<Sum>j < 2 * n. f j) = (\<Sum>j < n. f j) + (\<Sum>j < n. f (n + j))" for f :: "nat \<Rightarrow> Zq"
proof -
  have "(\<Sum>j < 2 * n. f j) = (\<Sum>j < n. f j) + (\<Sum>j = n ..< n + n. f j)"
    by (simp add: lessThan_atLeast0 sum.atLeastLessThan_concat mult_2)
  also have "(\<Sum>j = n ..< n + n. f j) = (\<Sum>j < n. f (n + j))"
    using sum.shift_bounds_nat_ivl [of f 0 n n] by (simp add: lessThan_atLeast0 add.commute)
  finally show ?thesis .
qed

lemma blockEval_split:
  "blockEval (2 * len) V b y = (\<Sum>j < len. (V (2 * len * b + j) + y ^ len * V (2 * len * b + len + j)) * y ^ j)"
  unfolding blockEval_def sum_halves sum.distrib [symmetric]
  by (rule sum.cong) (simp_all add: power_add algebra_simps)

lemma blockEval_step:
  assumes "len \<in> set lens" "x < 256" "y ^ len = signedRoot len (x div len)"
  shows "blockEval (2 * len) V (x div (2 * len)) y = blockEval len (fwd len V) (x div len) y"
proof -
  define b where "b = x div (2 * len)"
  let ?c = "z (128 div len + b)"
  have l: "0 < len" using lens_props(1) [OF assms(1)] .
  have half: "x div len div 2 = b" by (simp add: b_def div_mult2_eq mult.commute)
  have y: "y ^ len = (if even (x div len) then ?c else - ?c)"
    unfolding assms(3) signedRoot_def half ..
  have pt: "V (2 * len * b + j) + y ^ len * V (2 * len * b + len + j) = fwd len V (len * (x div len) + j)"
    if j: "j < len" for j
  proof (cases "even (x div len)")
    case True
    then have i: "len * (x div len) = 2 * len * b" using half by (metis dvd_div_mult_self mult.commute mult.left_commute)
    have dm: "(2 * len * b + j) div (2 * len) = b" "(2 * len * b + j) mod (2 * len) = j"
      using j l by simp_all
    have "fwd len V (len * (x div len) + j) = V (2 * len * b + j) + ?c * V (2 * len * b + j + len)"
      unfolding i fwd_def dm using j by (simp add: Let_def)
    then show ?thesis using True y by (simp add: ac_simps)
  next
    case False
    then have "x div len = 2 * b + 1" using half by (metis odd_two_times_div_two_succ)
    then have i: "len * (x div len) = 2 * len * b + len" by (simp add: algebra_simps)
    have dm: "(2 * len * b + len + j) div (2 * len) = b" "(2 * len * b + len + j) mod (2 * len) = len + j"
      using j l by (simp_all add: add.assoc)
    have "fwd len V (len * (x div len) + j) = V (2 * len * b + len + j - len) - ?c * V (2 * len * b + len + j)"
      unfolding i fwd_def dm by (simp add: Let_def)
    then show ?thesis using False y by simp
  qed
  show ?thesis
    unfolding b_def [symmetric] blockEval_split blockEval_def [of len] using pt by simp
qed

lemma eval_fwds:
  assumes x: "x < 256" shows "blockEval 256 V 0 (root x) = fwds lens V x"
proof -
  have s: "blockEval (2 * len) W (x div (2 * len)) (root x) = blockEval len (fwd len W) (x div len) (root x)"
    if "len \<in> set lens" for len W
    by (rule blockEval_step [OF that x root_power [OF x that]])
  have "blockEval 256 V 0 (root x) = blockEval 1 (fwds lens V) (x div 1) (root x)"
    using s [of 128 V] s [of 64 "fwd 128 V"] s [of 32 "fwd 64 (fwd 128 V)"]
      s [of 16 "fwd 32 (fwd 64 (fwd 128 V))"] s [of 8 "fwd 16 (fwd 32 (fwd 64 (fwd 128 V)))"]
      s [of 4 "fwd 8 (fwd 16 (fwd 32 (fwd 64 (fwd 128 V))))"]
      s [of 2 "fwd 4 (fwd 8 (fwd 16 (fwd 32 (fwd 64 (fwd 128 V)))))"]
      s [of 1 "fwd 2 (fwd 4 (fwd 8 (fwd 16 (fwd 32 (fwd 64 (fwd 128 V))))))"] x
    by (simp add: lens_def fwds_def)
  then show ?thesis by (simp add: blockEval_def)
qed

text \<open>The value of a polynomial with 256 coefficients.\<close>

definition evalPoly :: "(nat \<Rightarrow> Zq) \<Rightarrow> Zq \<Rightarrow> Zq" where
  "evalPoly V y = (\<Sum>j < 256. V j * y ^ j)"

lemma ntt_evaluates:
  "wf_poly f \<Longrightarrow> x < 256 \<Longrightarrow> coeff (ntt f) x = evalPoly (coeff f) (root x)"
  using eval_fwds [of x "coeff f"] by (simp add: ntt_coeff blockEval_def evalPoly_def)

section \<open>Multiplication\<close>

text \<open>The product modulo \<open>X\<^sup>2\<^sup>5\<^sup>6 + 1\<close>.\<close>

definition conv :: "(nat \<Rightarrow> 'a :: comm_ring_1) \<Rightarrow> (nat \<Rightarrow> 'a) \<Rightarrow> nat \<Rightarrow> 'a" where
  "conv V W k = (\<Sum>i < 256. V i * (if i \<le> k then W (k - i) else - W (256 + k - i)))"

lemma shifted_eval:
  assumes "y ^ 256 = -1" "i < 256"
  shows "(\<Sum>k < 256. (if i \<le> k then W (k - i) else - W (256 + k - i)) * y ^ k) = y ^ i * evalPoly W y"
proof -
  let ?t = "\<lambda>k. (if i \<le> k then W (k - i) else - W (256 + k - i)) * y ^ k"
  have "(\<Sum>k < 256. ?t k) = (\<Sum>k < i. ?t k) + (\<Sum>k = i ..< 256. ?t k)"
    unfolding lessThan_atLeast0 by (rule sum.atLeastLessThan_concat [symmetric]) (use assms(2) in simp_all)
  also have "(\<Sum>k = i ..< 256. ?t k) = (\<Sum>j < 256 - i. W j * y ^ (i + j))"
    by (rule sum.reindex_bij_witness [of _ "\<lambda>j. i + j" "\<lambda>k. k - i"]) auto
  also have "(\<Sum>k < i. ?t k) = (\<Sum>j = 256 - i ..< 256. W j * y ^ (i + j))"
  proof (rule sum.reindex_bij_witness [of _ "\<lambda>j. j + i - 256" "\<lambda>k. 256 + k - i"])
    fix k assume k: "k \<in> {..<i}"
    then have "i + (256 + k - i) = 256 + k" using assms(2) by simp
    then show "W (256 + k - i) * y ^ (i + (256 + k - i)) = ?t k"
      using k assms(1) by (simp add: power_add)
  qed (use assms(2) in auto)
  also have "(\<Sum>j = 256 - i ..< 256. W j * y ^ (i + j)) + (\<Sum>j < 256 - i. W j * y ^ (i + j))
      = (\<Sum>j < 256. W j * y ^ (i + j))"
    by (simp add: lessThan_atLeast0 add.commute sum.atLeastLessThan_concat)
  also have "\<dots> = y ^ i * evalPoly W y"
    by (simp add: evalPoly_def sum_distrib_left power_add ac_simps)
  finally show ?thesis .
qed

lemma eval_conv:
  assumes "y ^ 256 = -1" shows "evalPoly (conv V W) y = evalPoly V y * evalPoly W y"
proof -
  have "evalPoly (conv V W) y =
      (\<Sum>k < 256. \<Sum>i < 256. V i * ((if i \<le> k then W (k - i) else - W (256 + k - i)) * y ^ k))"
    by (simp only: evalPoly_def conv_def sum_distrib_right mult.assoc)
  also have "\<dots> = (\<Sum>i < 256. V i * (\<Sum>k < 256. (if i \<le> k then W (k - i) else - W (256 + k - i)) * y ^ k))"
    unfolding sum_distrib_left by (rule sum.swap)
  also have "\<dots> = (\<Sum>i < 256. V i * (y ^ i * evalPoly W y))"
    by (rule sum.cong [OF refl]) (simp only: shifted_eval [OF assms] lessThan_iff)
  also have "\<dots> = evalPoly V y * evalPoly W y"
    by (simp only: evalPoly_def [of V] sum_distrib_right mult.assoc)
  finally show ?thesis .
qed

text \<open>Every coefficient vector is that of a ring element.\<close>

definition encodeZq :: "Zq \<Rightarrow> fieldElement" where
  "encodeZq x = the (fieldToMontgomery (of_int (Rep_bit1 x)))"

lemma encodeZq: "reduced (encodeZq x)" "val (encodeZq x) = x"
proof -
  obtain k where k: "x = of_nat k" "k < 8380417" by (rule Zq_cases)
  have u: "unat (of_int (Rep_bit1 x) :: uint32) = k"
    using k by (simp add: Rep_of_nat unsigned_of_nat take_bit_nat_eq_self)
  have lt: "unat (of_int (Rep_bit1 x) :: uint32) < 8380417" unfolding u by (rule k(2))
  obtain e where e: "fieldToMontgomery (of_int (Rep_bit1 x)) = Some e" "reduced e"
    "val e = of_nat (unat (of_int (Rep_bit1 x) :: uint32))"
    using lt by (rule toMontgomery)
  have eq: "encodeZq x = e" using e(1) by (simp add: encodeZq_def)
  show "reduced (encodeZq x)" unfolding eq by (rule e(2))
  show "val (encodeZq x) = x" unfolding eq e(3) u by (rule k(1) [symmetric])
qed

definition polyOf :: "(nat \<Rightarrow> Zq) \<Rightarrow> fieldElement list" where
  "polyOf V = map (\<lambda>x. encodeZq (V x)) [0..<256]"

lemma polyOf: "wf_poly (polyOf V)" "x < 256 \<Longrightarrow> coeff (polyOf V) x = V x"
  by (simp_all add: polyOf_def wf_poly_def list_all_length encodeZq coeff_def)

lemma nttMul_conv:
  assumes "wf_poly f" "wf_poly g"
  shows "nttMul (ntt f) (ntt g) = ntt (polyOf (conv (coeff f) (coeff g)))"
proof (rule poly_eqI)
  note wf = ntt_coeff(1) [OF assms(1)] ntt_coeff(1) [OF assms(2)]
  show "wf_poly (nttMul (ntt f) (ntt g))" by (rule nttMul [OF wf])
  show "wf_poly (ntt (polyOf (conv (coeff f) (coeff g))))" by (intro ntt_coeff polyOf)
  fix x :: nat assume x: "x < 256"
  have "coeff (ntt (polyOf (conv (coeff f) (coeff g)))) x = evalPoly (conv (coeff f) (coeff g)) (root x)"
    unfolding ntt_evaluates [OF polyOf(1) x] evalPoly_def by (simp add: polyOf)
  then show "coeff (nttMul (ntt f) (ntt g)) x = coeff (ntt (polyOf (conv (coeff f) (coeff g)))) x"
    by (simp only: nttMul(2) [OF wf x] ntt_evaluates [OF assms(1) x] ntt_evaluates [OF assms(2) x]
        eval_conv [OF root_256 [OF x]])
qed

lemma product_coeff:
  assumes "wf_poly f" "wf_poly g" "k < 256"
  shows "coeff (inverseNTT (nttMul (ntt f) (ntt g))) k = conv (coeff f) (coeff g) k"
  unfolding nttMul_conv [OF assms(1,2)] inverseNTT_ntt [OF polyOf(1)] by (rule polyOf(2) [OF assms(3)])

text \<open>
  C19. The transforms are inverse to each other: for every ring element with reduced coefficients
  the results are reduced, \<open>inverseNTT\<close> undoes \<open>ntt\<close> and \<open>ntt\<close> undoes \<open>inverseNTT\<close>, through all
  eight layers of in-place butterflies.
\<close>

theorem ntt_roundtrip:
  assumes "wf_poly f"
  shows "wf_poly (ntt f) \<and> wf_poly (inverseNTT f) \<and> inverseNTT (ntt f) = f \<and> ntt (inverseNTT f) = f"
  by (intro conjI ntt_coeff inverseNTT_coeff inverseNTT_ntt ntt_inverseNTT assms)

theorem ntt_roundtrip_witness:
  "inverseNTT (ntt (replicate 255 8380416 @ [1])) = replicate 255 8380416 @ [1]"
proof -
  have "wf_poly (replicate 255 8380416 @ [1])" by (simp add: wf_poly_def reduced_def list_all_iff)
  then show ?thesis using ntt_roundtrip by blast
qed

text \<open>
  C20. Multiplying in the transformed domain multiplies polynomials: transforming two ring
  elements, multiplying pointwise and transforming back gives the coefficients of their product
  modulo \<open>X\<^sup>2\<^sup>5\<^sup>6 + 1\<close> over \<open>Z\<^sub>q\<close>, which \<open>conv\<close> defines by the schoolbook sums.
\<close>

theorem ntt_multiplies:
  assumes "wf_poly f" and "wf_poly g" and "k < 256"
  shows "coeff (inverseNTT (nttMul (ntt f) (ntt g))) k = conv (coeff f) (coeff g) k"
  by (rule product_coeff [OF assms])

theorem ntt_multiplies_witness:
  "coeff (inverseNTT (nttMul (ntt (replicate 256 1)) (ntt (replicate 256 25847)))) 0
     = conv (coeff (replicate 256 1)) (coeff (replicate 256 25847)) 0"
proof -
  have "wf_poly (replicate 256 1)" "wf_poly (replicate 256 25847)"
    by (simp_all add: wf_poly_def reduced_def list_all_iff)
  then show ?thesis using ntt_multiplies by simp
qed

end
