(* ===== verification/MLDSA_Rounding.thy ===== *)
theory MLDSA_Rounding
  imports MLDSA_Field
begin

text \<open>
  Rounding and hints of \<open>internal/mldsa/field.go\<close>: \<open>power2Round\<close>, the constant-time
  \<open>highBits\<close>, \<open>decompose\<close>, \<open>makeHint\<close> and \<open>useHint\<close> for both values of \<open>\<gamma>\<^sub>2\<close>, against the
  definitions of FIPS 204.
\<close>

section \<open>Definitions\<close>

definition power2Round :: "fieldElement \<Rightarrow> uint16 \<times> fieldElement" where
  "power2Round r =
     (let rr = fieldFromMontgomery r; r1 = drop_bit 13 (rr + 4096 - 1);
          r0 = fieldSubToMontgomery rr (push_bit 13 r1) in (ucast r1, r0))"

definition highBits32 :: "uint32 \<Rightarrow> byte" where
  "highBits32 x =
     (let r1 = drop_bit 7 (x + 127); r1 = drop_bit 22 (r1 * 1025 + 2097152) in ucast (r1 AND 15))"

definition highBits88 :: "uint32 \<Rightarrow> byte" where
  "highBits88 x =
     (let r1 = drop_bit 7 (x + 127); r1 = drop_bit 24 (r1 * 11275 + 8388608)
      in ucast (constantTimeSelectEqual r1 44 0 r1))"

definition decompose32 :: "fieldElement \<Rightarrow> byte \<times> int" where
  "decompose32 r =
     (let x = fieldFromMontgomery r; r1 = highBits32 x;
          r0 = int32 x - int (unat r1) * 2 * (q - 1) div 32
      in (r1, constantTimeSelectLessOrEqual (q div 2 + 1) r0 (r0 - q) r0))"

definition decompose88 :: "fieldElement \<Rightarrow> byte \<times> int" where
  "decompose88 r =
     (let x = fieldFromMontgomery r; r1 = highBits88 x;
          r0 = int32 x - int (unat r1) * 2 * (q - 1) div 88
      in (r1, constantTimeSelectLessOrEqual (q div 2 + 1) r0 (r0 - q) r0))"

definition useHint32 :: "fieldElement \<Rightarrow> byte \<Rightarrow> byte" where
  "useHint32 r hint =
     (case decompose32 r of (r1, r0) \<Rightarrow>
        if hint = 1 then (if r0 > 0 then (r1 + 1) mod 16 else (r1 - 1) mod 16) else r1)"

definition useHint88 :: "fieldElement \<Rightarrow> byte \<Rightarrow> byte" where
  "useHint88 r hint =
     (case decompose88 r of (r1, r0) \<Rightarrow>
        if hint = 1 then
          (if r0 > 0 then (if r1 = 44 - 1 then 0 else r1 + 1) else (if r1 = 0 then 44 - 1 else r1 - 1))
        else r1)"

definition makeHint32 :: "fieldElement \<Rightarrow> fieldElement \<Rightarrow> fieldElement \<Rightarrow> byte" where
  "makeHint32 ct0 w cs2 =
     (let rPlusZ = fieldSub w cs2; v1 = highBits32 (fieldFromMontgomery rPlusZ);
          r1 = highBits32 (fieldFromMontgomery (fieldAdd rPlusZ ct0))
      in (if v1 = r1 then 1 else 0) XOR 1)"

definition makeHint88 :: "fieldElement \<Rightarrow> fieldElement \<Rightarrow> fieldElement \<Rightarrow> byte" where
  "makeHint88 ct0 w cs2 =
     (let rPlusZ = fieldSub w cs2; v1 = highBits88 (fieldFromMontgomery rPlusZ);
          r1 = highBits88 (fieldFromMontgomery (fieldAdd rPlusZ ct0))
      in (if v1 = r1 then 1 else 0) XOR 1)"

section \<open>FIPS 204 Decompose\<close>

definition cmod :: "int \<Rightarrow> int \<Rightarrow> int" where
  "cmod x m = (let r = x mod m in if r \<le> m div 2 then r else r - m)"

text \<open>Algorithm 36 of the standard, for \<open>\<alpha> = 2 \<gamma>\<^sub>2\<close> and \<open>0 \<le> r < q\<close>.\<close>

definition decomposeSpec :: "int \<Rightarrow> int \<Rightarrow> int \<times> int" where
  "decomposeSpec alpha r =
     (let r0 = cmod r alpha in
      if r - r0 = 8380416 then (0, r0 - 1) else ((r - r0) div alpha, r0))"

definition highSpec :: "int \<Rightarrow> int \<Rightarrow> int" where
  "highSpec alpha r = fst (decomposeSpec alpha r)"

text \<open>The nearest multiple of \<open>\<alpha>\<close>.\<close>

lemma cmod_unique:
  assumes "x = alpha * k + d" "- (alpha div 2) < d" "d \<le> alpha div 2" "even alpha" "0 < alpha"
  shows "cmod x alpha = d"
proof (cases "0 \<le> d")
  case True
  then have "x mod alpha = d" using assms by (simp add: mod_pos_pos_trivial)
  then show ?thesis using assms by (simp add: cmod_def)
next
  case False
  have "x = alpha * (k - 1) + (d + alpha)" using assms(1) by (simp add: algebra_simps)
  moreover have "0 \<le> d + alpha" "d + alpha < alpha" using False assms by linarith+
  ultimately have "x mod alpha = d + alpha" by (rule int_mod_pos_eq)
  moreover have "alpha div 2 < d + alpha" using assms(2,4) by auto
  ultimately show ?thesis by (simp add: cmod_def)
qed

lemma decomposeSpec_unique:
  assumes "x = alpha * k + d" "- (alpha div 2) < d" "d \<le> alpha div 2" "even alpha" "0 < alpha"
    and m: "alpha * m = 8380416"
  shows "decomposeSpec alpha x = (if k = m then (0, d - 1) else (k, d))"
proof -
  have c: "cmod x alpha = d" using assms(1-5) by (rule cmod_unique)
  have "x - d = alpha * k" using assms(1) by simp
  moreover have "alpha * k = 8380416 \<longleftrightarrow> k = m" using m assms(5) by (metis mult_cancel_left less_irrefl)
  ultimately show ?thesis using assms(5) by (simp add: decomposeSpec_def c Let_def)
qed

lemma nearest_multiple:
  fixes x alpha :: int
  assumes "0 < alpha" "even alpha"
  obtains k d where "x = alpha * k + d" "- (alpha div 2) < d" "d \<le> alpha div 2"
proof (cases "x mod alpha \<le> alpha div 2")
  case True
  have "0 < alpha div 2" using assms by (auto elim!: evenE)
  then have "- (alpha div 2) < x mod alpha" using pos_mod_sign [OF assms(1), of x] by linarith
  then show thesis using that [of "x div alpha" "x mod alpha"] True by simp
next
  case False
  have "x = alpha * (x div alpha + 1) + (x mod alpha - alpha)" by (simp add: distrib_left)
  moreover have "- (alpha div 2) < x mod alpha - alpha" using False assms(2) by (auto elim!: evenE)
  moreover have "0 < alpha div 2" using assms by (auto elim!: evenE)
  then have "x mod alpha - alpha \<le> alpha div 2" using pos_mod_bound [OF assms(1), of x] by linarith
  ultimately show thesis by (rule that)
qed

section \<open>The constant-time computations\<close>

text \<open>The value of the shift-and-multiply computation for the nearest multiple \<open>k\<close> of \<open>\<alpha>\<close>.\<close>

lemma ceil128: "(x :: int) = 128 * a + d \<Longrightarrow> - 128 * e < d \<Longrightarrow> d \<le> 128 * e \<Longrightarrow>
    a - e + 1 \<le> (x + 127) div 128 \<and> (x + 127) div 128 \<le> a + e"
  by linarith

lemma scaled32:
  fixes x :: int
  assumes "x = 523776 * k + d" "- 261888 < d" "d \<le> 261888" "0 \<le> k" "k \<le> 16"
  shows "((x + 127) div 128 * 1025 + 2097152) div 4194304 = k"
proof -
  define y where "y = (x + 127) div 128"
  have "4092 * k - 2046 + 1 \<le> y \<and> y \<le> 4092 * k + 2046"
    unfolding y_def using assms by (intro ceil128 [of _ _ d]) simp_all
  then have b: "4092 * k - 2045 \<le> y" "y \<le> 4092 * k + 2046" by simp_all
  have "4194304 * k \<le> y * 1025 + 2097152" using b(1) assms(4,5) by linarith
  moreover have "y * 1025 + 2097152 < 4194304 * k + 4194304" using b(2) assms(4,5) by linarith
  ultimately show ?thesis unfolding y_def [symmetric] by linarith
qed

lemma scaled88:
  fixes x :: int
  assumes "x = 190464 * k + d" "- 95232 < d" "d \<le> 95232" "0 \<le> k" "k \<le> 44"
  shows "((x + 127) div 128 * 11275 + 8388608) div 16777216 = k"
proof -
  define y where "y = (x + 127) div 128"
  have "1488 * k - 744 + 1 \<le> y \<and> y \<le> 1488 * k + 744"
    unfolding y_def using assms by (intro ceil128 [of _ _ d]) simp_all
  then have b: "1488 * k - 743 \<le> y" "y \<le> 1488 * k + 744" by simp_all
  have "16777216 * k \<le> y * 11275 + 8388608" using b(1) assms(4,5) by linarith
  moreover have "y * 11275 + 8388608 < 16777216 * k + 16777216" using b(2) assms(4,5) by linarith
  ultimately show ?thesis unfolding y_def [symmetric] by linarith
qed

lemma unat_ceil128:
  assumes "unat (x :: uint32) < 8380417"
  shows "unat (drop_bit 7 (x + 127)) = (unat x + 127) div 128"
proof -
  have "unat (x + 127) = unat x + 127" using assms by (simp add: unat_word_ariths)
  moreover have "unat x + 127 < 2 ^ 32" using assms by simp
  ultimately show ?thesis by (simp only: unsigned_drop_bit_eq) (simp add: drop_bit_eq_div take_bit_nat_eq_self)
qed

lemma unat_scale:
  assumes "unat (y :: uint32) * c + e < 2 ^ 32" "unat (cw :: uint32) = c" "unat (ew :: uint32) = e" "s < 32"
  shows "unat (drop_bit s (y * cw + ew)) = (unat y * c + e) div 2 ^ s"
proof -
  have "unat (y * cw + ew) = unat y * c + e" using assms(1-3) by (simp add: unat_word_ariths)
  then show ?thesis using assms(1) by (simp only: unsigned_drop_bit_eq) (simp add: drop_bit_eq_div take_bit_nat_eq_self)
qed

lemma ucast_byte: "unat (y :: uint32) < 256 \<Longrightarrow> unat (ucast y :: byte) = unat y"
  by (simp add: unsigned_ucast_eq take_bit_nat_eq_self)

lemma highBits32_nearest:
  assumes x: "unat x < 8380417" and "int (unat x) = 523776 * k + d" "- 261888 < d" "d \<le> 261888"
  shows "int (unat (highBits32 x)) = (if k = 16 then 0 else k)" "0 \<le> k" "k \<le> 16"
proof -
  have k: "0 \<le> k" "k \<le> 16" using assms by linarith+
  then show "0 \<le> k" "k \<le> 16" .
  define y where "y = drop_bit 7 (x + 127)"
  have y: "unat y = (unat x + 127) div 128" unfolding y_def by (rule unat_ceil128 [OF x])
  then have lt: "unat y * 1025 + 2097152 < 2 ^ 32" using x by simp
  define r where "r = drop_bit 22 (y * 1025 + 2097152)"
  have r: "unat r = (unat y * 1025 + 2097152) div 2 ^ 22"
    unfolding r_def by (rule unat_scale [OF lt]) simp_all
  have "int (unat r) = ((int (unat x) + 127) div 128 * 1025 + 2097152) div 4194304"
    unfolding r y by (simp only: zdiv_int of_nat_add of_nat_mult of_nat_numeral of_nat_power) simp
  also have "\<dots> = k" by (rule scaled32 [OF assms(2-4) k])
  finally have rk: "int (unat r) = k" .
  have "unat (r AND 15) = unat r mod 16"
  proof -
    have "r AND 15 = take_bit 4 r" by (simp add: take_bit_eq_mask mask_eq_exp_minus_1)
    then show ?thesis by (simp only: unsigned_take_bit_eq) (simp add: take_bit_eq_mod)
  qed
  then have "unat (ucast (r AND 15) :: byte) = unat r mod 16"
    by (subst ucast_byte) simp_all
  then have "int (unat (highBits32 x)) = k mod 16"
    unfolding highBits32_def Let_def y_def [symmetric] r_def [symmetric] using rk by (simp add: zmod_int)
  then show "int (unat (highBits32 x)) = (if k = 16 then 0 else k)" using k by auto
qed

lemma highBits88_nearest:
  assumes x: "unat x < 8380417" and "int (unat x) = 190464 * k + d" "- 95232 < d" "d \<le> 95232"
  shows "int (unat (highBits88 x)) = (if k = 44 then 0 else k)" "0 \<le> k" "k \<le> 44"
proof -
  have k: "0 \<le> k" "k \<le> 44" using assms by linarith+
  then show "0 \<le> k" "k \<le> 44" .
  define y where "y = drop_bit 7 (x + 127)"
  have y: "unat y = (unat x + 127) div 128" unfolding y_def by (rule unat_ceil128 [OF x])
  then have lt: "unat y * 11275 + 8388608 < 2 ^ 32" using x by simp
  define r where "r = drop_bit 24 (y * 11275 + 8388608)"
  have r: "unat r = (unat y * 11275 + 8388608) div 2 ^ 24"
    unfolding r_def by (rule unat_scale [OF lt]) simp_all
  have "int (unat r) = ((int (unat x) + 127) div 128 * 11275 + 8388608) div 16777216"
    unfolding r y by (simp only: zdiv_int of_nat_add of_nat_mult of_nat_numeral of_nat_power) simp
  also have "\<dots> = k" by (rule scaled88 [OF assms(2-4) k])
  finally have rk: "int (unat r) = k" .
  have "unat r = nat k" using rk by linarith
  then have r44: "r = 44 \<longleftrightarrow> k = 44" using k by (auto simp: word_unat_eq_iff)
  have "unat r < 256" using rk k by linarith
  then have "unat (ucast (if r = 44 then 0 else r) :: byte) = (if r = 44 then 0 else unat r)"
    by (simp add: ucast_byte)
  then show "int (unat (highBits88 x)) = (if k = 44 then 0 else k)"
    unfolding highBits88_def Let_def y_def [symmetric] r_def [symmetric] constantTimeSelectEqual_def
    using rk r44 by simp
qed

text \<open>The residue of a field element, and its signed 32-bit reading.\<close>

definition residue :: "fieldElement \<Rightarrow> int" where
  "residue r = int (unat (fieldFromMontgomery r))"

lemma residue:
  assumes "reduced r"
  shows "0 \<le> residue r" "residue r < 8380417" "of_int (residue r) = val r"
    "int32 (fieldFromMontgomery r) = residue r"
proof -
  note f = fromMontgomery [OF assms]
  show "0 \<le> residue r" by (simp add: residue_def)
  show "residue r < 8380417" unfolding residue_def using f(1) by linarith
  show "of_int (residue r) = val r" unfolding residue_def of_int_of_nat_eq by (rule f(2))
  have "unat (fieldFromMontgomery r) < 2 ^ 31" using f(1) by simp
  then show "int32 (fieldFromMontgomery r) = residue r"
    unfolding int32_def residue_def by (rule sint_small)
qed

lemma decompose32_spec:
  assumes "reduced r"
  shows "(int (unat (fst (decompose32 r))), snd (decompose32 r)) = decomposeSpec 523776 (residue r)"
proof -
  note f = residue [OF assms]
  obtain k d where kd: "residue r = 523776 * k + d" "- (523776 div 2) < d" "d \<le> 523776 div 2"
    by (rule nearest_multiple [of 523776 "residue r"]) simp_all
  have h: "int (unat (highBits32 (fieldFromMontgomery r))) = (if k = 16 then 0 else k)" "0 \<le> k" "k \<le> 16"
    using highBits32_nearest [OF fromMontgomery(1) [OF assms], of k d] kd by (simp_all add: residue_def)
  have "decomposeSpec 523776 (residue r) = (if k = 16 then (0, d - 1) else (k, d))"
    by (rule decomposeSpec_unique [OF kd]) simp_all
  moreover have "snd (decompose32 r) = (if k = 16 then d - 1 else d)"
    using h kd f(1,2) unfolding decompose32_def Let_def snd_conv f(4) h(1) q_def
    by (cases "k = 16") (simp_all add: constantTimeSelectLessOrEqual_eq)
  ultimately show ?thesis using h(1) by (simp add: decompose32_def Let_def)
qed

lemma decompose88_spec:
  assumes "reduced r"
  shows "(int (unat (fst (decompose88 r))), snd (decompose88 r)) = decomposeSpec 190464 (residue r)"
proof -
  note f = residue [OF assms]
  obtain k d where kd: "residue r = 190464 * k + d" "- (190464 div 2) < d" "d \<le> 190464 div 2"
    by (rule nearest_multiple [of 190464 "residue r"]) simp_all
  have h: "int (unat (highBits88 (fieldFromMontgomery r))) = (if k = 44 then 0 else k)" "0 \<le> k" "k \<le> 44"
    using highBits88_nearest [OF fromMontgomery(1) [OF assms], of k d] kd by (simp_all add: residue_def)
  have "decomposeSpec 190464 (residue r) = (if k = 44 then (0, d - 1) else (k, d))"
    by (rule decomposeSpec_unique [OF kd]) simp_all
  moreover have "snd (decompose88 r) = (if k = 44 then d - 1 else d)"
    using h kd f(1,2) unfolding decompose88_def Let_def snd_conv f(4) h(1) q_def
    by (cases "k = 44") (simp_all add: constantTimeSelectLessOrEqual_eq)
  ultimately show ?thesis using h(1) by (simp add: decompose88_def Let_def)
qed

text \<open>
  C21. The constant-time decomposition is the one of the standard: for every reduced field
  element, the shift-and-multiply computations of \<open>decompose32\<close> and \<open>decompose88\<close> return exactly
  the high and low parts that FIPS 204 defines by division with centered remainder for
  \<open>\<gamma>\<^sub>2 = (q-1)/32\<close> and \<open>\<gamma>\<^sub>2 = (q-1)/88\<close>, the wrap-around at \<open>q - 1\<close> included.
\<close>

theorem decompose_is_fips:
  assumes "reduced r"
  shows "(int (unat (fst (decompose32 r))), snd (decompose32 r)) = decomposeSpec (2 * ((8380417 - 1) div 32)) (residue r) \<and>
    (int (unat (fst (decompose88 r))), snd (decompose88 r)) = decomposeSpec (2 * ((8380417 - 1) div 88)) (residue r)"
  using decompose32_spec [OF assms] decompose88_spec [OF assms] by simp

theorem decompose_is_fips_witness:
  "(int (unat (fst (decompose88 8380416))), snd (decompose88 8380416)) = decomposeSpec 190464 (residue 8380416)"
proof -
  have "reduced 8380416" by (simp add: reduced_def)
  then show ?thesis using decompose_is_fips [of 8380416] by simp
qed

section \<open>Hints\<close>

text \<open>
  The facts about the high part that both values of \<open>\<gamma>\<^sub>2\<close> share: \<open>g\<close> is \<open>\<gamma>\<^sub>2\<close> and \<open>m\<close> the number
  of high parts. A value congruent to \<open>2 g r\<^sub>1 + e\<close> has the high part \<open>r\<^sub>1\<close> for a small error \<open>e\<close> and
  a neighbour of \<open>r\<^sub>1\<close> otherwise.
\<close>

locale rounding =
  fixes g m :: int
  assumes g_pos: "0 < g" and m_ge: "2 \<le> m" and gm: "2 * g * m = 8380416"
begin

lemma high_nearest:
  assumes "u = 2 * g * k + d" "- g < d" "d \<le> g"
  shows "decomposeSpec (2 * g) u = (if k = m then (0, d - 1) else (k, d))"
  by (rule decomposeSpec_unique) (use assms g_pos gm in simp_all)

lemma shifted_range:
  assumes u: "0 \<le> u" "u < 8380417" and r1: "0 \<le> r1" "r1 < m" and e: "- (2 * g) \<le> e" "e \<le> 2 * g"
    and cong: "u = 2 * g * r1 + e + 8380417 * t"
  shows "t = 0 \<or> t = 1 \<and> r1 = 0 \<and> e < 0"
proof -
  have "2 * g * r1 \<le> 2 * g * (m - 1)" using r1 g_pos by (intro mult_left_mono) auto
  then have up: "2 * g * r1 + e \<le> 8380416" using e(2) gm by (simp add: right_diff_distrib)
  have "0 \<le> 2 * g * r1" using r1(1) g_pos by simp
  then have lo: "- (2 * g) \<le> 2 * g * r1 + e" using e(1) by linarith
  have "2 * g \<le> 8380416" using gm m_ge g_pos mult_left_mono [of 1 m "2 * g"] by simp
  then have "t = 0 \<or> t = 1" using u up lo cong by linarith
  moreover have "r1 = 0 \<and> e < 0" if "t = 1"
  proof -
    have neg: "2 * g * r1 + e < 0" using that cong u(2) by linarith
    have "r1 = 0"
    proof (rule ccontr)
      assume "r1 \<noteq> 0"
      then have "2 * g * 1 \<le> 2 * g * r1" using r1(1) g_pos by (intro mult_left_mono) auto
      then show False using neg e(1) by simp
    qed
    then show ?thesis using neg by simp
  qed
  ultimately show ?thesis by blast
qed

lemma high_shifted:
  assumes u: "0 \<le> u" "u < 8380417" and r1: "0 \<le> r1" "r1 < m" and e: "- (2 * g) \<le> e" "e \<le> 2 * g"
    and cong: "u = 2 * g * r1 + e + 8380417 * t"
  shows "- g < e \<Longrightarrow> e \<le> g \<Longrightarrow> highSpec (2 * g) u = r1"
    and "g < e \<Longrightarrow> highSpec (2 * g) u = (r1 + 1) mod m"
    and "e \<le> - g \<Longrightarrow> highSpec (2 * g) u = (r1 - 1) mod m \<or> highSpec (2 * g) u = r1"
proof -
  note t = shifted_range [OF assms]
  have wrap: "u = 2 * g * m + (e + 1)" if "t = 1" "r1 = 0" using that cong gm by simp
  show "highSpec (2 * g) u = r1" if e': "- g < e" "e \<le> g"
    using t
  proof
    assume "t = 0"
    then have "u = 2 * g * r1 + e" using cong by simp
    from high_nearest [OF this e'] show ?thesis using r1 by (simp add: highSpec_def)
  next
    assume w: "t = 1 \<and> r1 = 0 \<and> e < 0"
    then have "u = 2 * g * m + (e + 1)" using wrap by simp
    from high_nearest [OF this] show ?thesis using w e' by (simp add: highSpec_def)
  qed
  show "highSpec (2 * g) u = (r1 + 1) mod m" if e': "g < e"
  proof -
    have "u = 2 * g * (r1 + 1) + (e - 2 * g)" using t e' g_pos cong by (auto simp: distrib_left)
    from high_nearest [OF this] have "highSpec (2 * g) u = (if r1 + 1 = m then 0 else r1 + 1)"
      using e' e(2) g_pos by (simp add: highSpec_def)
    then show ?thesis using r1 by auto
  qed
  show "highSpec (2 * g) u = (r1 - 1) mod m \<or> highSpec (2 * g) u = r1" if e': "e \<le> - g"
  proof (cases "t = 0")
    case True
    have "r1 \<noteq> 0" using True cong u(1) e' g_pos by auto
    have "u = 2 * g * (r1 - 1) + (e + 2 * g)" using True cong by (simp add: right_diff_distrib)
    from high_nearest [OF this] have "highSpec (2 * g) u = r1 - 1"
      using e' e(1) g_pos r1 by (simp add: highSpec_def)
    then show ?thesis using r1 \<open>r1 \<noteq> 0\<close> by simp
  next
    case False
    then have w: "t = 1" "r1 = 0" using t by auto
    show ?thesis
    proof (cases "e = - g")
      case True
      from high_nearest [OF wrap [OF w]] show ?thesis using True g_pos w by (simp add: highSpec_def)
    next
      case False
      have "u = 2 * g * (m - 1) + (e + 1 + 2 * g)" using wrap [OF w] by (simp add: right_diff_distrib)
      from high_nearest [OF this] have "highSpec (2 * g) u = m - 1"
        using False e' e(1) g_pos by (simp add: highSpec_def)
      moreover have "(- 1) mod m = m - 1" using m_ge by (simp add: zmod_minus1)
      ultimately show ?thesis using w by simp
    qed
  qed
qed

lemma parts:
  assumes "0 \<le> x" "x < 8380417"
  obtains r1 r0 t where "decomposeSpec (2 * g) x = (r1, r0)" "0 \<le> r1" "r1 < m" "- g \<le> r0" "r0 \<le> g"
    "x = 2 * g * r1 + r0 + 8380417 * t"
proof -
  obtain k d where kd: "x = 2 * g * k + d" "- g < d" "d \<le> g"
    using nearest_multiple [of "2 * g" x] g_pos by auto
  have "- 1 < k" "k \<le> m"
  proof -
    have "- (2 * g) < 2 * g * k" using kd assms(1) g_pos by linarith
    then show "- 1 < k" using g_pos by (metis mult_less_cancel_left_pos mult_minus1_right zero_less_mult_iff zero_less_numeral)
    have "2 * g * k < 2 * g * (m + 1)" using kd assms(2) gm g_pos by (simp add: distrib_left)
    then show "k \<le> m" using g_pos by (simp add: mult_less_cancel_left)
  qed
  moreover have "d \<le> 0" if "k = m" using that kd(1) assms(2) gm by simp
  ultimately show thesis
    using that [of 0 "d - 1" 1] that [of k d 0] high_nearest [OF kd] kd gm m_ge
    by (cases "k = m") auto
qed

text \<open>A hint points to the high part of a value at most \<open>g\<close> away.\<close>

lemma hint_neighbour:
  assumes v: "0 \<le> v" "v < 8380417" "decomposeSpec (2 * g) v = (r1, r0)"
    and u: "0 \<le> u" "u < 8380417" and t: "u = v - t + 8380417 * s" "\<bar>t\<bar> \<le> g"
    and differ: "highSpec (2 * g) u \<noteq> r1"
  shows "highSpec (2 * g) u = (if r0 > 0 then (r1 + 1) mod m else (r1 - 1) mod m)"
proof -
  obtain w where p: "0 \<le> r1" "r1 < m" "- g \<le> r0" "r0 \<le> g" "v = 2 * g * r1 + r0 + 8380417 * w"
    using parts [OF v(1,2)] v(3) by (metis prod.inject)
  have cong: "u = 2 * g * r1 + (r0 - t) + 8380417 * (w + s)" using t(1) p(5) by (simp add: distrib_left)
  have e: "- (2 * g) \<le> r0 - t" "r0 - t \<le> 2 * g" using p(3,4) t(2) by linarith+
  note h = high_shifted [OF u p(1,2) e cong]
  show ?thesis
  proof (cases "r0 > 0")
    case True
    then have "- g < r0 - t" using t(2) by linarith
    then show ?thesis using True h(1,2) differ by (cases "r0 - t \<le> g") auto
  next
    case False
    then have "r0 - t \<le> g" using t(2) by linarith
    then show ?thesis using False h(1,3) differ by (cases "- g < r0 - t") auto
  qed
qed

text \<open>A value with a small low part keeps its high part when a smaller one is added.\<close>

lemma high_stable:
  assumes v: "0 \<le> v" "v < 8380417" "decomposeSpec (2 * g) v = (r1, r0)"
    and u: "0 \<le> u" "u < 8380417" and t: "u = v + t + 8380417 * s" "\<bar>r0\<bar> + \<bar>t\<bar> < g"
  shows "highSpec (2 * g) u = r1"
proof -
  obtain w where p: "0 \<le> r1" "r1 < m" "v = 2 * g * r1 + r0 + 8380417 * w"
    using parts [OF v(1,2)] v(3) by (metis prod.inject)
  have cong: "u = 2 * g * r1 + (r0 + t) + 8380417 * (w + s)" using t(1) p(3) by (simp add: distrib_left)
  show ?thesis by (rule high_shifted(1) [OF u p(1,2) _ _ cong]) (use t(2) in linarith)+
qed

end

interpretation r32: rounding 261888 16
  by unfold_locales simp_all

interpretation r88: rounding 95232 44
  by unfold_locales simp_all

lemma residue_cong:
  assumes "reduced a" "of_int z = val a" obtains s where "residue a = z + 8380417 * s"
proof -
  have "(of_int (residue a) :: Zq) = of_int z" using residue(3) [OF assms(1)] assms(2) by simp
  then have "8380417 dvd residue a - z" unfolding of_int_Zq_eq by (simp only: mod_eq_dvd_iff)
  then obtain s where "residue a - z = 8380417 * s" by (rule dvdE)
  then show thesis using that [of s] by simp
qed

lemma hint_residues:
  assumes "reduced ct0" "reduced w" "reduced cs2"
  defines "u \<equiv> fieldSub w cs2" and "v \<equiv> fieldAdd (fieldSub w cs2) ct0"
  shows "reduced u" "reduced v" "\<exists>s. residue u = residue v - centered (val ct0) + 8380417 * s"
proof -
  show u: "reduced u" unfolding u_def by (rule fieldSub [OF assms(2,3)])
  show v: "reduced v" unfolding v_def by (intro fieldAdd fieldSub assms)
  have "val v = val u + val ct0" unfolding u_def v_def by (intro fieldAdd fieldSub assms)
  then have "of_int (residue v - centered (val ct0)) = val u"
    using residue(3) [OF v] by (simp add: of_int_centered)
  then show "\<exists>s. residue u = residue v - centered (val ct0) + 8380417 * s"
    using residue_cong [OF u] by metis
qed

lemma high32: "reduced r \<Longrightarrow> int (unat (highBits32 (fieldFromMontgomery r))) = highSpec 523776 (residue r)"
  using decompose32_spec [of r] by (simp add: highSpec_def decompose32_def Let_def prod_eq_iff)

lemma high88: "reduced r \<Longrightarrow> int (unat (highBits88 (fieldFromMontgomery r))) = highSpec 190464 (residue r)"
  using decompose88_spec [of r] by (simp add: highSpec_def decompose88_def Let_def prod_eq_iff)

lemma byte_eqI: "int (unat (a :: byte)) = int (unat b) \<Longrightarrow> a = b"
  by (simp only: of_nat_eq_iff word_unat_eq_iff)

lemma useHint32_makeHint:
  assumes r: "reduced ct0" "reduced w" "reduced cs2" and small: "\<bar>centered (val ct0)\<bar> \<le> 261888"
  shows "useHint32 (fieldAdd (fieldSub w cs2) ct0) (makeHint32 ct0 w cs2)
    = highBits32 (fieldFromMontgomery (fieldSub w cs2))"
proof -
  define u v where "u = fieldSub w cs2" and "v = fieldAdd (fieldSub w cs2) ct0"
  obtain s where uv: "reduced u" "reduced v" "residue u = residue v - centered (val ct0) + 8380417 * s"
    using hint_residues [OF r] unfolding u_def v_def by blast
  obtain r1 r0 where d: "decompose32 v = (r1, r0)" by (cases "decompose32 v")
  have r1: "r1 = highBits32 (fieldFromMontgomery v)" using d by (simp add: decompose32_def Let_def)
  have dv: "decomposeSpec (2 * 261888) (residue v) = (int (unat r1), r0)"
    using decompose32_spec [OF uv(2)] d by simp
  show ?thesis
  proof (cases "highBits32 (fieldFromMontgomery u) = r1")
    case True
    then have "makeHint32 ct0 w cs2 = 0" by (simp add: makeHint32_def Let_def r1 u_def v_def)
    then show ?thesis using True d unfolding u_def v_def by (simp add: useHint32_def)
  next
    case False
    then have hint: "makeHint32 ct0 w cs2 = 1"
      by (simp add: makeHint32_def Let_def r1 u_def v_def)
    have two: "2 * 261888 = (523776 :: int)" by simp
    have "highSpec 523776 (residue u) \<noteq> int (unat r1)"
      unfolding high32 [OF uv(1), symmetric] using False byte_eqI by blast
    note ne = this [folded two]
    have h: "int (unat (highBits32 (fieldFromMontgomery u))) =
        (if r0 > 0 then (int (unat r1) + 1) mod 16 else (int (unat r1) - 1) mod 16)"
      using r32.hint_neighbour [OF residue(1,2) [OF uv(2)] dv residue(1,2) [OF uv(1)] uv(3) small ne]
      unfolding two high32 [OF uv(1)] .
    have "int (unat r1) < 16"
      by (rule r32.parts [OF residue(1,2) [OF uv(2)]]) (use dv in simp)
    then have lt: "unat r1 < 16" by linarith
    have "int (unat ((r1 + 1) mod 16)) = (int (unat r1) + 1) mod 16"
    proof -
      have "unat (r1 + 1) = unat r1 + 1" using lt by (simp add: unat_word_ariths)
      then have "unat ((r1 + 1) mod 16) = (unat r1 + 1) mod 16" by (simp add: unat_mod)
      then show ?thesis by (simp only: zmod_int of_nat_add of_nat_1 of_nat_numeral)
    qed
    moreover have "int (unat ((r1 - 1) mod 16)) = (int (unat r1) - 1) mod 16"
    proof (cases "r1 = 0")
      case False
      then have "unat (r1 - 1) = unat r1 - 1" "0 < unat r1" by (simp_all add: unat_minus_one unat_gt_0)
      moreover from this have "int (unat r1 - 1) = int (unat r1) - 1" by linarith
      ultimately show ?thesis by (simp add: unat_mod zmod_int del: of_nat_unat)
    qed simp
    ultimately have "useHint32 v 1 = highBits32 (fieldFromMontgomery u)"
      using h d by (intro byte_eqI) (simp add: useHint32_def)
    then show ?thesis unfolding hint by (simp add: u_def v_def)
  qed
qed

lemma useHint88_makeHint:
  assumes r: "reduced ct0" "reduced w" "reduced cs2" and small: "\<bar>centered (val ct0)\<bar> \<le> 95232"
  shows "useHint88 (fieldAdd (fieldSub w cs2) ct0) (makeHint88 ct0 w cs2)
    = highBits88 (fieldFromMontgomery (fieldSub w cs2))"
proof -
  define u v where "u = fieldSub w cs2" and "v = fieldAdd (fieldSub w cs2) ct0"
  obtain s where uv: "reduced u" "reduced v" "residue u = residue v - centered (val ct0) + 8380417 * s"
    using hint_residues [OF r] unfolding u_def v_def by blast
  obtain r1 r0 where d: "decompose88 v = (r1, r0)" by (cases "decompose88 v")
  have r1: "r1 = highBits88 (fieldFromMontgomery v)" using d by (simp add: decompose88_def Let_def)
  have dv: "decomposeSpec (2 * 95232) (residue v) = (int (unat r1), r0)"
    using decompose88_spec [OF uv(2)] d by simp
  show ?thesis
  proof (cases "highBits88 (fieldFromMontgomery u) = r1")
    case True
    then have "makeHint88 ct0 w cs2 = 0" by (simp add: makeHint88_def Let_def r1 u_def v_def)
    then show ?thesis using True d unfolding u_def v_def by (simp add: useHint88_def)
  next
    case False
    then have hint: "makeHint88 ct0 w cs2 = 1"
      by (simp add: makeHint88_def Let_def r1 u_def v_def)
    have two: "2 * 95232 = (190464 :: int)" by simp
    have "highSpec 190464 (residue u) \<noteq> int (unat r1)"
      unfolding high88 [OF uv(1), symmetric] using False byte_eqI by blast
    note ne = this [folded two]
    have h: "int (unat (highBits88 (fieldFromMontgomery u))) =
        (if r0 > 0 then (int (unat r1) + 1) mod 44 else (int (unat r1) - 1) mod 44)"
      using r88.hint_neighbour [OF residue(1,2) [OF uv(2)] dv residue(1,2) [OF uv(1)] uv(3) small ne]
      unfolding two high88 [OF uv(1)] .
    have "int (unat r1) < 44"
      by (rule r88.parts [OF residue(1,2) [OF uv(2)]]) (use dv in simp)
    then have lt: "unat r1 < 44" by linarith
    have "int (unat (if r1 = 44 - 1 then 0 else r1 + 1)) = (int (unat r1) + 1) mod 44"
    proof (cases "r1 = 44 - 1")
      case False
      then have "unat r1 \<noteq> 43" by (simp add: word_unat_eq_iff)
      with lt have "int (unat r1) + 1 < 44" by linarith
      moreover have "unat (r1 + 1) = unat r1 + 1" using lt by (simp add: unat_word_ariths)
      ultimately show ?thesis using False by (simp del: of_nat_unat)
    qed simp
    moreover have "int (unat (if r1 = 0 then 44 - 1 else r1 - 1)) = (int (unat r1) - 1) mod 44"
    proof (cases "r1 = 0")
      case False
      then have "unat (r1 - 1) = unat r1 - 1" "0 < unat r1" by (simp_all add: unat_minus_one unat_gt_0)
      moreover from this have "0 \<le> int (unat r1) - 1" "int (unat r1) - 1 < 44" using lt by linarith+
      ultimately show ?thesis using False by (simp add: of_nat_diff del: of_nat_unat)
    qed simp
    ultimately have "useHint88 v 1 = highBits88 (fieldFromMontgomery u)"
      using h d by (intro byte_eqI) (simp add: useHint88_def)
    then show ?thesis unfolding hint by (simp add: u_def v_def)
  qed
qed

lemma power2Round:
  assumes "reduced r" and "power2Round r = (r1, r0)"
  shows "reduced r0" and "unat r1 \<le> 1023" and "\<bar>centered (val r0)\<bar> \<le> 4096"
    and "val r = of_nat (unat r1 * 8192) + val r0"
proof -
  define x where "x = fieldFromMontgomery r"
  have x: "unat x < 8380417" "of_nat (unat x) = val r" using fromMontgomery [OF assms(1)] by (simp_all add: x_def)
  define h where "h = drop_bit 13 (x + 4096 - 1)"
  define k where "k = (unat x + 4095) div 8192"
  have a: "unat (x + 4096 - 1) = unat x + 4095"
    using x(1) by (simp add: unat_word_ariths)
  have h: "unat h = k" unfolding h_def k_def unfolding unat_drop_bit_eq a by (simp add: drop_bit_eq_div)
  have k: "k \<le> 1023" "k * 8192 \<le> unat x + 4095" "unat x \<le> k * 8192 + 4096" unfolding k_def using x(1) by linarith+
  have ph: "unat (push_bit 13 h) = k * 8192"
    using k(1) h by (simp add: push_bit_eq_mult unat_word_ariths)
  have r: "r1 = ucast h" "r0 = fieldSubToMontgomery x (push_bit 13 h)"
    using assms(2) by (simp_all add: power2Round_def Let_def x_def h_def)
  have red: "reduced (push_bit 13 h)" using ph k(1) by (simp add: reduced_def)
  have x31: "unat x < 2 ^ 31" using x(1) by simp
  show "reduced r0" unfolding r by (rule subToMontgomery(1) [OF x31 red])
  have v: "val r0 = of_nat (unat x) - of_nat (k * 8192)"
    unfolding r using subToMontgomery(2) [OF x31 red] ph by (simp only:)
  have r1: "unat r1 = k" unfolding r using h k(1) by (simp add: unsigned_ucast_eq take_bit_nat_eq_self)
  then show "unat r1 \<le> 1023" using k(1) by (simp only:)
  show "val r = of_nat (unat r1 * 8192) + val r0" unfolding v r1 x(2) by simp
  have "- 4190208 \<le> int (unat x) - int (k * 8192)" "int (unat x) - int (k * 8192) \<le> 4190208"
    using k by linarith+
  then have "centered (val r0) = int (unat x) - int (k * 8192)"
    by (intro centered_unique) (simp_all only: v of_int_diff of_int_of_nat_eq)
  then show "\<bar>centered (val r0)\<bar> \<le> 4096" using k by linarith
qed

lemma residue_sub:
  assumes "reduced w" "reduced c" obtains s where "residue w = residue (fieldSub w c) + centered (val c) + 8380417 * s"
proof -
  have "of_int (residue (fieldSub w c) + centered (val c)) = val w"
    using residue(3) [OF fieldSub(1) [OF assms]] fieldSub(2) [OF assms] by (simp add: of_int_centered)
  then show thesis using residue_cong [OF assms(1)] that by blast
qed

lemma high_unchanged32:
  assumes "reduced w" "reduced c" "\<bar>snd (decompose32 (fieldSub w c))\<bar> + \<bar>centered (val c)\<bar> < 261888"
  shows "highBits32 (fieldFromMontgomery (fieldSub w c)) = highBits32 (fieldFromMontgomery w)"
proof -
  define v where "v = fieldSub w c"
  have v: "reduced v" unfolding v_def by (rule fieldSub [OF assms(1,2)])
  obtain s where s: "residue w = residue v + centered (val c) + 8380417 * s"
    unfolding v_def by (rule residue_sub [OF assms(1,2)])
  obtain r1 r0 where d: "decompose32 v = (r1, r0)" by (cases "decompose32 v")
  have dv: "decomposeSpec (2 * 261888) (residue v) = (int (unat r1), r0)" using decompose32_spec [OF v] d by simp
  have small: "\<bar>r0\<bar> + \<bar>centered (val c)\<bar> < 261888" using assms(3) d by (simp add: v_def)
  have "highSpec (2 * 261888) (residue w) = int (unat r1)"
    by (rule r32.high_stable [OF residue(1,2) [OF v] dv residue(1,2) [OF assms(1)] s small])
  then have "int (unat (highBits32 (fieldFromMontgomery w))) = int (unat r1)" using high32 [OF assms(1)] by simp
  moreover have "r1 = highBits32 (fieldFromMontgomery v)" using d by (simp add: decompose32_def Let_def)
  ultimately show ?thesis unfolding v_def using byte_eqI by simp
qed

lemma high_unchanged88:
  assumes "reduced w" "reduced c" "\<bar>snd (decompose88 (fieldSub w c))\<bar> + \<bar>centered (val c)\<bar> < 95232"
  shows "highBits88 (fieldFromMontgomery (fieldSub w c)) = highBits88 (fieldFromMontgomery w)"
proof -
  define v where "v = fieldSub w c"
  have v: "reduced v" unfolding v_def by (rule fieldSub [OF assms(1,2)])
  obtain s where s: "residue w = residue v + centered (val c) + 8380417 * s"
    unfolding v_def by (rule residue_sub [OF assms(1,2)])
  obtain r1 r0 where d: "decompose88 v = (r1, r0)" by (cases "decompose88 v")
  have dv: "decomposeSpec (2 * 95232) (residue v) = (int (unat r1), r0)" using decompose88_spec [OF v] d by simp
  have small: "\<bar>r0\<bar> + \<bar>centered (val c)\<bar> < 95232" using assms(3) d by (simp add: v_def)
  have "highSpec (2 * 95232) (residue w) = int (unat r1)"
    by (rule r88.high_stable [OF residue(1,2) [OF v] dv residue(1,2) [OF assms(1)] s small])
  then have "int (unat (highBits88 (fieldFromMontgomery w))) = int (unat r1)" using high88 [OF assms(1)] by simp
  moreover have "r1 = highBits88 (fieldFromMontgomery v)" using d by (simp add: decompose88_def Let_def)
  ultimately show ?thesis unfolding v_def using byte_eqI by simp
qed

text \<open>
  C22. Hints recover the signer's high bits, for both values of \<open>\<gamma>\<^sub>2\<close> and whatever the wrap-arounds.
  For reduced \<open>w\<close>, \<open>c s\<^sub>2\<close> and \<open>c t\<^sub>0\<close> with \<open>\<bar>c t\<^sub>0\<bar> \<le> \<gamma>\<^sub>2\<close>, applying the hint that the signer computes to
  \<open>w - c s\<^sub>2 + c t\<^sub>0\<close>, which is all the verifier can compute, gives the high part of \<open>w - c s\<^sub>2\<close>. If
  moreover \<open>\<bar>c s\<^sub>2\<bar> \<le> \<beta>\<close> and the signer's check on the low part of \<open>w - c s\<^sub>2\<close> passed, that is, it is
  below \<open>\<gamma>\<^sub>2 - \<beta>\<close> in magnitude, this is the high part of \<open>w\<close> itself, the one that the signer committed to.
\<close>

theorem hint_recovers_high_bits:
  assumes "reduced ct0" and "reduced w" and "reduced cs2" and "\<bar>centered (val cs2)\<bar> \<le> beta"
  shows "(\<bar>centered (val ct0)\<bar> \<le> (8380417 - 1) div 32 \<longrightarrow>
      useHint32 (fieldAdd (fieldSub w cs2) ct0) (makeHint32 ct0 w cs2)
        = highBits32 (fieldFromMontgomery (fieldSub w cs2)) \<and>
      (\<bar>snd (decompose32 (fieldSub w cs2))\<bar> < (8380417 - 1) div 32 - beta \<longrightarrow>
       useHint32 (fieldAdd (fieldSub w cs2) ct0) (makeHint32 ct0 w cs2)
        = highBits32 (fieldFromMontgomery w))) \<and>
    (\<bar>centered (val ct0)\<bar> \<le> (8380417 - 1) div 88 \<longrightarrow>
      useHint88 (fieldAdd (fieldSub w cs2) ct0) (makeHint88 ct0 w cs2)
        = highBits88 (fieldFromMontgomery (fieldSub w cs2)) \<and>
      (\<bar>snd (decompose88 (fieldSub w cs2))\<bar> < (8380417 - 1) div 88 - beta \<longrightarrow>
       useHint88 (fieldAdd (fieldSub w cs2) ct0) (makeHint88 ct0 w cs2)
        = highBits88 (fieldFromMontgomery w)))"
  using useHint32_makeHint [OF assms(1-3)] useHint88_makeHint [OF assms(1-3)]
    high_unchanged32 [OF assms(2,3)] high_unchanged88 [OF assms(2,3)] assms(4) by simp

text \<open>The residues 95000 and 500 in the Montgomery domain; their sum has another high part than 95000.\<close>

lemma residue_val: "reduced r \<Longrightarrow> val r = of_nat k \<Longrightarrow> k < 8380417 \<Longrightarrow> residue r = int k"
  using fromMontgomery [of r] by (simp add: residue_def of_nat_Zq_eq del: of_nat_unat)

theorem hint_recovers_high_bits_witness:
  "makeHint88 1791750 5215820 0 = 1 \<and>
   highBits88 (fieldFromMontgomery (fieldAdd (fieldSub 5215820 0) 1791750)) = 1 \<and>
   useHint88 (fieldAdd (fieldSub 5215820 0) 1791750) (makeHint88 1791750 5215820 0)
     = highBits88 (fieldFromMontgomery 5215820) \<and>
   highBits88 (fieldFromMontgomery 5215820) = 0"
proof -
  have red: "reduced 1791750" "reduced 5215820" "reduced 0" by (simp_all add: reduced_def)
  have val: "val 1791750 = of_nat 500" "val 5215820 = of_nat 95000" "val 0 = 0"
  proof -
    have "(of_nat (1791750 * 8265825) :: Zq) = of_nat 500" "(of_nat (5215820 * 8265825) :: Zq) = of_nat 95000"
      unfolding of_nat_Zq_eq by simp_all
    then show "val 1791750 = of_nat 500" "val 5215820 = of_nat 95000" "val 0 = 0"
      by (simp_all add: val_def rinv_def)
  qed
  have ct0: "centered (val 1791750) = 500" and cs2: "\<bar>centered (val 0)\<bar> \<le> 78"
    using centered_of_nat [of 500] centered_of_nat [of 0] unfolding val by simp_all
  have same: "fieldSub 5215820 0 = 5215820"
    using fieldSub [OF red(2,3)] val(3) val_inject [OF _ red(2)] by simp
  let ?sum = "fieldAdd (fieldSub 5215820 0) 1791750"
  have sum: "reduced ?sum" "val ?sum = of_nat 95500"
    using fieldAdd [OF red(2,1)] val(1,2) unfolding same by simp_all
  have res: "residue 5215820 = 95000" "residue ?sum = 95500"
    using residue_val [OF red(2) val(2)] residue_val [OF sum] by simp_all
  have spec: "decomposeSpec 190464 95000 = (0, 95000)" "highSpec 190464 95500 = 1" "highSpec 190464 95000 = 0"
    by (simp_all add: highSpec_def decomposeSpec_def cmod_def)
  have low: "snd (decompose88 (fieldSub 5215820 0)) = 95000"
    using decompose88_spec [OF red(2)] by (simp add: same res spec)
  have high: "highBits88 (fieldFromMontgomery 5215820) = 0" "highBits88 (fieldFromMontgomery ?sum) = 1"
    using high88 [OF red(2)] high88 [OF sum(1)] unfolding res spec by (auto intro: byte_eqI)
  have hint: "makeHint88 1791750 5215820 0 = 1"
    using high by (simp add: makeHint88_def Let_def same)
  show ?thesis
    using hint_recovers_high_bits [OF red cs2] high hint by (simp add: ct0 low) (simp add: same)
qed

end
