(* ===== verification/MLDSA_Packing.thy ===== *)
theory MLDSA_Packing
  imports MLDSA_Ring MLDSA_Rounding
begin

text \<open>
  Parameter sets and byte encodings of \<open>internal/mldsa\<close>: \<open>bitPack\<close> and \<open>bitUnpack\<close> for both
  values of \<open>\<gamma>\<^sub>1\<close>, public keys, hints and signatures. A call that panics has no value, so the
  result of a function with a panic is an option; a call that returns an error is a value of a
  sum type.
\<close>

section \<open>Parameters\<close>

record parameters =
  dimK :: nat
  dimL :: nat
  eta :: nat
  gamma1 :: nat
  gamma2 :: nat
  lambda :: nat
  tau :: nat
  omega :: nat

definition params44 :: parameters where
  "params44 = \<lparr>dimK = 4, dimL = 4, eta = 2, gamma1 = 17, gamma2 = 88, lambda = 128, tau = 39, omega = 80\<rparr>"

definition params65 :: parameters where
  "params65 = \<lparr>dimK = 6, dimL = 5, eta = 4, gamma1 = 19, gamma2 = 32, lambda = 192, tau = 49, omega = 55\<rparr>"

definition params87 :: parameters where
  "params87 = \<lparr>dimK = 8, dimL = 7, eta = 2, gamma1 = 19, gamma2 = 32, lambda = 256, tau = 60, omega = 75\<rparr>"

definition pubKeySize :: "parameters \<Rightarrow> nat" where
  "pubKeySize p = 32 + dimK p * 256 * 10 div 8"

definition sigSize :: "parameters \<Rightarrow> nat" where
  "sigSize p = lambda p div 4 + dimL p * 256 * (gamma1 p + 1) div 8 + omega p + dimK p"

section \<open>Packing of coefficients\<close>

definition byteOf :: "int \<Rightarrow> byte" where
  "byteOf w = word_of_int w"

fun pack18 :: "fieldElement list \<Rightarrow> bytes" where
  "pack18 (r0 # r1 # r2 # r3 # r) =
     (let b = 2 ^ 17;
          w0 = b - fieldCenteredMod r0; w1 = b - fieldCenteredMod r1;
          w2 = b - fieldCenteredMod r2; w3 = b - fieldCenteredMod r3
      in [byteOf w0, byteOf (drop_bit 8 w0),
          byteOf (drop_bit 16 w0) OR byteOf (push_bit 2 w1), byteOf (drop_bit 6 w1),
          byteOf (drop_bit 14 w1) OR byteOf (push_bit 4 w2), byteOf (drop_bit 4 w2),
          byteOf (drop_bit 12 w2) OR byteOf (push_bit 6 w3), byteOf (drop_bit 2 w3),
          byteOf (drop_bit 10 w3)] @ pack18 r)"
| "pack18 _ = []"

fun pack20 :: "fieldElement list \<Rightarrow> bytes" where
  "pack20 (r0 # r1 # r) =
     (let b = 2 ^ 19; w0 = b - fieldCenteredMod r0; w1 = b - fieldCenteredMod r1
      in [byteOf w0, byteOf (drop_bit 8 w0),
          byteOf (drop_bit 16 w0) OR byteOf (push_bit 4 w1), byteOf (drop_bit 4 w1),
          byteOf (drop_bit 12 w1)] @ pack20 r)"
| "pack20 _ = []"

definition bitPack18 :: "bytes \<Rightarrow> fieldElement list \<Rightarrow> bytes" where
  "bitPack18 buf r = buf @ pack18 r"

definition bitPack20 :: "bytes \<Rightarrow> fieldElement list \<Rightarrow> bytes" where
  "bitPack20 buf r = buf @ pack20 r"

definition bitPack :: "bytes \<Rightarrow> fieldElement list \<Rightarrow> parameters \<Rightarrow> bytes option" where
  "bitPack b r p =
     (if gamma1 p = 17 then Some (bitPack18 b r)
      else if gamma1 p = 19 then Some (bitPack20 b r)
      else None)"

definition u32 :: "byte \<Rightarrow> uint32" where
  "u32 = ucast"

fun unpack18 :: "bytes \<Rightarrow> fieldElement list" where
  "unpack18 (v0 # v1 # v2 # v3 # v4 # v5 # v6 # v7 # v8 # v) =
     (let b = 2 ^ 17; mask18 = 2 ^ 18 - 1;
          w0 = u32 v0 OR push_bit 8 (u32 v1) OR push_bit 16 (u32 v2);
          w1 = drop_bit 2 (u32 v2) OR push_bit 6 (u32 v3) OR push_bit 14 (u32 v4);
          w2 = drop_bit 4 (u32 v4) OR push_bit 4 (u32 v5) OR push_bit 12 (u32 v6);
          w3 = drop_bit 6 (u32 v6) OR push_bit 2 (u32 v7) OR push_bit 10 (u32 v8)
      in [fieldSubToMontgomery b (w0 AND mask18), fieldSubToMontgomery b (w1 AND mask18),
          fieldSubToMontgomery b (w2 AND mask18), fieldSubToMontgomery b (w3 AND mask18)] @ unpack18 v)"
| "unpack18 _ = []"

fun unpack20 :: "bytes \<Rightarrow> fieldElement list" where
  "unpack20 (v0 # v1 # v2 # v3 # v4 # v) =
     (let b = 2 ^ 19; mask20 = 2 ^ 20 - 1;
          w0 = u32 v0 OR push_bit 8 (u32 v1) OR push_bit 16 (u32 v2);
          w1 = drop_bit 4 (u32 v2) OR push_bit 4 (u32 v3) OR push_bit 12 (u32 v4)
      in [fieldSubToMontgomery b (w0 AND mask20), fieldSubToMontgomery b (w1 AND mask20)] @ unpack20 v)"
| "unpack20 _ = []"

definition bitUnpack18 :: "bytes \<Rightarrow> fieldElement list option" where
  "bitUnpack18 v = (if length v \<noteq> 18 * 256 div 8 then None else Some (unpack18 v))"

definition bitUnpack20 :: "bytes \<Rightarrow> fieldElement list option" where
  "bitUnpack20 v = (if length v \<noteq> 20 * 256 div 8 then None else Some (unpack20 v))"

definition bitUnpack :: "bytes \<Rightarrow> parameters \<Rightarrow> fieldElement list option" where
  "bitUnpack v p =
     (if gamma1 p = 17 then bitUnpack18 v else if gamma1 p = 19 then bitUnpack20 v else None)"

section \<open>Public keys\<close>

fun packT1 :: "uint16 list \<Rightarrow> bytes" where
  "packT1 (c0 # c1 # c2 # c3 # w) =
     [ucast c0, ucast (drop_bit 8 c0 OR push_bit 2 c1), ucast (drop_bit 6 c1 OR push_bit 4 c2),
      ucast (drop_bit 4 c2 OR push_bit 6 c3), ucast (drop_bit 2 c3)] @ packT1 w"
| "packT1 _ = []"

definition pkEncode :: "bytes \<Rightarrow> bytes \<Rightarrow> uint16 list list \<Rightarrow> parameters \<Rightarrow> bytes" where
  "pkEncode buf rho t1 p = buf @ rho @ concat (map packT1 (take (dimK p) t1))"

fun unpackT1 :: "nat \<Rightarrow> bytes \<Rightarrow> uint16 list" where
  "unpackT1 (Suc i) (b0 # b1 # b2 # b3 # b4 # pk) =
     [ucast b0 OR push_bit 8 (ucast (b1 AND 3)), ucast (drop_bit 2 b1) OR push_bit 6 (ucast (b2 AND 15)),
      ucast (drop_bit 4 b2) OR push_bit 4 (ucast (b3 AND 63)), ucast (drop_bit 6 b3) OR push_bit 2 (ucast (b4 AND 255))]
     @ unpackT1 i pk"
| "unpackT1 _ _ = []"

primrec unpackT1Rows :: "nat \<Rightarrow> bytes \<Rightarrow> uint16 list list" where
  "unpackT1Rows 0 pk = []"
| "unpackT1Rows (Suc r) pk = unpackT1 64 pk # unpackT1Rows r (drop (64 * 5) pk)"

datatype mldsa_error =
    ErrInvalidSeedLength
  | ErrInvalidPublicKeyLength
  | ErrContextTooLong
  | ErrMessageHashLength
  | ErrRandomLength
  | ErrInvalidSignatureLength
  | ErrInvalidSignatureCoeffBounds
  | ErrInvalidSignatureChallenge
  | ErrInvalidSignatureHintLimits
  | ErrInvalidSignatureHintIndexOrder
  | ErrInvalidSignatureHintExtraIndices
  | ErrHintLength

definition pkDecode :: "bytes \<Rightarrow> parameters \<Rightarrow> mldsa_error + bytes \<times> uint16 list list" where
  "pkDecode pk p =
     (if length pk \<noteq> pubKeySize p then Inl ErrInvalidPublicKeyLength
      else Inr (take 32 pk, unpackT1Rows (dimK p) (drop 32 pk)))"

section \<open>Hints\<close>

fun hintRow :: "nat \<Rightarrow> bytes \<Rightarrow> byte \<times> bytes \<Rightarrow> (byte \<times> bytes) option" where
  "hintRow j [] (idx, y) = Some (idx, y)"
| "hintRow j (b # row) (idx, y) =
     (if b \<noteq> 0 then
        (if unat idx < length y then hintRow (Suc j) row (idx + 1, y[unat idx := of_nat j]) else None)
      else hintRow (Suc j) row (idx, y))"

fun hintRows :: "nat \<Rightarrow> nat \<Rightarrow> bytes list \<Rightarrow> byte \<times> bytes \<Rightarrow> bytes option" where
  "hintRows w i [] (idx, y) = Some y"
| "hintRows w i (row # h) s =
     Option.bind (hintRow 0 row s) (\<lambda>(idx, y). hintRows w (Suc i) h (idx, y[w + i := idx]))"

definition hintEncode :: "bytes \<Rightarrow> bytes list \<Rightarrow> parameters \<Rightarrow> bytes option" where
  "hintEncode buf h p =
     map_option (\<lambda>y. buf @ y)
       (hintRows (omega p) 0 (take (dimK p) h) (0, replicate (omega p + dimK p) 0))"

lemma unat_Suc_less: "(x :: byte) < m \<Longrightarrow> unat (x + 1) = Suc (unat x)"
proof -
  assume "x < m"
  moreover have "unat m < 256" using unsigned_less [where ?'a = nat, of m] by simp
  ultimately have "unat x + 1 < 256" by (simp add: word_less_nat_alt)
  then show ?thesis by (simp add: unat_word_ariths)
qed

function hintIndices :: "bytes \<Rightarrow> byte \<Rightarrow> byte \<Rightarrow> byte \<Rightarrow> bytes \<Rightarrow> mldsa_error + bytes" where
  "hintIndices y first limit idx row =
     (if idx < limit then
        (if idx > first \<and> y ! unat (idx - 1) \<ge> y ! unat idx then Inl ErrInvalidSignatureHintIndexOrder
         else hintIndices y first limit (idx + 1) (row[unat (y ! unat idx) := 1]))
      else Inr row)"
  by pat_completeness auto

termination
  by (relation "measure (\<lambda>(y, first, limit, idx, row). unat limit - unat idx)")
    (auto simp: unat_Suc_less word_less_nat_alt)

declare hintIndices.simps [simp del]

fun hintLimits :: "bytes \<Rightarrow> nat \<Rightarrow> nat \<Rightarrow> nat \<Rightarrow> byte \<Rightarrow> mldsa_error + byte \<times> bytes list" where
  "hintLimits y w i 0 idx = Inr (idx, [])"
| "hintLimits y w i (Suc k) idx =
     (let limit = y ! (w + i) in
      if limit < idx \<or> limit > of_nat w then Inl ErrInvalidSignatureHintLimits
      else case hintIndices y idx limit idx (replicate 256 0) of
        Inl e \<Rightarrow> Inl e
      | Inr row \<Rightarrow> (case hintLimits y w (Suc i) k limit of
          Inl e \<Rightarrow> Inl e | Inr (idx', h) \<Rightarrow> Inr (idx', row # h)))"

definition hintDecode :: "bytes \<Rightarrow> parameters \<Rightarrow> mldsa_error + bytes list" where
  "hintDecode y p =
     (if length y \<noteq> omega p + dimK p then Inl ErrHintLength
      else case hintLimits y (omega p) 0 (dimK p) 0 of
        Inl e \<Rightarrow> Inl e
      | Inr (idx, h) \<Rightarrow>
          if list_ex (\<lambda>i. y ! i \<noteq> 0) [unat idx..<omega p] then Inl ErrInvalidSignatureHintExtraIndices
          else Inr h)"

section \<open>Signatures\<close>

fun packZ :: "bytes \<Rightarrow> fieldElement list list \<Rightarrow> parameters \<Rightarrow> bytes option" where
  "packZ sig [] p = Some sig"
| "packZ sig (x # zs) p = Option.bind (bitPack sig x p) (\<lambda>sig. packZ sig zs p)"

definition sigEncode :: "bytes \<Rightarrow> fieldElement list list \<Rightarrow> bytes list \<Rightarrow> parameters \<Rightarrow> bytes option" where
  "sigEncode ch zs h p = Option.bind (packZ ch zs p) (\<lambda>sig. hintEncode sig h p)"

primrec unpackZ :: "nat \<Rightarrow> bytes \<Rightarrow> parameters \<Rightarrow> (fieldElement list list \<times> bytes) option" where
  "unpackZ 0 sig p = Some ([], sig)"
| "unpackZ (Suc i) sig p =
     (let len = (gamma1 p + 1) * 256 div 8 in
      Option.bind (bitUnpack (take len sig) p) (\<lambda>x.
      map_option (\<lambda>(zs, rest). (x # zs, rest)) (unpackZ i (drop len sig) p)))"

definition sigDecode ::
    "bytes \<Rightarrow> parameters \<Rightarrow> (mldsa_error + bytes \<times> fieldElement list list \<times> bytes list) option" where
  "sigDecode sig p =
     (if length sig \<noteq> sigSize p then Some (Inl ErrInvalidSignatureLength)
      else map_option (\<lambda>(zs, rest).
          case hintDecode rest p of
            Inl e \<Rightarrow> Inl e
          | Inr h \<Rightarrow> Inr (take (lambda p div 4) sig, zs, h))
        (unpackZ (dimL p) (drop (lambda p div 4) sig) p))"

section \<open>The commitment\<close>

fun w1Pack32 :: "bytes \<Rightarrow> bytes" where
  "w1Pack32 (b0 # b1 # w) = (b0 OR push_bit 4 b1) # w1Pack32 w"
| "w1Pack32 _ = []"

fun w1Pack88 :: "bytes \<Rightarrow> bytes" where
  "w1Pack88 (b0 # b1 # b2 # b3 # w) =
     [b0 OR push_bit 6 b1, drop_bit 2 b1 OR push_bit 4 b2, drop_bit 4 b2 OR push_bit 2 b3] @ w1Pack88 w"
| "w1Pack88 _ = []"

definition w1Encode :: "bytes \<Rightarrow> bytes \<Rightarrow> parameters \<Rightarrow> bytes option" where
  "w1Encode H w p =
     (if gamma2 p = 32 then Some (H @ w1Pack32 w)
      else if gamma2 p = 88 then Some (H @ w1Pack88 w) else None)"


section \<open>Coefficients are packed without loss\<close>

lemma bit_byteOf: "bit (byteOf w) n \<longleftrightarrow> n < 8 \<and> bit w n"
  by (simp add: byteOf_def bit_word_of_int_iff)

lemma bit_u32: "bit (u32 v) n \<longleftrightarrow> bit v n"
  by (auto simp: u32_def bit_ucast_iff dest: bit_imp_le_length)

lemma small_bits:
  assumes "0 \<le> (w :: int)" "w < 2 ^ m" "bit w n" shows "n < m"
proof (rule ccontr)
  assume "\<not> n < m"
  then have "(2 :: int) ^ m \<le> 2 ^ n" by simp
  with assms(1,2) have "w div 2 ^ n = 0" by (intro div_pos_pos_trivial) linarith+
  with assms(3) show False by (simp add: bit_iff_odd)
qed

lemma and_mask_word: "x AND (2 ^ m - 1) = take_bit m (x :: uint32)"
  by (simp add: take_bit_eq_mask mask_eq_exp_minus_1)

text \<open>
  A coefficient of \<open>m\<close> bits lies in three consecutive bytes: its low \<open>8 - a\<close> bits in the upper
  part of the first, the next eight in the second and the remaining bits in the lower part of
  the third.
\<close>

definition straddles :: "nat \<Rightarrow> nat \<Rightarrow> int \<Rightarrow> byte \<Rightarrow> byte \<Rightarrow> byte \<Rightarrow> bool" where
  "straddles m a w lo mid hi \<longleftrightarrow>
     (\<forall>n < 8 - a. bit lo (n + a) \<longleftrightarrow> bit w n) \<and> (\<forall>n < 8. bit mid n \<longleftrightarrow> bit w (8 - a + n)) \<and>
     (\<forall>n < m - (16 - a). bit hi n \<longleftrightarrow> bit w (16 - a + n))"

definition joined :: "nat \<Rightarrow> nat \<Rightarrow> byte \<Rightarrow> byte \<Rightarrow> byte \<Rightarrow> uint32" where
  "joined m a lo mid hi =
     (drop_bit a (u32 lo) OR push_bit (8 - a) (u32 mid) OR push_bit (16 - a) (u32 hi)) AND (2 ^ m - 1)"

lemma bit_joined:
  assumes "a < 8" "m \<le> 24 - a" "n < 32"
  shows "bit (joined m a lo mid hi) n \<longleftrightarrow> n < m \<and>
    (if n < 8 - a then bit lo (n + a) else if n < 16 - a then bit mid (n - (8 - a)) else bit hi (n - (16 - a)))"
proof -
  have lo: "\<not> bit lo i" if "8 \<le> i" for i using that by (auto dest: bit_imp_le_length)
  have mid: "\<not> bit mid i" if "8 \<le> i" for i using that by (auto dest: bit_imp_le_length)
  have "bit (joined m a lo mid hi) n \<longleftrightarrow> n < m \<and>
      (bit lo (n + a) \<or> 8 - a \<le> n \<and> bit mid (n - (8 - a)) \<or> 16 - a \<le> n \<and> bit hi (n - (16 - a)))"
    using assms(3) unfolding joined_def and_mask_word
    by (auto simp: bit_u32 bit_take_bit_iff bit_or_iff bit_push_bit_iff bit_drop_bit_eq add.commute)
  moreover have "\<not> bit lo (n + a)" if "\<not> n < 8 - a" using that assms(1) by (intro lo) simp
  moreover have "\<not> bit mid (n - (8 - a))" if "\<not> n < 16 - a" using that assms(1) by (intro mid) simp
  ultimately show ?thesis using assms(1) by auto
qed

lemma joined_straddles:
  assumes "a < 8" "16 \<le> m" "m \<le> 24 - a" "0 \<le> w" "w < 2 ^ m" "straddles m a w lo mid hi"
  shows "joined m a lo mid hi = word_of_int w"
proof (rule bit_word_eqI)
  fix n assume "n < LENGTH(32)"
  then have n: "n < 32" by simp
  have lo: "bit lo (n + a) \<longleftrightarrow> bit w n" if "n < 8 - a" using that assms(6) by (simp add: straddles_def)
  have mid: "bit mid (n - (8 - a)) \<longleftrightarrow> bit w n" if "\<not> n < 8 - a" "n < 16 - a"
  proof -
    have "n - (8 - a) < 8" using that assms(1) by linarith
    then have "bit mid (n - (8 - a)) \<longleftrightarrow> bit w (8 - a + (n - (8 - a)))" using assms(6) by (simp only: straddles_def)
    then show ?thesis using that by simp
  qed
  have hi: "bit hi (n - (16 - a)) \<longleftrightarrow> bit w n" if "\<not> n < 16 - a" "n < m"
  proof -
    have "n - (16 - a) < m - (16 - a)" using that by linarith
    then have "bit hi (n - (16 - a)) \<longleftrightarrow> bit w (16 - a + (n - (16 - a)))" using assms(6) by (simp only: straddles_def)
    then show ?thesis using that by simp
  qed
  show "bit (joined m a lo mid hi) n \<longleftrightarrow> bit (word_of_int w :: uint32) n"
    unfolding bit_joined [OF assms(1,3) n] bit_word_of_int_iff
    using lo mid hi n small_bits [OF assms(4,5), of n] by auto
qed

lemmas packed_bits = bit_byteOf bit_or_iff bit_push_bit_iff bit_drop_bit_eq

lemma unpack18_joined:
  "unpack18 (v0 # v1 # v2 # v3 # v4 # v5 # v6 # v7 # v8 # v) =
     map (fieldSubToMontgomery (2 ^ 17)) [joined 18 0 v0 v1 v2, joined 18 2 v2 v3 v4, joined 18 4 v4 v5 v6, joined 18 6 v6 v7 v8]
     @ unpack18 v"
  by (simp add: joined_def Let_def)

lemma unpack20_joined:
  "unpack20 (v0 # v1 # v2 # v3 # v4 # v) =
     map (fieldSubToMontgomery (2 ^ 19)) [joined 20 0 v0 v1 v2, joined 20 4 v2 v3 v4] @ unpack20 v"
  by (simp add: joined_def Let_def)

lemma straddles_first:
  assumes "m \<le> 24" "b = m - 16"
  shows "straddles m 0 w (byteOf w) (byteOf (drop_bit 8 w)) (byteOf (drop_bit 16 w) OR byteOf (push_bit b x))"
  using assms by (auto simp: straddles_def packed_bits)

lemma straddles_mid:
  assumes "0 \<le> x" "x < 2 ^ (c + a)" "a < 8" "m \<le> 24 - a" "d = 8 - a" "e = 16 - a" "b = m - e"
  shows "straddles m a w (byteOf (drop_bit c x) OR byteOf (push_bit a w)) (byteOf (drop_bit d w))
      (byteOf (drop_bit e w) OR byteOf (push_bit b y))"
    and "straddles m a w (byteOf (drop_bit c x) OR byteOf (push_bit a w)) (byteOf (drop_bit d w)) (byteOf (drop_bit e w))"
proof -
  have "\<not> bit x (c + (n + a))" for n using small_bits [OF assms(1,2), of "c + (n + a)"] by auto
  then show "straddles m a w (byteOf (drop_bit c x) OR byteOf (push_bit a w)) (byteOf (drop_bit d w))
      (byteOf (drop_bit e w) OR byteOf (push_bit b y))"
    and "straddles m a w (byteOf (drop_bit c x) OR byteOf (push_bit a w)) (byteOf (drop_bit d w)) (byteOf (drop_bit e w))"
    using assms(3-) by (auto simp: straddles_def packed_bits)
qed

text \<open>Coefficients that the encoding with the offset \<open>2\<^sup>b\<close> can represent.\<close>

definition packable :: "nat \<Rightarrow> fieldElement \<Rightarrow> bool" where
  "packable b r \<longleftrightarrow> reduced r \<and> - (2 ^ b) < centered (val r) \<and> centered (val r) \<le> 2 ^ b"

lemma packable_offset:
  assumes "packable b r" "b \<le> 20"
  shows "0 \<le> 2 ^ b - fieldCenteredMod r" "2 ^ b - fieldCenteredMod r < 2 ^ Suc b"
    and "fieldSubToMontgomery (2 ^ b) (word_of_int (2 ^ b - fieldCenteredMod r)) = r"
proof -
  define c w where "c = centered (val r)" and "w = 2 ^ b - c"
  have r: "reduced r" and c: "fieldCenteredMod r = c" using assms(1) by (simp_all add: packable_def centeredMod c_def)
  have b: "(2 :: nat) ^ b \<le> 2 ^ 20" "(2 :: int) ^ b \<le> 2 ^ 20" using assms(2) by (intro power_increasing; simp)+
  have w: "0 \<le> w" "w < 2 ^ Suc b" using assms(1) by (simp_all add: packable_def w_def c_def)
  then have w2: "w < 2 ^ 21" using b(2) by simp
  show "0 \<le> 2 ^ b - fieldCenteredMod r" "2 ^ b - fieldCenteredMod r < 2 ^ Suc b"
    using w by (simp_all add: c w_def)
  have uw: "int (unat (word_of_int w :: uint32)) = w"
    using w(1) w2 by (simp add: unsigned_of_int take_bit_int_eq_self)
  have ub: "unat (2 ^ b :: uint32) = 2 ^ b"
    using unat_of_nat_small32 [of "2 ^ b"] b(1) by simp
  show "fieldSubToMontgomery (2 ^ b) (word_of_int (2 ^ b - fieldCenteredMod r)) = r"
    unfolding c w_def [symmetric]
  proof -
    have a: "unat (2 ^ b :: uint32) < 2 ^ 31" unfolding ub using b(1) by simp
    have "w < 8380417" using w2 by simp
    then have "unat (word_of_int w :: uint32) < 8380417" using uw by linarith
    then have red: "reduced (word_of_int w)" by (simp only: reduced_def)
    note m = subToMontgomery [OF a red]
    have "val (fieldSubToMontgomery (2 ^ b) (word_of_int w)) = of_int (2 ^ b - w)"
      unfolding m(2) ub of_int_diff
      by (subst uw [symmetric]) (simp only: of_int_of_nat_eq of_nat_power of_nat_numeral of_int_power of_int_numeral)
    also have "\<dots> = val r" unfolding w_def c_def by (simp add: of_int_centered)
    finally show "fieldSubToMontgomery (2 ^ b) (word_of_int w) = r" by (simp only: val_inject [OF m(1) r])
  qed
qed

lemma joined_less:
  assumes "a < 8" "m \<le> 24 - a" shows "unat (joined m a lo mid hi) < 2 ^ m"
proof -
  have "joined m a lo mid hi = take_bit m (joined m a lo mid hi)"
    by (simp add: joined_def and_mask_word)
  then have "unat (joined m a lo mid hi) = unat (take_bit m (joined m a lo mid hi))" by (rule arg_cong)
  also have "\<dots> = take_bit m (unat (joined m a lo mid hi))"
    using assms(2) by (simp add: unsigned_take_bit_eq)
  finally show ?thesis using take_bit_nat_less_exp [of m "unat (joined m a lo mid hi)"] by simp
qed

lemma unpacked_offset:
  assumes "unat x < 2 ^ Suc b" "b \<le> 20"
  shows "packable b (fieldSubToMontgomery (2 ^ b) x)"
    and "2 ^ b - fieldCenteredMod (fieldSubToMontgomery (2 ^ b) x) = int (unat x)"
proof -
  have b: "(2 :: nat) ^ b \<le> 2 ^ 20" using assms(2) by (intro power_increasing) simp_all
  have ub: "unat (2 ^ b :: uint32) = 2 ^ b"
    using unat_of_nat_small32 [of "2 ^ b"] b by simp
  have a: "unat (2 ^ b :: uint32) < 2 ^ 31" unfolding ub using b by simp
  have "unat x < 2 * 2 ^ 20" using assms(1) b by (simp only: power_Suc)
  then have red: "reduced x" by (simp add: reduced_def)
  note m = subToMontgomery [OF a red]
  define c where "c = 2 ^ b - int (unat x)"
  have "int (unat x) < int (2 * 2 ^ b)" using assms(1) by (simp only: of_nat_less_iff power_Suc)
  then have lim1: "int (unat x) < 2 * 2 ^ b" by (simp only: of_nat_mult of_nat_power of_nat_numeral)
  have "(2 :: int) ^ b \<le> 2 ^ 20" using assms(2) by (intro power_increasing) simp_all
  then have lim2: "(2 :: int) ^ b \<le> 1048576" by simp
  note lim = lim1 lim2
  have c: "centered (val (fieldSubToMontgomery (2 ^ b) x)) = c"
  proof (rule centered_unique)
    show "of_int c = val (fieldSubToMontgomery (2 ^ b) x)"
      unfolding m(2) ub c_def
      by (simp only: of_int_diff of_int_of_nat_eq of_nat_power of_nat_numeral of_int_power of_int_numeral)
    show "- 4190208 \<le> c" "c \<le> 4190208" using lim unfolding c_def by linarith+
  qed
  show "packable b (fieldSubToMontgomery (2 ^ b) x)"
    unfolding packable_def c using m(1) lim unfolding c_def by linarith
  show "2 ^ b - fieldCenteredMod (fieldSubToMontgomery (2 ^ b) x) = int (unat x)"
    unfolding centeredMod [OF m(1)] c by (simp add: c_def)
qed

lemma dvd_4_Suc [simp]:
  "4 dvd Suc (Suc (Suc (Suc n))) \<longleftrightarrow> 4 dvd n" "\<not> 4 dvd Suc (Suc 0)" "\<not> 4 dvd Suc (Suc (Suc 0))"
  by presburger+

lemma unpack_pack18:
  assumes "list_all (packable 17) r" "4 dvd length r"
  shows "unpack18 (pack18 r) = r"
  using assms
proof (induction r rule: pack18.induct)
  case (1 r0 r1 r2 r3 r)
  define w where "w x = 2 ^ 17 - fieldCenteredMod x" for x
  have o: "0 \<le> w x" "w x < 2 ^ 18" "fieldSubToMontgomery (2 ^ 17) (word_of_int (w x)) = x" if "packable 17 x" for x
    using packable_offset [OF that] by (simp_all add: w_def)
  have p: "packable 17 r0" "packable 17 r1" "packable 17 r2" "packable 17 r3" "list_all (packable 17) r" "4 dvd length r"
    using 1 by simp_all
  have j: "joined 18 0 (byteOf (w r0)) (byteOf (drop_bit 8 (w r0))) (byteOf (drop_bit 16 (w r0)) OR byteOf (push_bit 2 (w r1)))
      = word_of_int (w r0)"
    "joined 18 2 (byteOf (drop_bit 16 (w r0)) OR byteOf (push_bit 2 (w r1))) (byteOf (drop_bit 6 (w r1)))
      (byteOf (drop_bit 14 (w r1)) OR byteOf (push_bit 4 (w r2))) = word_of_int (w r1)"
    "joined 18 4 (byteOf (drop_bit 14 (w r1)) OR byteOf (push_bit 4 (w r2))) (byteOf (drop_bit 4 (w r2)))
      (byteOf (drop_bit 12 (w r2)) OR byteOf (push_bit 6 (w r3))) = word_of_int (w r2)"
    "joined 18 6 (byteOf (drop_bit 12 (w r2)) OR byteOf (push_bit 6 (w r3))) (byteOf (drop_bit 2 (w r3)))
      (byteOf (drop_bit 10 (w r3))) = word_of_int (w r3)"
    using o(1,2) p(1-4) by (intro joined_straddles straddles_first straddles_mid; simp)+
  have pk: "pack18 (r0 # r1 # r2 # r3 # r) =
      [byteOf (w r0), byteOf (drop_bit 8 (w r0)),
       byteOf (drop_bit 16 (w r0)) OR byteOf (push_bit 2 (w r1)), byteOf (drop_bit 6 (w r1)),
       byteOf (drop_bit 14 (w r1)) OR byteOf (push_bit 4 (w r2)), byteOf (drop_bit 4 (w r2)),
       byteOf (drop_bit 12 (w r2)) OR byteOf (push_bit 6 (w r3)), byteOf (drop_bit 2 (w r3)),
       byteOf (drop_bit 10 (w r3))] @ pack18 r"
    by (simp add: Let_def w_def)
  have ih: "unpack18 (pack18 r) = r" by (rule 1(1)) (simp_all add: p(5,6))
  show ?case unfolding pk append_Cons append_Nil unpack18_joined j list.map
    by (simp only: o(3) p(1-4) ih append_Cons append_Nil)
qed auto

lemma unpack_pack20:
  assumes "list_all (packable 19) r" "2 dvd length r"
  shows "unpack20 (pack20 r) = r"
  using assms
proof (induction r rule: pack20.induct)
  case (1 r0 r1 r)
  define w where "w x = 2 ^ 19 - fieldCenteredMod x" for x
  have o: "0 \<le> w x" "w x < 2 ^ 20" "fieldSubToMontgomery (2 ^ 19) (word_of_int (w x)) = x" if "packable 19 x" for x
    using packable_offset [OF that] by (simp_all add: w_def)
  have p: "packable 19 r0" "packable 19 r1" "list_all (packable 19) r" "2 dvd length r"
    using 1 by simp_all
  have j: "joined 20 0 (byteOf (w r0)) (byteOf (drop_bit 8 (w r0))) (byteOf (drop_bit 16 (w r0)) OR byteOf (push_bit 4 (w r1)))
      = word_of_int (w r0)"
    "joined 20 4 (byteOf (drop_bit 16 (w r0)) OR byteOf (push_bit 4 (w r1))) (byteOf (drop_bit 4 (w r1)))
      (byteOf (drop_bit 12 (w r1))) = word_of_int (w r1)"
    using o(1,2) p(1,2) by (intro joined_straddles straddles_first straddles_mid; simp)+
  have pk: "pack20 (r0 # r1 # r) =
      [byteOf (w r0), byteOf (drop_bit 8 (w r0)),
       byteOf (drop_bit 16 (w r0)) OR byteOf (push_bit 4 (w r1)), byteOf (drop_bit 4 (w r1)),
       byteOf (drop_bit 12 (w r1))] @ pack20 r"
    by (simp add: Let_def w_def)
  have ih: "unpack20 (pack20 r) = r" by (rule 1(1)) (simp_all add: p(3,4))
  show ?case unfolding pk append_Cons append_Nil unpack20_joined j list.map
    by (simp only: o(3) p(1,2) ih append_Cons append_Nil)
qed auto

lemma length_pack18: "4 dvd length r \<Longrightarrow> 4 * length (pack18 r) = 9 * length r"
  by (induction r rule: pack18.induct) (auto simp: Let_def)

lemma length_pack20: "2 dvd length r \<Longrightarrow> 2 * length (pack20 r) = 5 * length r"
  by (induction r rule: pack20.induct) (auto simp: Let_def)

text \<open>The other direction: every byte string of the right length is the packing of what it unpacks to.\<close>

lemma joined_bits:
  fixes lo mid hi :: byte
  assumes "a < 8" "16 \<le> m" "m \<le> 24 - a"
  defines "J \<equiv> uint (joined m a lo mid hi)"
  shows "n < 8 - a \<Longrightarrow> bit J n \<longleftrightarrow> bit lo (n + a)"
    and "n < 8 \<Longrightarrow> bit J (8 - a + n) \<longleftrightarrow> bit mid n"
    and "n < m - (16 - a) \<Longrightarrow> bit J (16 - a + n) \<longleftrightarrow> bit hi n"
    and "m \<le> n \<Longrightarrow> \<not> bit J n"
proof -
  have J: "bit J i \<longleftrightarrow> i < m \<and>
    (if i < 8 - a then bit lo (i + a) else if i < 16 - a then bit mid (i - (8 - a)) else bit hi (i - (16 - a)))" for i
    using bit_joined [OF assms(1,3), of i lo mid hi] assms(1-3) unfolding J_def by (auto simp: bit_uint_iff)
  show "n < 8 - a \<Longrightarrow> bit J n \<longleftrightarrow> bit lo (n + a)" unfolding J using assms(2) by auto
  show "n < 8 \<Longrightarrow> bit J (8 - a + n) \<longleftrightarrow> bit mid n" unfolding J using assms(1,2)
    by (simp only: add_diff_cancel_left') auto
  show "n < m - (16 - a) \<Longrightarrow> bit J (16 - a + n) \<longleftrightarrow> bit hi n" unfolding J using assms(1)
    by (simp only: add_diff_cancel_left') auto
  show "m \<le> n \<Longrightarrow> \<not> bit J n" unfolding J by simp
qed

lemma split_joined_low:
  assumes "16 \<le> m" "m \<le> 24"
  shows "byteOf (uint (joined m 0 lo mid hi)) = lo"
  by (rule bit_word_eqI) (use joined_bits(1) [of 0 m] assms in \<open>simp add: packed_bits\<close>)

lemma split_joined_bytes:
  assumes "a < 8" "m \<le> 24 - a" "16 \<le> m"
  shows "d = 8 - a \<Longrightarrow> byteOf (drop_bit d (uint (joined m a lo mid hi))) = mid"
    and "e = 16 - a \<Longrightarrow> m = 24 - a \<Longrightarrow> byteOf (drop_bit e (uint (joined m a lo mid hi))) = hi"
  by (rule bit_word_eqI; use joined_bits(2,3) [of a m] assms in \<open>simp add: packed_bits\<close>)+

lemma split_joined_shared:
  assumes "a < 8" "b < 8" "m \<le> 24 - a" "m \<le> 24 - b" "16 \<le> m" "e = 16 - a" "m = e + b"
  shows "byteOf (drop_bit e (uint (joined m a lo mid h))) OR byteOf (push_bit b (uint (joined m b h mid' hi))) = h"
proof (rule bit_word_eqI)
  fix n assume "n < LENGTH(8)"
  then have n: "n < 8" by simp
  have b: "b = m - (16 - a)" using assms(6,7) by simp
  have "bit (uint (joined m a lo mid h)) (e + n) \<longleftrightarrow> n < b \<and> bit h n"
    using joined_bits(3) [OF assms(1,5,3), of n lo mid h] joined_bits(4) [OF assms(1,5,3), of "e + n" lo mid h]
    unfolding b [symmetric] assms(6) [symmetric] using assms(7) by (cases "n < b") simp_all
  moreover have "bit (uint (joined m b h mid' hi)) (n - b) \<longleftrightarrow> bit h n" if "b \<le> n"
    using joined_bits(1) [OF assms(2,5,4), of "n - b" h mid' hi] that n by simp
  ultimately show "bit (byteOf (drop_bit e (uint (joined m a lo mid h))) OR
      byteOf (push_bit b (uint (joined m b h mid' hi)))) n \<longleftrightarrow> bit h n"
    using n by (auto simp: packed_bits)
qed

lemma pack_unpack18:
  assumes "9 dvd length v"
  shows "pack18 (unpack18 v) = v \<and> list_all (packable 17) (unpack18 v) \<and> 9 * length (unpack18 v) = 4 * length v"
  using assms
proof (induction v rule: unpack18.induct)
  case (1 v0 v1 v2 v3 v4 v5 v6 v7 v8 v)
  define W where "W a lo mid hi = joined 18 a lo mid hi" for a lo mid hi
  have o: "packable 17 (fieldSubToMontgomery (2 ^ 17) (W a lo mid hi))"
    "2 ^ 17 - fieldCenteredMod (fieldSubToMontgomery (2 ^ 17) (W a lo mid hi)) = uint (W a lo mid hi)"
    if "a \<le> 6" for a lo mid hi
    using unpacked_offset [of "W a lo mid hi" 17] joined_less [of a 18 lo mid hi] that by (simp_all add: W_def)
  have o2: "2 ^ 17 - fieldCenteredMod (fieldSubToMontgomery (2 ^ 17) (W 0 lo mid hi)) = uint (W 0 lo mid hi)"
    "2 ^ 17 - fieldCenteredMod (fieldSubToMontgomery (2 ^ 17) (W 2 lo mid hi)) = uint (W 2 lo mid hi)"
    "2 ^ 17 - fieldCenteredMod (fieldSubToMontgomery (2 ^ 17) (W 4 lo mid hi)) = uint (W 4 lo mid hi)"
    "2 ^ 17 - fieldCenteredMod (fieldSubToMontgomery (2 ^ 17) (W 6 lo mid hi)) = uint (W 6 lo mid hi)" for lo mid hi
    by (rule o(2); simp)+
  have d: "9 dvd length v" using 1(2) by (simp add: dvd_def) presburger
  have ih: "pack18 (unpack18 v) = v" "list_all (packable 17) (unpack18 v)" "9 * length (unpack18 v) = 4 * length v"
    using 1(1) [OF _ _ _ _ _ _ d] by simp_all
  have u: "unpack18 (v0 # v1 # v2 # v3 # v4 # v5 # v6 # v7 # v8 # v) =
      fieldSubToMontgomery (2 ^ 17) (W 0 v0 v1 v2) # fieldSubToMontgomery (2 ^ 17) (W 2 v2 v3 v4) #
      fieldSubToMontgomery (2 ^ 17) (W 4 v4 v5 v6) # fieldSubToMontgomery (2 ^ 17) (W 6 v6 v7 v8) # unpack18 v"
    unfolding unpack18_joined W_def list.map append_Cons append_Nil ..
  have p: "pack18 (unpack18 (v0 # v1 # v2 # v3 # v4 # v5 # v6 # v7 # v8 # v)) = v0 # v1 # v2 # v3 # v4 # v5 # v6 # v7 # v8 # v"
    unfolding u pack18.simps Let_def o2 ih unfolding W_def append_Cons append_Nil
    by (intro arg_cong2 [where f = Cons] refl split_joined_low split_joined_bytes split_joined_shared) simp_all
  show ?case using p ih o(1) unfolding u by simp
qed (auto dest: dvd_imp_le)

lemma pack_unpack20:
  assumes "5 dvd length v"
  shows "pack20 (unpack20 v) = v \<and> list_all (packable 19) (unpack20 v) \<and> 5 * length (unpack20 v) = 2 * length v"
  using assms
proof (induction v rule: unpack20.induct)
  case (1 v0 v1 v2 v3 v4 v)
  define W where "W a lo mid hi = joined 20 a lo mid hi" for a lo mid hi
  have o: "packable 19 (fieldSubToMontgomery (2 ^ 19) (W a lo mid hi))"
    "2 ^ 19 - fieldCenteredMod (fieldSubToMontgomery (2 ^ 19) (W a lo mid hi)) = uint (W a lo mid hi)"
    if "a \<le> 4" for a lo mid hi
    using unpacked_offset [of "W a lo mid hi" 19] joined_less [of a 20 lo mid hi] that by (simp_all add: W_def)
  have o2: "2 ^ 19 - fieldCenteredMod (fieldSubToMontgomery (2 ^ 19) (W 0 lo mid hi)) = uint (W 0 lo mid hi)"
    "2 ^ 19 - fieldCenteredMod (fieldSubToMontgomery (2 ^ 19) (W 4 lo mid hi)) = uint (W 4 lo mid hi)" for lo mid hi
    by (rule o(2); simp)+
  have d: "5 dvd length v" using 1(2) by (simp add: dvd_def) presburger
  have ih: "pack20 (unpack20 v) = v" "list_all (packable 19) (unpack20 v)" "5 * length (unpack20 v) = 2 * length v"
    using 1(1) [OF _ _ _ _ d] by simp_all
  have u: "unpack20 (v0 # v1 # v2 # v3 # v4 # v) =
      fieldSubToMontgomery (2 ^ 19) (W 0 v0 v1 v2) # fieldSubToMontgomery (2 ^ 19) (W 4 v2 v3 v4) # unpack20 v"
    unfolding unpack20_joined W_def list.map append_Cons append_Nil ..
  have p: "pack20 (unpack20 (v0 # v1 # v2 # v3 # v4 # v)) = v0 # v1 # v2 # v3 # v4 # v"
    unfolding u pack20.simps Let_def o2 ih unfolding W_def append_Cons append_Nil
    by (intro arg_cong2 [where f = Cons] refl split_joined_low split_joined_bytes split_joined_shared) simp_all
  show ?case using p ih o(1) unfolding u by simp
qed (auto dest: dvd_imp_le)

section \<open>Public keys are packed without loss\<close>

definition tenBits :: "uint16 \<Rightarrow> bool" where
  "tenBits c \<longleftrightarrow> unat c \<le> 1023"

lemma tenBits_bit: "tenBits c \<Longrightarrow> bit c n \<Longrightarrow> n < 10"
proof -
  assume "tenBits c" "bit c n"
  have b: "bit (uint c) n" using \<open>bit c n\<close> bit_imp_le_length [OF \<open>bit c n\<close>] by (simp add: bit_uint_iff)
  have "int (unat c) \<le> 1023" using \<open>tenBits c\<close> unfolding tenBits_def by linarith
  then have "uint c < 2 ^ 10" by simp
  then show ?thesis using small_bits [OF _ _ b, of 10] by simp
qed

lemma byte_masks: "b AND 3 = take_bit 2 b" "b AND 15 = take_bit 4 b" "b AND 63 = take_bit 6 b" "b AND 255 = b" for b :: byte
proof -
  have "(3 :: byte) = mask 2" "(15 :: byte) = mask 4" "(63 :: byte) = mask 6" by (simp_all add: mask_eq_exp_minus_1)
  then show "b AND 3 = take_bit 2 b" "b AND 15 = take_bit 4 b" "b AND 63 = take_bit 6 b"
    by (simp_all add: take_bit_eq_mask)
  have "b AND 255 = take_bit 8 b" by (simp add: take_bit_eq_mask mask_eq_exp_minus_1)
  then show "b AND 255 = b" using take_bit_length_eq [of b] by simp
qed

lemma join_pair:
  fixes lo hi :: byte and c :: uint16
  assumes "a < 8" "tenBits c" "\<And>n. n < 8 - a \<Longrightarrow> bit lo (n + a) \<longleftrightarrow> bit c n"
    and "\<And>n. n < a + 2 \<Longrightarrow> bit hi n \<longleftrightarrow> bit c (8 - a + n)" and "d = 8 - a" "e = a + 2"
  shows "ucast (drop_bit a lo) OR push_bit d (ucast (take_bit e hi)) = c"
proof (rule bit_word_eqI)
  fix n assume "n < LENGTH(16)"
  then have n: "n < 16" by simp
  have lo: "\<not> bit lo i" if "8 \<le> i" for i using that by (auto dest: bit_imp_le_length)
  have "bit (ucast (drop_bit a lo) :: uint16) n \<longleftrightarrow> n < d \<and> bit c n"
    using assms(3) [of n] lo [of "n + a"] n assms(5) by (cases "n < d") (auto simp: bit_simps add.commute)
  moreover have "bit (push_bit d (ucast (take_bit e hi)) :: uint16) n \<longleftrightarrow> d \<le> n \<and> n < 10 \<and> bit c n"
  proof (cases "d \<le> n \<and> n < 10")
    case True
    then have "n - d < e" using assms(1,5,6) by linarith
    then have "bit hi (n - d) \<longleftrightarrow> bit c n" using assms(4) [of "n - d"] True assms(5,6) by simp
    then show ?thesis using True \<open>n - d < e\<close> n by (auto simp: bit_simps)
  next
    case False
    then have "\<not> n - d < e" if "d \<le> n" using that assms(1,5,6) by linarith
    then show ?thesis using False by (auto simp: bit_simps)
  qed
  ultimately show "bit (ucast (drop_bit a lo) OR push_bit d (ucast (take_bit e hi)) :: uint16) n \<longleftrightarrow> bit c n"
    using tenBits_bit [OF assms(2), of n] by (auto simp: bit_or_iff)
qed

lemma bit_packed_pair:
  "bit (ucast (drop_bit x c OR push_bit y d) :: byte) n \<longleftrightarrow> n < 8 \<and> (bit (c :: uint16) (x + n) \<or> y \<le> n \<and> bit (d :: uint16) (n - y))"
  by (auto simp: bit_simps dest: bit_imp_le_length)

lemma unpackT1_block:
  assumes "tenBits c0" "tenBits c1" "tenBits c2" "tenBits c3"
  defines "b0 \<equiv> ucast c0 :: byte" and "b1 \<equiv> ucast (drop_bit 8 c0 OR push_bit 2 c1) :: byte"
    and "b2 \<equiv> ucast (drop_bit 6 c1 OR push_bit 4 c2) :: byte"
    and "b3 \<equiv> ucast (drop_bit 4 c2 OR push_bit 6 c3) :: byte" and "b4 \<equiv> ucast (drop_bit 2 c3) :: byte"
  shows "ucast b0 OR push_bit 8 (ucast (b1 AND 3)) = c0"
    and "ucast (drop_bit 2 b1) OR push_bit 6 (ucast (b2 AND 15)) = c1"
    and "ucast (drop_bit 4 b2) OR push_bit 4 (ucast (b3 AND 63)) = c2"
    and "ucast (drop_bit 6 b3) OR push_bit 2 (ucast (b4 AND 255)) = c3"
proof -
  have bits: "\<not> bit c0 (8 + (n + 2))" "\<not> bit c1 (6 + (n + 4))" "\<not> bit c2 (4 + (n + 6))" for n
    using tenBits_bit [OF assms(1), of "8 + (n + 2)"] tenBits_bit [OF assms(2), of "6 + (n + 4)"]
      tenBits_bit [OF assms(3), of "4 + (n + 6)"] by auto
  have b0: "bit b0 n \<longleftrightarrow> n < 8 \<and> bit c0 n" and b4: "bit b4 n \<longleftrightarrow> n < 8 \<and> bit c3 (2 + n)" for n
    by (auto simp: b0_def b4_def bit_simps)
  note b = bit_packed_pair [of 8 c0 2 c1, folded b1_def] bit_packed_pair [of 6 c1 4 c2, folded b2_def]
    bit_packed_pair [of 4 c2 6 c3, folded b3_def]
  have "ucast (drop_bit 0 b0) OR push_bit 8 (ucast (take_bit 2 b1)) = c0"
    by (rule join_pair) (use assms(1) in \<open>simp_all add: b0 b\<close>)
  then show "ucast b0 OR push_bit 8 (ucast (b1 AND 3)) = c0" by (simp add: byte_masks)
  show "ucast (drop_bit 2 b1) OR push_bit 6 (ucast (b2 AND 15)) = c1"
    unfolding byte_masks by (rule join_pair) (use assms(2) bits(1) in \<open>simp_all add: b del: add_2_eq_Suc'\<close>)
  show "ucast (drop_bit 4 b2) OR push_bit 4 (ucast (b3 AND 63)) = c2"
    unfolding byte_masks by (rule join_pair) (use assms(3) bits(2) in \<open>simp_all add: b\<close>)
  have "ucast (drop_bit 6 b3) OR push_bit 2 (ucast (take_bit 8 b4)) = c3"
    by (rule join_pair) (use assms(4) bits(3) in \<open>simp_all add: b b4\<close>)
  moreover have "take_bit 8 b4 = b4" using take_bit_length_eq [of b4] by simp
  ultimately show "ucast (drop_bit 6 b3) OR push_bit 2 (ucast (b4 AND 255)) = c3" by (simp add: byte_masks)
qed

lemma unpackT1_packT1:
  assumes "list_all tenBits w" "length w = 4 * n" shows "unpackT1 n (packT1 w @ rest) = w"
  using assms
proof (induction w arbitrary: n rule: packT1.induct)
  case (1 c0 c1 c2 c3 w)
  then obtain m where n: "n = Suc m" by (cases n) auto
  have t: "tenBits c0" "tenBits c1" "tenBits c2" "tenBits c3" "unpackT1 m (packT1 w @ rest) = w"
    using 1 by (simp_all add: n)
  show ?case unfolding n packT1.simps append_Cons append_Nil unpackT1.simps unpackT1_block [OF t(1-4)] t(5) ..
qed (simp_all, presburger+)

lemma length_packT1: "4 dvd length w \<Longrightarrow> 4 * length (packT1 w) = 5 * length w"
  by (induction w rule: packT1.induct) auto

definition wf_t1 :: "uint16 list list \<Rightarrow> bool" where
  "wf_t1 t1 \<longleftrightarrow> list_all (\<lambda>w. length w = 256 \<and> list_all tenBits w) t1"

lemma unpackT1Rows_packT1:
  assumes "wf_t1 t1" shows "unpackT1Rows (length t1) (concat (map packT1 t1) @ rest) = t1"
  using assms
proof (induction t1)
  case (Cons w t1)
  have w: "length w = 256" "list_all tenBits w" "wf_t1 t1" using Cons.prems by (simp_all add: wf_t1_def)
  have "length (packT1 w) = 320" using length_packT1 [of w] w(1) by simp
  then show ?case using Cons.IH [OF w(3)] unpackT1_packT1 [OF w(2), of 64] w(1) by simp
qed simp

lemma length_packT1_rows: "wf_t1 t1 \<Longrightarrow> length (concat (map packT1 t1)) = 320 * length t1"
proof (induction t1)
  case (Cons w t1)
  then show ?case using length_packT1 [of w] by (simp add: wf_t1_def)
qed simp

lemma pkDecode_pkEncode:
  assumes "wf_t1 t1" "length t1 = dimK p" "length rho = 32"
  shows "length (pkEncode [] rho t1 p) = pubKeySize p" "pkDecode (pkEncode [] rho t1 p) p = Inr (rho, t1)"
proof -
  have e: "pkEncode [] rho t1 p = rho @ concat (map packT1 t1)" using assms(2) by (simp add: pkEncode_def)
  show l: "length (pkEncode [] rho t1 p) = pubKeySize p"
    using length_packT1_rows [OF assms(1)] assms by (simp add: e pubKeySize_def)
  show "pkDecode (pkEncode [] rho t1 p) p = Inr (rho, t1)"
    using unpackT1Rows_packT1 [OF assms(1), of "[]"] assms(2,3) l by (simp add: pkDecode_def e)
qed

end
