(* ===== verification/MLDSA_Codec.thy ===== *)
theory MLDSA_Codec
  imports MLDSA_Packing
begin

text \<open>
  The signature encoding of \<open>internal/mldsa/mldsa.go\<close>: what \<open>hintEncode\<close> writes, what
  \<open>hintDecode\<close> accepts, and that encoding and decoding are inverse to each other in both
  directions, so that a signature has exactly one encoding.
\<close>

section \<open>The positions of a hint row\<close>

primrec positionsFrom :: "nat \<Rightarrow> bytes \<Rightarrow> nat list" where
  "positionsFrom j [] = []"
| "positionsFrom j (b # row) = (if b \<noteq> 0 then [j] else []) @ positionsFrom (Suc j) row"

abbreviation positions :: "bytes \<Rightarrow> nat list" where
  "positions \<equiv> positionsFrom 0"

definition wf_row :: "bytes \<Rightarrow> bool" where
  "wf_row row \<longleftrightarrow> length row = 256 \<and> list_all (\<lambda>b. b = 0 \<or> b = 1) row"

definition setOnes :: "bytes \<Rightarrow> bytes \<Rightarrow> bytes" where
  "setOnes row bs = foldl (\<lambda>r b. r[unat b := 1]) row bs"

lemma set_positionsFrom: "set (positionsFrom j row) = {j + i | i. i < length row \<and> row ! i \<noteq> 0}"
proof (induction row arbitrary: j)
  case (Cons b row)
  have "{j + i | i. i < length (b # row) \<and> (b # row) ! i \<noteq> 0} =
      (if b \<noteq> 0 then {j} else {}) \<union> {Suc j + i | i. i < length row \<and> row ! i \<noteq> 0}" (is "?l = ?r")
  proof
    show "?l \<subseteq> ?r"
    proof
      fix x assume "x \<in> ?l"
      then obtain i where "x = j + i" "i < length (b # row)" "(b # row) ! i \<noteq> 0" by blast
      then show "x \<in> ?r" by (cases i) auto
    qed
    have "\<exists>i'. Suc (j + i) = j + i' \<and> i' < Suc (length row) \<and> (b # row) ! i' \<noteq> 0"
      if "i < length row" "row ! i \<noteq> 0" for i using that by (intro exI [of _ "Suc i"]) simp
    then show "?r \<subseteq> ?l" by (auto split: if_splits intro: exI [of _ 0])
  qed
  then show ?case using Cons.IH [of "Suc j"] by simp
qed simp

lemma sorted_positionsFrom: "sorted_wrt (<) (positionsFrom j row)"
  by (induction row arbitrary: j) (auto simp: set_positionsFrom)

lemma length_setOnes [simp]: "length (setOnes row bs) = length row"
  by (induction bs arbitrary: row) (simp_all add: setOnes_def)

lemma nth_setOnes:
  assumes "j < length row" shows "setOnes row bs ! j = (if j \<in> unat ` set bs then 1 else row ! j)"
  using assms
proof (induction bs arbitrary: row)
  case (Cons b bs)
  have "setOnes row (b # bs) = setOnes (row[unat b := 1]) bs" by (simp add: setOnes_def)
  then show ?case using Cons.IH [of "row[unat b := 1]"] Cons.prems by (simp add: nth_list_update)
qed (simp add: setOnes_def)

lemma unat_byte_less: "unat (b :: byte) < 256"
  using unsigned_less [where ?'a = nat, of b] by simp

lemma positions_setOnes:
  assumes "sorted_wrt (<) bs" shows "positions (setOnes (replicate 256 0) bs) = map unat bs"
proof (rule strict_sorted_equal)
  show "sorted_wrt (<) (positions (setOnes (replicate 256 0) bs))" by (rule sorted_positionsFrom)
  show "sorted_wrt (<) (map unat bs)"
    unfolding sorted_wrt_map using assms by (rule sorted_wrt_mono_rel [rotated]) (simp add: word_less_nat_alt)
  show "set (positions (setOnes (replicate 256 0) bs)) = set (map unat bs)"
    using unat_byte_less by (auto simp: set_positionsFrom nth_setOnes split: if_splits)
qed

lemma wf_setOnes: "wf_row (setOnes (replicate 256 0) bs)"
  by (auto simp: wf_row_def list_all_length nth_setOnes)

lemma positions_less: "wf_row row \<Longrightarrow> j \<in> set (positions row) \<Longrightarrow> j < 256"
  by (auto simp: set_positionsFrom wf_row_def)

lemma setOnes_positions:
  assumes "wf_row row" shows "setOnes (replicate 256 0) (map of_nat (positions row)) = row"
proof (rule nth_equalityI)
  show "length (setOnes (replicate 256 0) (map of_nat (positions row))) = length row"
    using assms by (simp add: wf_row_def)
  fix j assume "j < length (setOnes (replicate 256 0) (map of_nat (positions row)))"
  then have j: "j < 256" by simp
  have u: "unat (of_nat x :: byte) = x" if "x \<in> set (positions row)" for x
    using positions_less [OF assms that] by (rule unat_of_nat_small8)
  have "unat ` set (map (of_nat :: nat \<Rightarrow> byte) (positions row)) = set (positions row)"
    using u by (auto simp: image_image)
  moreover have "j \<in> set (positions row) \<longleftrightarrow> row ! j \<noteq> 0"
    using j assms by (auto simp: set_positionsFrom wf_row_def)
  moreover have "row ! j = 0 \<or> row ! j = 1" using assms j by (simp add: wf_row_def list_all_length)
  ultimately show "setOnes (replicate 256 0) (map of_nat (positions row)) ! j = row ! j"
    using j nth_setOnes [of j "replicate 256 0" "map of_nat (positions row)"] by auto
qed

lemma setOnes_snoc: "setOnes row (b # bs) = setOnes (row[unat b := 1]) bs"
  by (simp add: setOnes_def)

section \<open>The encoder\<close>

text \<open>
  \<open>represents y w i a h b\<close>: the rows \<open>h\<close>, of which the first is row \<open>i\<close>, are stored in \<open>y\<close> from
  index \<open>a\<close> to index \<open>b\<close>, with their limits at \<open>w + i\<close> and after.
\<close>

fun represents :: "bytes \<Rightarrow> nat \<Rightarrow> nat \<Rightarrow> nat \<Rightarrow> bytes list \<Rightarrow> nat \<Rightarrow> bool" where
  "represents y w i a [] b \<longleftrightarrow> b = a"
| "represents y w i a (row # h) b \<longleftrightarrow>
     (let m = a + length (positions row) in
      m \<le> w \<and> map (nth y) [a..<m] = map of_nat (positions row) \<and> y ! (w + i) = of_nat m \<and>
      represents y w (Suc i) m h b)"

definition hintTotal :: "bytes list \<Rightarrow> nat" where
  "hintTotal h = sum_list (map (\<lambda>row. length (positions row)) h)"

lemma hintRow_eq:
  assumes "a + length (positionsFrom j row) \<le> length y" "length y < 256"
  shows "hintRow j row (of_nat a, y) =
    Some (of_nat (a + length (positionsFrom j row)),
      take a y @ map of_nat (positionsFrom j row) @ drop (a + length (positionsFrom j row)) y)"
  using assms
proof (induction row arbitrary: j a y)
  case (Cons b row)
  show ?case
  proof (cases "b = 0")
    case True
    then show ?thesis using Cons.IH [of a "Suc j" y] Cons.prems by simp
  next
    case False
    then have a: "a < length y" using Cons.prems(1) by simp
    have u: "unat (of_nat a :: byte) = a" using a Cons.prems(2) by (intro unat_of_nat_small8) simp
    have "hintRow j (b # row) (of_nat a, y) = hintRow (Suc j) row (of_nat (Suc a), y[a := of_nat j])"
      using False a u by (simp add: add.commute)
    also have "\<dots> = Some (of_nat (Suc a + length (positionsFrom (Suc j) row)),
        take (Suc a) (y[a := of_nat j]) @ map of_nat (positionsFrom (Suc j) row)
        @ drop (Suc a + length (positionsFrom (Suc j) row)) (y[a := of_nat j]))"
      by (rule Cons.IH) (use Cons.prems False in simp_all)
    finally show ?thesis using False a by (simp add: take_Suc_conv_app_nth)
  qed
qed simp

lemma hintRows_represents:
  assumes "a + hintTotal h \<le> w" "w + i + length h \<le> length y" "length y < 256"
    and "\<And>j. a \<le> j \<Longrightarrow> j < w \<Longrightarrow> y ! j = 0"
  shows "\<exists>y'. hintRows w i h (of_nat a, y) = Some y' \<and> length y' = length y \<and>
    (\<forall>j < a. y' ! j = y ! j) \<and> (\<forall>j < i. y' ! (w + j) = y ! (w + j)) \<and>
    represents y' w i a h (a + hintTotal h) \<and> (\<forall>j. a + hintTotal h \<le> j \<and> j < w \<longrightarrow> y' ! j = 0)"
  using assms
proof (induction h arbitrary: a i y)
  case Nil
  then show ?case by (simp add: hintTotal_def)
next
  case (Cons row h)
  define ps where "ps = positions row"
  define m where "m = a + length ps"
  define y1 :: bytes where "y1 = take a y @ map of_nat ps @ drop m y"
  define y2 where "y2 = y1[w + i := of_nat m]"
  have tot: "a + hintTotal (row # h) = m + hintTotal h" by (simp add: hintTotal_def m_def ps_def)
  have mw: "m \<le> w" "m + hintTotal h \<le> w" using Cons.prems(1) tot by simp_all
  have ly1: "length y1 = length y" using mw Cons.prems(2) by (simp add: y1_def m_def)
  have y1: "y1 ! j = (if j < a then y ! j else if j < m then of_nat (ps ! (j - a)) else y ! j)" if "j < length y" for j
  proof -
    have "length (take a y) = a" using mw Cons.prems(2) by (simp add: m_def)
    then show ?thesis using that unfolding y1_def m_def by (auto simp: nth_append)
  qed
  have y2: "y2 ! j = y1 ! j" if "j \<noteq> w + i" for j using that by (simp add: y2_def)
  have row: "hintRow 0 row (of_nat a, y) = Some (of_nat m, y1)"
    unfolding m_def y1_def ps_def by (rule hintRow_eq) (use mw Cons.prems(2,3) in \<open>simp_all add: m_def ps_def\<close>)
  obtain y' where IH: "hintRows w (Suc i) h (of_nat m, y2) = Some y'" "length y' = length y2"
    "\<forall>j < m. y' ! j = y2 ! j" "\<forall>j < Suc i. y' ! (w + j) = y2 ! (w + j)"
    "represents y' w (Suc i) m h (m + hintTotal h)" "\<forall>j. m + hintTotal h \<le> j \<and> j < w \<longrightarrow> y' ! j = 0"
  proof -
    have "\<exists>y'. hintRows w (Suc i) h (of_nat m, y2) = Some y' \<and> length y' = length y2 \<and>
      (\<forall>j < m. y' ! j = y2 ! j) \<and> (\<forall>j < Suc i. y' ! (w + j) = y2 ! (w + j)) \<and>
      represents y' w (Suc i) m h (m + hintTotal h) \<and> (\<forall>j. m + hintTotal h \<le> j \<and> j < w \<longrightarrow> y' ! j = 0)"
    proof (rule Cons.IH)
      show "m + hintTotal h \<le> w" by (rule mw(2))
      show "w + Suc i + length h \<le> length y2" using Cons.prems(2) ly1 by (simp add: y2_def)
      show "length y2 < 256" using Cons.prems(3) ly1 by (simp add: y2_def)
      show "y2 ! j = 0" if "m \<le> j" "j < w" for j
        using that y2 [of j] y1 [of j] Cons.prems(2,4) by (simp add: m_def)
    qed
    then show thesis using that by blast
  qed
  have rows: "hintRows w i (row # h) (of_nat a, y) = Some y'" using row IH(1) by (simp add: y2_def)
  have lo: "y' ! j = y1 ! j" if "j < m" for j using that IH(3) y2 [of j] mw by simp
  have seg: "map (nth y') [a..<m] = map of_nat ps"
  proof (rule nth_equalityI)
    fix j assume "j < length (map (nth y') [a..<m])"
    then have j: "j < length ps" by (simp add: m_def)
    then show "map (nth y') [a..<m] ! j = map of_nat ps ! j"
      using lo [of "a + j"] y1 [of "a + j"] mw Cons.prems(2) by (simp add: m_def)
  qed (simp add: m_def)
  have lim: "y' ! (w + i) = of_nat m"
    using IH(4) ly1 Cons.prems(2) by (simp add: y2_def)
  have "represents y' w i a (row # h) (m + hintTotal h)"
    using seg lim IH(5) mw by (simp add: m_def ps_def Let_def)
  moreover have "\<forall>j < a. y' ! j = y ! j" using lo y1 mw Cons.prems(2) by (simp add: m_def)
  moreover have "\<forall>j < i. y' ! (w + j) = y ! (w + j)"
    using IH(4) y2 y1 mw Cons.prems(2) by (simp add: m_def)
  ultimately show ?case using rows IH(2,6) ly1 unfolding tot by (auto simp: y2_def)
qed

text \<open>What is stored is determined by the rows.\<close>

lemma represents_unique:
  assumes "represents y w i a h b" "represents y' w i a h b'"
  shows "b = b' \<and> (\<forall>j. a \<le> j \<and> j < b \<longrightarrow> y ! j = y' ! j) \<and> (\<forall>j < length h. y ! (w + i + j) = y' ! (w + i + j))"
  using assms
proof (induction h arbitrary: i a)
  case (Cons row h)
  define m where "m = a + length (positions row)"
  have r: "represents y w (Suc i) m h b" "represents y' w (Suc i) m h b'"
    and seg: "map (nth y) [a..<m] = map (nth y') [a..<m]" and lim: "y ! (w + i) = y' ! (w + i)"
    using Cons.prems by (simp_all add: Let_def m_def)
  note IH = Cons.IH [OF r]
  have "y ! j = y' ! j" if "a \<le> j" "j < b" for j
  proof (cases "j < m")
    case True
    then show ?thesis using seg that(1) by (simp add: map_eq_conv)
  next
    case False
    then show ?thesis using IH that(2) by simp
  qed
  moreover have "y ! (w + i + j) = y' ! (w + i + j)" if "j < length (row # h)" for j
    using IH lim that by (cases j) simp_all
  ultimately show ?case using IH by blast
qed auto

lemma represents_total: "represents y w i a h b \<Longrightarrow> b = a + hintTotal h"
proof (induction h arbitrary: i a)
  case (Cons row h)
  then have "represents y w (Suc i) (a + length (positions row)) h b" by (simp add: Let_def)
  from Cons.IH [OF this] show ?case by (simp add: hintTotal_def)
qed (simp add: hintTotal_def)

lemma represents_le: "represents y w i a h b \<Longrightarrow> a \<le> w \<Longrightarrow> a \<le> b \<and> b \<le> w"
  by (induction h arbitrary: i a) (force simp: Let_def)+

section \<open>The decoder\<close>

lemma hintIndices_eq:
  assumes "f \<le> a" "a \<le> m" "m \<le> length y" "length y < 256"
  shows "hintIndices y (of_nat f) (of_nat m) (of_nat a) row =
    (if \<forall>j. max (Suc f) a \<le> j \<and> j < m \<longrightarrow> y ! (j - 1) < y ! j then Inr (setOnes row (map (nth y) [a..<m]))
     else Inl ErrInvalidSignatureHintIndexOrder)"
  using assms
proof (induction "m - a" arbitrary: a row)
  case 0
  then show ?case by (simp add: hintIndices.simps [of y] setOnes_def)
next
  case (Suc d)
  have a: "a < m" using Suc.hyps(2) by simp
  have u: "unat (of_nat a :: byte) = a" "unat (of_nat m :: byte) = m" "unat (of_nat f :: byte) = f"
    using Suc.prems by (simp_all add: unat_of_nat_small8)
  have lt: "(of_nat a :: byte) < of_nat m" using a u by (simp add: word_less_nat_alt)
  have pred: "of_nat a - 1 = (of_nat (a - 1) :: byte)" if "0 < a" using that by simp
  have up: "unat (of_nat a - 1 :: byte) = a - 1" if "0 < a"
    unfolding pred [OF that] using Suc.prems by (intro unat_of_nat_small8) simp
  have bad: "(of_nat a :: byte) > of_nat f \<and> y ! unat (of_nat a - 1 :: byte) \<ge> y ! a
      \<longleftrightarrow> f < a \<and> \<not> y ! (a - 1) < y ! a"
    using u up by (auto simp: word_less_nat_alt word_le_nat_alt)
  have step: "hintIndices y (of_nat f) (of_nat m) (of_nat a) row =
      (if f < a \<and> \<not> y ! (a - 1) < y ! a then Inl ErrInvalidSignatureHintIndexOrder
       else hintIndices y (of_nat f) (of_nat m) (of_nat (Suc a)) (row[unat (y ! a) := 1]))"
    by (subst hintIndices.simps) (simp only: lt u(1) bad if_True of_nat_Suc add.commute)
  have IH: "hintIndices y (of_nat f) (of_nat m) (of_nat (Suc a)) (row[unat (y ! a) := 1]) =
    (if \<forall>j. max (Suc f) (Suc a) \<le> j \<and> j < m \<longrightarrow> y ! (j - 1) < y ! j
     then Inr (setOnes (row[unat (y ! a) := 1]) (map (nth y) [Suc a..<m])) else Inl ErrInvalidSignatureHintIndexOrder)"
    by (rule Suc.hyps(1)) (use Suc.hyps(2) Suc.prems a in simp_all)
  have all: "(\<forall>j. max (Suc f) a \<le> j \<and> j < m \<longrightarrow> y ! (j - 1) < y ! j) \<longleftrightarrow>
      \<not> (f < a \<and> \<not> y ! (a - 1) < y ! a) \<and> (\<forall>j. max (Suc f) (Suc a) \<le> j \<and> j < m \<longrightarrow> y ! (j - 1) < y ! j)"
    (is "?l \<longleftrightarrow> ?r")
  proof
    assume l: ?l
    have "y ! (j - 1) < y ! j" if "max (Suc f) (Suc a) \<le> j \<and> j < m" for j
      using that by (intro l [rule_format]) linarith
    moreover have "y ! (a - 1) < y ! a" if "f < a" using l that a by simp
    ultimately show ?r by blast
  next
    assume r: ?r
    show ?l
    proof (intro allI impI)
      fix j assume j: "max (Suc f) a \<le> j \<and> j < m"
      show "y ! (j - 1) < y ! j" using r j by (cases "j = a") auto
    qed
  qed
  have "setOnes (row[unat (y ! a) := 1]) (map (nth y) [Suc a..<m]) = setOnes row (map (nth y) [a..<m])"
    using a by (simp add: setOnes_snoc upt_conv_Cons)
  then show ?case unfolding step IH all by simp
qed

lemma increasing_segment:
  "(\<forall>j. Suc a \<le> j \<and> j < m \<longrightarrow> y ! (j - 1) < y ! j) \<longleftrightarrow> sorted_wrt (<) (map (nth y) [a..<m])" for y :: bytes
proof -
  have "sorted_wrt (<) (map (nth y) [a..<m]) \<longleftrightarrow> (\<forall>i. Suc i < m - a \<longrightarrow> y ! (a + i) < y ! (a + Suc i))"
    by (subst sorted_wrt_iff_nth_Suc_transp) (auto simp: transp_def)
  also have "\<dots> \<longleftrightarrow> (\<forall>j. Suc a \<le> j \<and> j < m \<longrightarrow> y ! (j - 1) < y ! j)" (is "?l \<longleftrightarrow> ?r")
  proof
    assume l: ?l
    show ?r
    proof (intro allI impI)
      fix j assume "Suc a \<le> j \<and> j < m"
      then show "y ! (j - 1) < y ! j" using l [rule_format, of "j - Suc a"] by (simp add: Suc_diff_Suc diff_less_mono)
    qed
  next
    assume r: ?r
    show ?l
    proof (intro allI impI)
      fix i assume "Suc i < m - a"
      then show "y ! (a + i) < y ! (a + Suc i)" using r [rule_format, of "a + Suc i"] by simp
    qed
  qed
  finally show ?thesis by simp
qed

lemma hintIndices_segment:
  assumes "a \<le> m" "m \<le> length y" "length y < 256"
  shows "hintIndices y (of_nat a) (of_nat m) (of_nat a) (replicate 256 0) = Inr row \<longleftrightarrow>
    wf_row row \<and> map (nth y) [a..<m] = map of_nat (positions row)"
proof -
  define bs where "bs = map (nth y) [a..<m]"
  have "hintIndices y (of_nat a) (of_nat m) (of_nat a) (replicate 256 0) =
      (if sorted_wrt (<) bs then Inr (setOnes (replicate 256 0) bs) else Inl ErrInvalidSignatureHintIndexOrder)"
    using hintIndices_eq [of a a m y "replicate 256 0"] assms unfolding bs_def increasing_segment [symmetric] by simp
  moreover have "bs = map of_nat (positions (setOnes (replicate 256 0) bs))" if "sorted_wrt (<) bs"
    by (simp add: positions_setOnes [OF that] map_idI)
  moreover have "sorted_wrt (<) bs \<and> setOnes (replicate 256 0) bs = row" if "wf_row row" "bs = map of_nat (positions row)"
  proof -
    have "(of_nat x :: byte) < of_nat z" if "x < z" "z \<in> set (positions row)" for x z
    proof -
      have "z < 256" using positions_less \<open>wf_row row\<close> that(2) by blast
      then show ?thesis using that(1) by (simp add: word_less_nat_alt unat_of_nat_small8)
    qed
    then have "sorted_wrt (<) bs"
      unfolding that(2) sorted_wrt_map using sorted_positionsFrom [of 0 row]
      by (auto intro: sorted_wrt_mono_rel [of _ "(<)"])
    then show ?thesis using setOnes_positions [OF that(1)] that(2) by simp
  qed
  ultimately show ?thesis using wf_setOnes [of bs] unfolding bs_def [symmetric] by auto
qed

lemma hintLimits_iff:
  assumes "w + i + k \<le> length y" "length y < 256" "a \<le> w"
  shows "hintLimits y w i k (of_nat a) = Inr (idx, h) \<longleftrightarrow>
    length h = k \<and> list_all wf_row h \<and> represents y w i a h (unat idx)"
  using assms
proof (induction k arbitrary: i a h)
  case 0
  have "(of_nat a = idx) \<longleftrightarrow> unat idx = a"
    using unat_of_nat_small8 [of a] 0 by (auto simp: word_unat_eq_iff)
  then show ?case by auto
next
  case (Suc k)
  define lim where "lim = y ! (w + i)"
  define m where "m = unat lim"
  have lim: "lim = of_nat m" by (simp add: m_def)
  have u: "unat (of_nat a :: byte) = a" "unat (of_nat w :: byte) = w"
    using Suc.prems by (simp_all add: unat_of_nat_small8)
  have guard: "lim < of_nat a \<or> lim > of_nat w \<longleftrightarrow> \<not> (a \<le> m \<and> m \<le> w)"
    using u by (auto simp: word_less_nat_alt m_def)
  show ?case
  proof (cases "a \<le> m \<and> m \<le> w")
    case False
    then have "hintLimits y w i (Suc k) (of_nat a) = Inl ErrInvalidSignatureHintLimits"
      using guard by (simp add: Let_def lim_def)
    moreover have "\<not> represents y w i a h (unat idx)" if l: "length h = Suc k"
    proof -
      obtain row h' where h: "h = row # h'" using l by (cases h) auto
      show ?thesis
      proof
        assume "represents y w i a h (unat idx)"
        then have "a + length (positions row) \<le> w" "lim = of_nat (a + length (positions row))"
          by (simp_all add: h Let_def lim_def)
        then have "m = a + length (positions row)"
          using Suc.prems unat_of_nat_small8 [of "a + length (positions row)"] by (simp add: m_def)
        then show False using False \<open>a + length (positions row) \<le> w\<close> by simp
      qed
    qed
    ultimately show ?thesis by auto
  next
    case True
    have seg: "hintIndices y (of_nat a) lim (of_nat a) (replicate 256 0) = Inr row \<longleftrightarrow>
        wf_row row \<and> map (nth y) [a..<m] = map of_nat (positions row)" for row
      unfolding lim by (rule hintIndices_segment) (use True Suc.prems in simp_all)
    have IH: "hintLimits y w (Suc i) k lim = Inr (idx, h') \<longleftrightarrow>
        length h' = k \<and> list_all wf_row h' \<and> represents y w (Suc i) m h' (unat idx)" for h'
      unfolding lim by (rule Suc.IH) (use True Suc.prems in simp_all)
    have "hintLimits y w i (Suc k) (of_nat a) = Inr (idx, h) \<longleftrightarrow>
        (\<exists>row h'. h = row # h' \<and> hintIndices y (of_nat a) lim (of_nat a) (replicate 256 0) = Inr row \<and>
          hintLimits y w (Suc i) k lim = Inr (idx, h'))"
      using guard True by (auto simp: Let_def lim_def [symmetric] split: sum.splits)
    also have "\<dots> \<longleftrightarrow> (\<exists>row h'. h = row # h' \<and> (wf_row row \<and> map (nth y) [a..<m] = map of_nat (positions row)) \<and>
          length h' = k \<and> list_all wf_row h' \<and> represents y w (Suc i) m h' (unat idx))"
      unfolding seg IH ..
    also have "\<dots> \<longleftrightarrow> length h = Suc k \<and> list_all wf_row h \<and> represents y w i a h (unat idx)"
      (is "?l \<longleftrightarrow> ?r")
    proof
      assume ?l
      then obtain row h' where h: "h = row # h'" "wf_row row" "map (nth y) [a..<m] = map of_nat (positions row)"
        "length h' = k" "list_all wf_row h'" "represents y w (Suc i) m h' (unat idx)" by blast
      have "length (positions row) = m - a" using arg_cong [OF h(3), of length] by simp
      then have "a + length (positions row) = m" using True by simp
      then show ?r using h True lim by (simp add: Let_def lim_def)
    next
      assume r: ?r
      then obtain row h' where h: "h = row # h'" by (cases h) auto
      have "a + length (positions row) \<le> w" "lim = of_nat (a + length (positions row))"
        using r by (simp_all add: h Let_def lim_def)
      then have "m = a + length (positions row)"
        using Suc.prems unat_of_nat_small8 [of "a + length (positions row)"] by (simp add: m_def)
      then show ?l using r by (simp add: h Let_def)
    qed
    finally show ?thesis .
  qed
qed

definition hintSpace :: "parameters \<Rightarrow> bool" where
  "hintSpace p \<longleftrightarrow> omega p + dimK p < 256"

lemma hintDecode_iff:
  assumes "hintSpace p"
  shows "hintDecode y p = Inr h \<longleftrightarrow> length y = omega p + dimK p \<and> length h = dimK p \<and> list_all wf_row h \<and>
    represents y (omega p) 0 0 h (hintTotal h) \<and> (\<forall>j. hintTotal h \<le> j \<and> j < omega p \<longrightarrow> y ! j = 0)"
proof (cases "length y = omega p + dimK p")
  case True
  then have l: "omega p + 0 + dimK p \<le> length y" "length y < 256" "0 \<le> omega p" using assms by (simp_all add: hintSpace_def)
  have limits: "hintLimits y (omega p) 0 (dimK p) 0 = Inr (idx, h) \<longleftrightarrow>
      length h = dimK p \<and> list_all wf_row h \<and> represents y (omega p) 0 0 h (unat idx)" for idx
    using hintLimits_iff [OF l, of idx h] by simp
  have "hintDecode y p = Inr h \<longleftrightarrow> (\<exists>idx. hintLimits y (omega p) 0 (dimK p) 0 = Inr (idx, h) \<and>
      (\<forall>j. unat idx \<le> j \<and> j < omega p \<longrightarrow> y ! j = 0))"
    using True by (auto simp: hintDecode_def list_ex_iff split: sum.splits)
  also have "\<dots> \<longleftrightarrow> (\<exists>idx :: byte. (length h = dimK p \<and> list_all wf_row h \<and> represents y (omega p) 0 0 h (unat idx)) \<and>
      (\<forall>j. unat idx \<le> j \<and> j < omega p \<longrightarrow> y ! j = 0))"
    by (simp only: limits)
  also have "\<dots> \<longleftrightarrow> length h = dimK p \<and> list_all wf_row h \<and>
      represents y (omega p) 0 0 h (hintTotal h) \<and> (\<forall>j. hintTotal h \<le> j \<and> j < omega p \<longrightarrow> y ! j = 0)" (is "?l \<longleftrightarrow> ?r")
  proof
    assume ?l
    then obtain idx :: byte where i: "length h = dimK p" "list_all wf_row h" "represents y (omega p) 0 0 h (unat idx)"
      "\<forall>j. unat idx \<le> j \<and> j < omega p \<longrightarrow> y ! j = 0" by blast
    moreover have "unat idx = hintTotal h" using represents_total [OF i(3)] by simp
    ultimately show ?r by simp
  next
    assume r: ?r
    then have "hintTotal h \<le> omega p" using represents_le [of y "omega p" 0 0 h "hintTotal h"] by simp
    then have "unat (of_nat (hintTotal h) :: byte) = hintTotal h"
      using assms by (intro unat_of_nat_small8) (simp add: hintSpace_def)
    then show ?l using r by (intro exI [of _ "of_nat (hintTotal h)"]) simp
  qed
  finally show ?thesis using True by simp
qed (simp add: hintDecode_def)

lemma hintEncode_represents:
  assumes "hintSpace p" "length h = dimK p" "hintTotal h \<le> omega p"
  obtains y where "hintEncode buf h p = Some (buf @ y)" "length y = omega p + dimK p"
    "represents y (omega p) 0 0 h (hintTotal h)" "\<forall>j. hintTotal h \<le> j \<and> j < omega p \<longrightarrow> y ! j = 0"
proof -
  have "\<exists>y'. hintRows (omega p) 0 h (of_nat 0, replicate (omega p + dimK p) 0) = Some y' \<and>
    length y' = length (replicate (omega p + dimK p) (0 :: byte)) \<and>
    (\<forall>j < 0. y' ! j = replicate (omega p + dimK p) 0 ! j) \<and>
    (\<forall>j < 0. y' ! (omega p + j) = replicate (omega p + dimK p) 0 ! (omega p + j)) \<and>
    represents y' (omega p) 0 0 h (0 + hintTotal h) \<and> (\<forall>j. 0 + hintTotal h \<le> j \<and> j < omega p \<longrightarrow> y' ! j = 0)"
    by (rule hintRows_represents) (use assms in \<open>simp_all add: hintSpace_def\<close>)
  then obtain y where y: "hintRows (omega p) 0 h (0, replicate (omega p + dimK p) 0) = Some y"
    "length y = omega p + dimK p" "represents y (omega p) 0 0 h (hintTotal h)"
    "\<forall>j. hintTotal h \<le> j \<and> j < omega p \<longrightarrow> y ! j = 0" by auto
  show thesis by (rule that [OF _ y(2-4)]) (use y(1) assms(2) in \<open>simp add: hintEncode_def\<close>)
qed

lemma hintDecode_hintEncode:
  assumes "hintSpace p" "length h = dimK p" "list_all wf_row h" "hintTotal h \<le> omega p"
  obtains y where "hintEncode buf h p = Some (buf @ y)" "length y = omega p + dimK p" "hintDecode y p = Inr h"
  using hintEncode_represents [OF assms(1,2,4), of buf] hintDecode_iff [OF assms(1), of _ h] assms(2,3) by metis

lemma hintEncode_hintDecode:
  assumes "hintSpace p" "hintDecode y p = Inr h" shows "hintEncode buf h p = Some (buf @ y)"
proof -
  have d: "length y = omega p + dimK p" "length h = dimK p" "represents y (omega p) 0 0 h (hintTotal h)"
    "\<forall>j. hintTotal h \<le> j \<and> j < omega p \<longrightarrow> y ! j = 0"
    using assms(2) unfolding hintDecode_iff [OF assms(1)] by blast+
  have t: "hintTotal h \<le> omega p" using represents_le [OF d(3)] by simp
  obtain y' where y': "hintEncode buf h p = Some (buf @ y')" "length y' = omega p + dimK p"
    "represents y' (omega p) 0 0 h (hintTotal h)" "\<forall>j. hintTotal h \<le> j \<and> j < omega p \<longrightarrow> y' ! j = 0"
    by (rule hintEncode_represents [OF assms(1) d(2) t])
  note u = represents_unique [OF d(3) y'(3)]
  have "y = y'"
  proof (rule nth_equalityI)
    fix j assume j: "j < length y"
    show "y ! j = y' ! j"
    proof (cases "j < omega p")
      case True
      then show ?thesis using u d(4) y'(4) by (cases "j < hintTotal h") simp_all
    next
      case False
      then have "j - omega p < length h" using j d(1,2) by simp
      then show ?thesis using u False by auto
    qed
  qed (simp add: d(1) y'(2))
  then show ?thesis using y'(1) by simp
qed

section \<open>Signatures\<close>

definition valid_params :: "parameters \<Rightarrow> bool" where
  "valid_params p \<longleftrightarrow> p = params44 \<or> p = params65 \<or> p = params87"

lemma valid_params_hintSpace: "valid_params p \<Longrightarrow> hintSpace p"
  by (auto simp: valid_params_def hintSpace_def params44_def params65_def params87_def)

lemma valid_params_gamma1: "valid_params p \<Longrightarrow> gamma1 p = 17 \<or> gamma1 p = 19"
  by (auto simp: valid_params_def params44_def params65_def params87_def)

definition packablePoly :: "parameters \<Rightarrow> fieldElement list \<Rightarrow> bool" where
  "packablePoly p r \<longleftrightarrow> length r = 256 \<and> list_all (packable (gamma1 p)) r"

abbreviation polySize :: "parameters \<Rightarrow> nat" where
  "polySize p \<equiv> (gamma1 p + 1) * 256 div 8"

lemma bitPack_ok:
  assumes "valid_params p" "packablePoly p r"
  obtains v where "\<And>b. bitPack b r p = Some (b @ v)" "length v = polySize p" "bitUnpack v p = Some r"
proof (cases "gamma1 p = 17")
  case True
  have "length (pack18 r) = 576" using assms(2) length_pack18 [of r] by (simp add: packablePoly_def)
  moreover have "unpack18 (pack18 r) = r" using assms(2) True by (intro unpack_pack18) (simp_all add: packablePoly_def)
  ultimately show thesis
    using True that [of "pack18 r"] by (simp add: bitPack_def bitPack18_def bitUnpack_def bitUnpack18_def)
next
  case False
  then have g: "gamma1 p = 19" using valid_params_gamma1 [OF assms(1)] by simp
  have "length (pack20 r) = 640" using assms(2) length_pack20 [of r] by (simp add: packablePoly_def)
  moreover have "unpack20 (pack20 r) = r" using assms(2) g by (intro unpack_pack20) (simp_all add: packablePoly_def)
  ultimately show thesis
    using g that [of "pack20 r"] by (simp add: bitPack_def bitPack20_def bitUnpack_def bitUnpack20_def)
qed

lemma bitUnpack_ok:
  assumes "valid_params p" "length v = polySize p"
  obtains r where "bitUnpack v p = Some r" "packablePoly p r" "\<And>b. bitPack b r p = Some (b @ v)"
proof (cases "gamma1 p = 17")
  case True
  have "9 dvd length v" using assms(2) True by simp
  from pack_unpack18 [OF this] show thesis
    using True assms(2) that [of "unpack18 v"]
    by (simp add: bitPack_def bitPack18_def bitUnpack_def bitUnpack18_def packablePoly_def)
next
  case False
  then have g: "gamma1 p = 19" using valid_params_gamma1 [OF assms(1)] by simp
  have "5 dvd length v" using assms(2) g by simp
  from pack_unpack20 [OF this] show thesis
    using g assms(2) that [of "unpack20 v"]
    by (simp add: bitPack_def bitPack20_def bitUnpack_def bitUnpack20_def packablePoly_def)
qed

lemma packZ_ok:
  assumes "valid_params p" "list_all (packablePoly p) zs"
  shows "\<exists>v. (\<forall>b. packZ b zs p = Some (b @ v)) \<and> length v = length zs * polySize p \<and>
    (\<forall>rest. unpackZ (length zs) (v @ rest) p = Some (zs, rest))"
  using assms(2)
proof (induction zs)
  case (Cons x zs)
  obtain v1 where v1: "\<And>b. bitPack b x p = Some (b @ v1)" "length v1 = polySize p" "bitUnpack v1 p = Some x"
    using Cons.prems assms(1) by (auto elim: bitPack_ok)
  obtain v where v: "\<forall>b. packZ b zs p = Some (b @ v)" "length v = length zs * polySize p"
    "\<forall>rest. unpackZ (length zs) (v @ rest) p = Some (zs, rest)" using Cons by auto
  have "unpackZ (length (x # zs)) ((v1 @ v) @ rest) p = Some (x # zs, rest)" for rest
    using v1 v by (simp add: Let_def)
  then show ?case using v1 v by (intro exI [of _ "v1 @ v"]) simp
qed simp

lemma unpackZ_ok:
  assumes "valid_params p" "n * polySize p \<le> length sig"
  shows "\<exists>zs. unpackZ n sig p = Some (zs, drop (n * polySize p) sig) \<and> length zs = n \<and> list_all (packablePoly p) zs \<and>
    (\<forall>b. packZ b zs p = Some (b @ take (n * polySize p) sig))"
  using assms(2)
proof (induction n arbitrary: sig)
  case (Suc n)
  define len where "len = polySize p"
  have l: "length (take len sig) = polySize p" "n * polySize p \<le> length (drop len sig)"
    using Suc.prems by (simp_all add: len_def)
  obtain x where x: "bitUnpack (take len sig) p = Some x" "packablePoly p x" "\<And>b. bitPack b x p = Some (b @ take len sig)"
    using bitUnpack_ok [OF assms(1) l(1)] by blast
  obtain zs where zs: "unpackZ n (drop len sig) p = Some (zs, drop (n * len) (drop len sig))" "length zs = n"
    "list_all (packablePoly p) zs" "\<forall>b. packZ b zs p = Some (b @ take (n * len) (drop len sig))"
    using Suc.IH [OF l(2)] unfolding len_def by blast
  have t: "take (Suc n * len) sig = take len sig @ take (n * len) (drop len sig)"
    by (simp add: take_add)
  have "unpackZ (Suc n) sig p = Some (x # zs, drop (Suc n * len) sig)"
    unfolding unpackZ.simps Let_def len_def [symmetric] using x(1) zs(1) by (simp add: add.commute)
  moreover have "packZ b (x # zs) p = Some (b @ take (Suc n * len) sig)" for b
    unfolding t using x(3) zs(4) by simp
  ultimately show ?case unfolding len_def [symmetric] using x(2) zs(2,3) by (intro exI [of _ "x # zs"]) simp
qed simp

definition wf_sig :: "parameters \<Rightarrow> bytes \<Rightarrow> fieldElement list list \<Rightarrow> bytes list \<Rightarrow> bool" where
  "wf_sig p ch zs h \<longleftrightarrow> length ch = lambda p div 4 \<and> length zs = dimL p \<and> list_all (packablePoly p) zs \<and>
     length h = dimK p \<and> list_all wf_row h \<and> hintTotal h \<le> omega p"

lemma sigSize_eq: "valid_params p \<Longrightarrow> sigSize p = lambda p div 4 + dimL p * polySize p + (omega p + dimK p)"
  by (auto simp: valid_params_def sigSize_def params44_def params65_def params87_def)

lemma sigEncode_ok:
  assumes "valid_params p" "wf_sig p ch zs h"
  obtains sig where "sigEncode ch zs h p = Some sig" "length sig = sigSize p" "sigDecode sig p = Some (Inr (ch, zs, h))"
proof -
  have w: "length ch = lambda p div 4" "length zs = dimL p" "list_all (packablePoly p) zs"
    "length h = dimK p" "list_all wf_row h" "hintTotal h \<le> omega p" using assms(2) by (simp_all add: wf_sig_def)
  obtain v where v: "\<forall>b. packZ b zs p = Some (b @ v)" "length v = length zs * polySize p"
    "\<forall>rest. unpackZ (length zs) (v @ rest) p = Some (zs, rest)"
    using packZ_ok [OF assms(1) w(3)] by blast
  obtain y where y: "hintEncode (ch @ v) h p = Some ((ch @ v) @ y)" "length y = omega p + dimK p" "hintDecode y p = Inr h"
    by (rule hintDecode_hintEncode [OF valid_params_hintSpace [OF assms(1)] w(4-6)])
  have l: "length (ch @ v @ y) = sigSize p" using v(2) y(2) w(1,2) by (simp add: sigSize_eq [OF assms(1)])
  show thesis
  proof (rule that)
    show "sigEncode ch zs h p = Some (ch @ v @ y)" using v(1) y(1) by (simp add: sigEncode_def)
    show "length (ch @ v @ y) = sigSize p" by (rule l)
    show "sigDecode (ch @ v @ y) p = Some (Inr (ch, zs, h))"
      using l v(3) y(3) w(1,2) by (simp add: sigDecode_def)
  qed
qed

lemma sigDecode_ok:
  assumes "valid_params p"
  shows "sigDecode sig p \<noteq> None" and "sigDecode sig p = Some (Inr (ch, zs, h)) \<Longrightarrow> wf_sig p ch zs h \<and> sigEncode ch zs h p = Some sig"
proof -
  have "sigDecode sig p \<noteq> None \<and>
      (sigDecode sig p = Some (Inr (ch, zs, h)) \<longrightarrow> wf_sig p ch zs h \<and> sigEncode ch zs h p = Some sig)"
  proof (cases "length sig = sigSize p")
    case True
    define rest where "rest = drop (lambda p div 4) sig"
    have "dimL p * polySize p \<le> length rest" using True by (simp add: rest_def sigSize_eq [OF assms])
    from unpackZ_ok [OF assms this] obtain zs' where z: "unpackZ (dimL p) rest p = Some (zs', drop (dimL p * polySize p) rest)"
      "length zs' = dimL p" "list_all (packablePoly p) zs'" "\<And>b. packZ b zs' p = Some (b @ take (dimL p * polySize p) rest)"
      by blast
    have d: "sigDecode sig p = Some (case hintDecode (drop (dimL p * polySize p) rest) p of
        Inl e \<Rightarrow> Inl e | Inr h \<Rightarrow> Inr (take (lambda p div 4) sig, zs', h))"
      using True z(1) by (simp add: sigDecode_def rest_def)
    have "wf_sig p ch zs h \<and> sigEncode ch zs h p = Some sig" if eq: "sigDecode sig p = Some (Inr (ch, zs, h))"
    proof -
      have h: "hintDecode (drop (dimL p * polySize p) rest) p = Inr h" and ch: "ch = take (lambda p div 4) sig" and zs: "zs = zs'"
        using eq unfolding d by (auto split: sum.splits)
      note sp = valid_params_hintSpace [OF assms]
      have "length h = dimK p" "list_all wf_row h" "hintTotal h \<le> omega p"
        using h represents_le [of "drop (dimL p * polySize p) rest" "omega p" 0 0 h "hintTotal h"]
        unfolding hintDecode_iff [OF sp] by simp_all
      then have "wf_sig p ch zs h" using z(2,3) True by (simp add: wf_sig_def ch zs sigSize_eq [OF assms])
      moreover have "sigEncode ch zs h p = Some (ch @ rest)"
        using z(4) hintEncode_hintDecode [OF sp h] by (simp add: sigEncode_def zs)
      ultimately show ?thesis by (simp add: ch rest_def)
    qed
    then show ?thesis using d by simp
  qed (simp add: sigDecode_def)
  then show "sigDecode sig p \<noteq> None" "sigDecode sig p = Some (Inr (ch, zs, h)) \<Longrightarrow> wf_sig p ch zs h \<and> sigEncode ch zs h p = Some sig"
    by simp_all
qed

text \<open>
  C23. Signatures have exactly one encoding: for each of the three parameter sets, decoding a byte
  string never panics, it yields a challenge, a vector and hints exactly if the byte string is the
  encoding of these, and every well-formed triple is encoded without a panic. In particular the
  order and padding checks of \<open>hintDecode\<close> leave no room for a second encoding.
\<close>

theorem signature_encoding_unique:
  assumes "valid_params p"
  shows "sigDecode sig p \<noteq> None \<and>
    (sigDecode sig p = Some (Inr (ch, zs, h)) \<longleftrightarrow> wf_sig p ch zs h \<and> sigEncode ch zs h p = Some sig) \<and>
    (wf_sig p ch zs h \<longrightarrow> sigEncode ch zs h p \<noteq> None)"
  using sigDecode_ok [OF assms] sigEncode_ok [OF assms] by (metis option.distinct(1) option.inject)

definition sampleHints :: "bytes list" where
  "sampleHints = (replicate 3 0 @ [1] @ replicate 252 0) # replicate 3 (replicate 256 0)"

theorem signature_encoding_unique_witness:
  "wf_sig params44 (replicate 32 7) (replicate 4 (replicate 256 0)) sampleHints \<and>
   (\<exists>sig. sigEncode (replicate 32 7) (replicate 4 (replicate 256 0)) sampleHints params44 = Some sig \<and>
     sigDecode sig params44 = Some (Inr (replicate 32 7, replicate 4 (replicate 256 0), sampleHints)))"
proof -
  have c: "centered (val 0) = 0" by (rule centered_unique) (simp_all add: val_def)
  have "packable 17 0" by (simp add: packable_def c reduced_def)
  then have pk: "packablePoly params44 (replicate 256 0)"
    by (simp add: packablePoly_def params44_def list_all_iff)
  have zeros: "positionsFrom j (replicate n 0 @ xs) = positionsFrom (j + n) xs" for j n xs
    by (induction n arbitrary: j) simp_all
  have "hintTotal sampleHints = 1"
    using zeros [of _ _ "[]"] by (simp add: hintTotal_def sampleHints_def zeros sum_list_replicate del: replicate.simps)
  moreover have "list_all wf_row sampleHints" "length sampleHints = 4"
    by (auto simp: sampleHints_def wf_row_def list_all_iff)
  ultimately have wf: "wf_sig params44 (replicate 32 7) (replicate 4 (replicate 256 0)) sampleHints"
    using pk by (simp add: wf_sig_def params44_def list_all_iff)
  have "valid_params params44" by (simp add: valid_params_def)
  note u = signature_encoding_unique [OF this]
  obtain sig where "sigEncode (replicate 32 7) (replicate 4 (replicate 256 0)) sampleHints params44 = Some sig"
    using u wf by blast
  then show ?thesis using u wf by simp
qed

end
