(* ===== verification/MLDSA_Sample.thy ===== *)
theory MLDSA_Sample
  imports MLDSA_Codec
begin

text \<open>
  The samplers of \<open>internal/mldsa/field.go\<close>. The output of SHAKE on an input is a stream of
  bytes, so an instance that has absorbed its writes is a function from positions to bytes, and a
  sequence of reads takes consecutive parts of it. The samplers read until they have found enough
  acceptable bytes; they are partial functions, without a value where the loop never ends.
\<close>

section \<open>Definitions\<close>

type_synonym xof = "bytes \<Rightarrow> nat \<Rightarrow> byte"

definition readAt :: "(nat \<Rightarrow> byte) \<Rightarrow> nat \<Rightarrow> nat \<Rightarrow> bytes" where
  "readAt H pos n = map H [pos..<pos + n]"

partial_function (option) nttLoop ::
    "(nat \<Rightarrow> byte) \<Rightarrow> nat \<Rightarrow> bytes \<Rightarrow> nat \<Rightarrow> fieldElement list \<Rightarrow> fieldElement list option" where
  "nttLoop G pos buf off a =
     (if length a < 256 then
        (case (if off \<ge> length buf then (readAt G pos 168, 0, pos + 168) else (buf, off, pos)) of
           (buf', off', pos') \<Rightarrow>
             (case fieldToMontgomery ((u32 (buf' ! off') OR push_bit 8 (u32 (buf' ! (off' + 1)))
                 OR push_bit 16 (u32 (buf' ! (off' + 2)))) AND 8388607) of
               None \<Rightarrow> nttLoop G pos' buf' (off' + 3) a
             | Some f \<Rightarrow> nttLoop G pos' buf' (off' + 3) (a @ [f])))
      else Some a)"

definition sampleNTT :: "xof \<Rightarrow> bytes \<Rightarrow> byte \<Rightarrow> byte \<Rightarrow> fieldElement list option" where
  "sampleNTT shake128 rho s r = nttLoop (shake128 (rho @ [s, r])) 0 (replicate 168 0) 168 []"

definition coeffFromHalfByte :: "byte \<Rightarrow> parameters \<Rightarrow> fieldElement option option" where
  "coeffFromHalfByte b p =
     (if b > 15 then None
      else if eta p = 2 then
        (if b > 14 then Some None
         else let quotient = drop_bit 16 (u32 b * 13108); remainder = u32 b - quotient * 5
              in Some (Some (fieldSubToMontgomery 2 remainder)))
      else if eta p = 4 then
        (if b > 8 then Some None else Some (Some (fieldSubToMontgomery 4 (u32 b))))
      else None)"

definition keep :: "fieldElement list \<Rightarrow> fieldElement option \<Rightarrow> fieldElement list" where
  "keep a c = (case c of None \<Rightarrow> a | Some x \<Rightarrow> a @ [x])"

partial_function (option) boundedLoop ::
    "(nat \<Rightarrow> byte) \<Rightarrow> parameters \<Rightarrow> nat \<Rightarrow> bytes \<Rightarrow> nat \<Rightarrow> fieldElement list \<Rightarrow> fieldElement list option" where
  "boundedLoop H p pos buf off a =
     (case (if off \<ge> length buf then (readAt H pos 136, 0, pos + 136) else (buf, off, pos)) of
        (buf', off', pos') \<Rightarrow>
          (case coeffFromHalfByte (buf' ! off' AND 15) p of
            None \<Rightarrow> None
          | Some c0 \<Rightarrow>
              if length (keep a c0) \<ge> 256 then Some (keep a c0)
              else (case coeffFromHalfByte (drop_bit 4 (buf' ! off')) p of
                None \<Rightarrow> None
              | Some c1 \<Rightarrow>
                  if length (keep (keep a c0) c1) \<ge> 256 then Some (keep (keep a c0) c1)
                  else boundedLoop H p pos' buf' (off' + 1) (keep (keep a c0) c1))))"

definition sampleBoundedPoly :: "xof \<Rightarrow> bytes \<Rightarrow> byte \<Rightarrow> parameters \<Rightarrow> fieldElement list option" where
  "sampleBoundedPoly shake256 rho r p =
     boundedLoop (shake256 (rho @ [r, 0])) p 0 (replicate 136 0) 136 []"

partial_function (option) ballIndex :: "(nat \<Rightarrow> byte) \<Rightarrow> nat \<Rightarrow> nat \<Rightarrow> (byte \<times> nat) option" where
  "ballIndex H i pos = (if H pos > of_nat i then ballIndex H i (pos + 1) else Some (H pos, pos + 1))"

primrec ballLoop ::
    "(nat \<Rightarrow> byte) \<Rightarrow> bytes \<Rightarrow> parameters \<Rightarrow> nat list \<Rightarrow> nat \<Rightarrow> fieldElement list \<Rightarrow> fieldElement list option" where
  "ballLoop H s p [] pos c = Some c"
| "ballLoop H s p (i # is) pos c =
     Option.bind (ballIndex H i pos) (\<lambda>(j, pos').
       let c' = c[i := c ! unat j];
           bitIdx = i + tau p - 256;
           b = drop_bit (bitIdx mod 8) (s ! (bitIdx div 8)) AND 1
       in ballLoop H s p is pos' (c'[unat j := (if b = 0 then one else minusOne)]))"

definition sampleInBall :: "xof \<Rightarrow> bytes \<Rightarrow> parameters \<Rightarrow> fieldElement list option" where
  "sampleInBall shake256 rho p =
     (let H = shake256 rho; s = readAt H 0 8
      in ballLoop H s p [256 - tau p..<256] 8 (replicate 256 0))"

section \<open>The matrix sampler\<close>

text \<open>Candidate \<open>k\<close> of a stream: three bytes, of which 23 bits are used.\<close>

definition candidate :: "(nat \<Rightarrow> byte) \<Rightarrow> nat \<Rightarrow> fieldElement option" where
  "candidate G k =
     fieldToMontgomery ((u32 (G (3 * k)) OR push_bit 8 (u32 (G (3 * k + 1))) OR push_bit 16 (u32 (G (3 * k + 2)))) AND 8388607)"

definition accepted :: "(nat \<Rightarrow> 'a option) \<Rightarrow> nat \<Rightarrow> nat \<Rightarrow> 'a list" where
  "accepted f k n = List.map_filter f [k..<k + n]"

lemma accepted_0 [simp]: "accepted f k 0 = []"
  by (simp add: accepted_def map_filter_def)

lemma accepted_Suc: "accepted f k (Suc n) = (case f k of None \<Rightarrow> [] | Some x \<Rightarrow> [x]) @ accepted f (Suc k) n"
proof -
  have "[k..<k + Suc n] = k # [Suc k..<Suc k + n]" by (simp add: upt_conv_Cons del: upt_Suc)
  then show ?thesis by (simp add: accepted_def map_filter_def split: option.splits)
qed

lemma length_readAt [simp]: "length (readAt H pos n) = n"
  by (simp add: readAt_def)

lemma nth_readAt [simp]: "i < n \<Longrightarrow> readAt H pos n ! i = H (pos + i)"
  by (simp add: readAt_def)

text \<open>The buffer holds the bytes from the next candidate on, or is used up.\<close>

definition buffered :: "(nat \<Rightarrow> byte) \<Rightarrow> nat \<Rightarrow> nat \<Rightarrow> bytes \<Rightarrow> nat \<Rightarrow> nat \<Rightarrow> bool" where
  "buffered G rate pos buf off next \<longleftrightarrow> length buf = rate \<and>
     (off = rate \<and> pos = next \<or> off < rate \<and> (\<exists>p0. buf = readAt G p0 rate \<and> pos = p0 + rate \<and> next = p0 + off))"

definition refill :: "(nat \<Rightarrow> byte) \<Rightarrow> nat \<Rightarrow> nat \<Rightarrow> bytes \<Rightarrow> nat \<Rightarrow> bytes \<times> nat \<times> nat" where
  "refill G rate pos buf off = (if off \<ge> length buf then (readAt G pos rate, 0, pos + rate) else (buf, off, pos))"

lemma refill_buffered:
  assumes "buffered G rate pos buf off next" "0 < rate"
  obtains p0 buf' off' pos' where "refill G rate pos buf off = (buf', off', pos')" "off' < rate" "buf' = readAt G p0 rate"
    "pos' = p0 + rate" "next = p0 + off'"
  using assms by (auto simp: buffered_def refill_def)

lemma nttLoop_step:
  assumes "buffered G 168 pos buf off (3 * k)" "3 dvd off" "length a < 256"
  obtains pos' buf' off' where "buffered G 168 pos' buf' off' (3 * Suc k)" "3 dvd off'"
    "nttLoop G pos buf off a = nttLoop G pos' buf' off' (a @ (case candidate G k of None \<Rightarrow> [] | Some f \<Rightarrow> [f]))"
proof -
  obtain p0 buf' off' pos' where r: "refill G 168 pos buf off = (buf', off', pos')" "off' < 168" "buf' = readAt G p0 168"
    "pos' = p0 + 168" "3 * k = p0 + off'"
    using assms(1) by (rule refill_buffered) simp
  have d: "3 dvd off'" using r(1) assms(2) by (auto simp: refill_def split: if_splits)
  then have o: "off' + 3 \<le> 168" using r(2) by presburger
  have c: "fieldToMontgomery ((u32 (buf' ! off') OR push_bit 8 (u32 (buf' ! (off' + 1)))
      OR push_bit 16 (u32 (buf' ! (off' + 2)))) AND 8388607) = candidate G k"
    using o unfolding candidate_def r(3,5) by (simp add: add.assoc)
  have eq: "nttLoop G pos buf off a =
      (case candidate G k of None \<Rightarrow> nttLoop G pos' buf' (off' + 3) a | Some f \<Rightarrow> nttLoop G pos' buf' (off' + 3) (a @ [f]))"
    using assms(3) by (subst nttLoop.simps) (simp only: if_True refill_def [symmetric] r(1) prod.case c)
  show thesis
  proof (rule that)
    show "buffered G 168 pos' buf' (off' + 3) (3 * Suc k)"
    proof (cases "off' + 3 = 168")
      case True
      then show ?thesis using r(3-5) by (simp add: buffered_def)
    next
      case False
      then show ?thesis using o r(3-5) by (auto simp: buffered_def)
    qed
    show "3 dvd off' + 3" using d by simp
    show "nttLoop G pos buf off a = nttLoop G pos' buf' (off' + 3) (a @ (case candidate G k of None \<Rightarrow> [] | Some f \<Rightarrow> [f]))"
      unfolding eq by (simp split: option.splits)
  qed
qed

lemma nttLoop_accepted:
  assumes "buffered G 168 pos buf off (3 * k)" "3 dvd off" "length a \<le> 256" "256 \<le> length a + length (accepted (candidate G) k n)"
  shows "nttLoop G pos buf off a = Some (take 256 (a @ accepted (candidate G) k n))"
  using assms
proof (induction n arbitrary: k pos buf off a)
  case 0
  then show ?case by (subst nttLoop.simps) simp
next
  case (Suc n)
  show ?case
  proof (cases "length a < 256")
    case True
    define x where "x = (case candidate G k of None \<Rightarrow> [] | Some f \<Rightarrow> [f])"
    obtain pos' buf' off' where s: "buffered G 168 pos' buf' off' (3 * Suc k)" "3 dvd off'"
      "nttLoop G pos buf off a = nttLoop G pos' buf' off' (a @ x)"
      unfolding x_def by (rule nttLoop_step [OF Suc.prems(1,2) True])
    have x: "length x \<le> 1" by (simp add: x_def split: option.splits)
    have acc: "accepted (candidate G) k (Suc n) = x @ accepted (candidate G) (Suc k) n"
      by (simp add: accepted_Suc x_def)
    show ?thesis unfolding s(3) acc append_assoc [symmetric]
      by (rule Suc.IH [OF s(1,2)]) (use x True Suc.prems(4) acc in simp_all)
  next
    case False
    then show ?thesis using Suc.prems(3) by (subst nttLoop.simps) simp
  qed
qed

lemma toMontgomery_reduced: "fieldToMontgomery v = Some x \<Longrightarrow> reduced x"
proof -
  assume x: "fieldToMontgomery v = Some x"
  then have "unat v < 8380417" by (auto simp: fieldToMontgomery_def q_def word_le_nat_alt split: if_splits)
  then show ?thesis using x by (auto elim: toMontgomery)
qed

lemma nttLoop_wf:
  assumes "nttLoop G pos buf off a = Some b" "list_all reduced a" "length a \<le> 256"
  shows "wf_poly b"
proof -
  have "list_all reduced a \<longrightarrow> length a \<le> 256 \<longrightarrow> wf_poly b"
  proof (rule nttLoop.raw_induct [where P = "\<lambda>G pos buf off a b. list_all reduced a \<longrightarrow> length a \<le> 256 \<longrightarrow> wf_poly b", OF _ assms(1)])
    fix loop G pos buf off a b
    assume IH: "\<And>G pos buf off a b. loop G pos buf off a = Some b \<Longrightarrow> list_all reduced a \<longrightarrow> length a \<le> 256 \<longrightarrow> wf_poly b"
      and body: "(if length a < 256 then
        (case (if off \<ge> length buf then (readAt G pos 168, 0, pos + 168) else (buf, off, pos)) of
           (buf', off', pos') \<Rightarrow>
             (case fieldToMontgomery ((u32 (buf' ! off') OR push_bit 8 (u32 (buf' ! (off' + 1)))
                 OR push_bit 16 (u32 (buf' ! (off' + 2)))) AND 8388607) of
               None \<Rightarrow> loop G pos' buf' (off' + 3) a
             | Some f \<Rightarrow> loop G pos' buf' (off' + 3) (a @ [f])))
      else Some a) = Some b"
    obtain buf' off' pos' where r: "(if off \<ge> length buf then (readAt G pos 168, 0, pos + 168) else (buf, off, pos)) = (buf', off', pos')"
      by (metis prod_cases3)
    show "list_all reduced a \<longrightarrow> length a \<le> 256 \<longrightarrow> wf_poly b"
      using body IH toMontgomery_reduced unfolding r by (fastforce simp: wf_poly_def split: if_splits option.splits)
  qed
  then show ?thesis using assms(2,3) by blast
qed

lemma sampleNTT_wf: "sampleNTT shake128 rho s r = Some a \<Longrightarrow> wf_poly a"
  unfolding sampleNTT_def by (erule nttLoop_wf) simp_all

lemma sampleNTT_accepted:
  assumes "256 \<le> length (accepted (candidate (shake128 (rho @ [s, r]))) 0 n)"
  shows "sampleNTT shake128 rho s r = Some (take 256 (accepted (candidate (shake128 (rho @ [s, r]))) 0 n))"
  unfolding sampleNTT_def using nttLoop_accepted [of "shake128 (rho @ [s, r])" 0 "replicate 168 0" 168 0 "[]" n] assms
  by (simp add: buffered_def)

section \<open>The secret sampler\<close>

text \<open>CoeffFromHalfByte of the standard.\<close>

definition halfSpec :: "nat \<Rightarrow> nat \<Rightarrow> int option" where
  "halfSpec e b =
     (if e = 2 \<and> b < 15 then Some (2 - int (b mod 5)) else if e = 4 \<and> b < 9 then Some (4 - int b) else None)"

lemma barrett5: "\<forall>b \<in> set [0..<15 :: nat].
    unat (u32 (of_nat b) - drop_bit 16 (u32 (of_nat b) * 13108) * 5) = b mod 5"
  by code_simp

lemma half_byte_15: "(b :: byte) AND 15 \<le> 15" "drop_bit 4 (b :: byte) \<le> 15"
proof -
  show "b AND 15 \<le> 15" by (rule word_and_le1)
  show "drop_bit 4 b \<le> 15" using unat_byte_less [of b]
    unfolding word_le_nat_alt unat_drop_bit_eq by (simp add: drop_bit_eq_div)
qed

lemma subToMontgomery_small:
  assumes "unat x \<le> 15"
  shows "reduced (fieldSubToMontgomery 2 x)" "centered (val (fieldSubToMontgomery 2 x)) = 2 - int (unat x)"
    and "reduced (fieldSubToMontgomery 4 x)" "centered (val (fieldSubToMontgomery 4 x)) = 4 - int (unat x)"
proof -
  have x: "reduced x" using assms by (simp add: reduced_def)
  have m: "unat (2 :: uint32) < 2 ^ 31" "unat (4 :: uint32) < 2 ^ 31" by simp_all
  note r2 = subToMontgomery [OF m(1) x] and r4 = subToMontgomery [OF m(2) x]
  show "reduced (fieldSubToMontgomery 2 x)" "reduced (fieldSubToMontgomery 4 x)" by (rule r2(1), rule r4(1))
  have b: "- 4190208 \<le> 2 - int (unat x)" "2 - int (unat x) \<le> 4190208" "- 4190208 \<le> 4 - int (unat x)" "4 - int (unat x) \<le> 4190208"
    using assms by linarith+
  have n: "unat (2 :: uint32) = 2" "unat (4 :: uint32) = 4" by simp_all
  show "centered (val (fieldSubToMontgomery 2 x)) = 2 - int (unat x)"
    by (rule centered_unique [OF _ b(1,2)]) (simp only: r2(2) n of_int_diff of_int_of_nat_eq of_nat_numeral of_int_numeral)
  show "centered (val (fieldSubToMontgomery 4 x)) = 4 - int (unat x)"
    by (rule centered_unique [OF _ b(3,4)]) (simp only: r4(2) n of_int_diff of_int_of_nat_eq of_nat_numeral of_int_numeral)
qed

lemma unat_u32 [simp]: "unat (u32 b) = unat b"
  using unat_byte_less [of b] by (simp add: u32_def unsigned_ucast_eq take_bit_nat_eq_self)

lemma coeffFromHalfByte_spec:
  assumes "b \<le> 15" "eta p = 2 \<or> eta p = 4"
  obtains (none) "coeffFromHalfByte b p = Some None" "halfSpec (eta p) (unat b) = None"
  | (some) x where "coeffFromHalfByte b p = Some (Some x)" "reduced x" "halfSpec (eta p) (unat b) = Some (centered (val x))"
proof (cases "eta p = 2")
  case True
  show thesis
  proof (cases "b > 14")
    case True
    then have "\<not> unat b < 15" by (simp add: word_less_nat_alt)
    then show thesis using none assms(1) True \<open>eta p = 2\<close> by (simp add: coeffFromHalfByte_def halfSpec_def not_less)
  next
    case False
    then have b: "unat b < 15" by (simp add: word_less_nat_alt)
    define x where "x = u32 b - drop_bit 16 (u32 b * 13108) * 5"
    have x: "unat x = unat b mod 5" using bspec [OF barrett5, of "unat b"] b unfolding x_def by simp
    then have "unat x \<le> 15" using mod_less_divisor [of 5 "unat b"] by linarith
    note m = subToMontgomery_small [OF this]
    have "coeffFromHalfByte b p = Some (Some (fieldSubToMontgomery 2 x))"
      using assms(1) False True by (simp add: coeffFromHalfByte_def Let_def x_def not_less)
    moreover have "halfSpec (eta p) (unat b) = Some (centered (val (fieldSubToMontgomery 2 x)))"
      unfolding m(2) x using True b by (simp add: halfSpec_def)
    ultimately show thesis using some m(1) by blast
  qed
next
  case False
  then have e: "eta p = 4" using assms(2) by simp
  show thesis
  proof (cases "b > 8")
    case True
    then have "\<not> unat b < 9" by (simp add: word_less_nat_alt)
    then show thesis using none assms(1) True e by (simp add: coeffFromHalfByte_def halfSpec_def not_less)
  next
    case False
    then have b: "unat b < 9" by (simp add: word_less_nat_alt)
    have "unat (u32 b) \<le> 15" using b by simp
    note m = subToMontgomery_small [OF this]
    have "coeffFromHalfByte b p = Some (Some (fieldSubToMontgomery 4 (u32 b)))"
      using assms(1) False e by (simp add: coeffFromHalfByte_def not_less)
    moreover have "halfSpec (eta p) (unat b) = Some (centered (val (fieldSubToMontgomery 4 (u32 b))))"
      unfolding m(4) unat_u32 using e b by (simp add: halfSpec_def)
    ultimately show thesis using some m(3) by blast
  qed
qed

definition smallCoeff :: "nat \<Rightarrow> fieldElement \<Rightarrow> bool" where
  "smallCoeff e x \<longleftrightarrow> reduced x \<and> \<bar>centered (val x)\<bar> \<le> int e"

definition halfAt :: "(nat \<Rightarrow> byte) \<Rightarrow> nat \<Rightarrow> byte" where
  "halfAt H n = (if even n then H (n div 2) AND 15 else drop_bit 4 (H (n div 2)))"

definition halfCandidate :: "(nat \<Rightarrow> byte) \<Rightarrow> parameters \<Rightarrow> nat \<Rightarrow> fieldElement option" where
  "halfCandidate H p n = (case coeffFromHalfByte (halfAt H n) p of None \<Rightarrow> None | Some c \<Rightarrow> c)"

lemma halfSpec_small: "halfSpec e b = Some v \<Longrightarrow> \<bar>v\<bar> \<le> int e"
  by (auto simp: halfSpec_def split: if_splits)

lemma coeffFromHalfByte_ok:
  assumes "b \<le> 15" "eta p = 2 \<or> eta p = 4"
  obtains c where "coeffFromHalfByte b p = Some c" "list_all (smallCoeff (eta p)) (case c of None \<Rightarrow> [] | Some x \<Rightarrow> [x])"
  using assms
  by (rule coeffFromHalfByte_spec) (auto simp: smallCoeff_def dest: halfSpec_small intro: that)

lemma halfAt_15: "halfAt H n \<le> 15"
  using half_byte_15 by (simp add: halfAt_def)

lemma keep_eq: "keep a c = a @ (case c of None \<Rightarrow> [] | Some x \<Rightarrow> [x])"
  by (simp add: keep_def split: option.splits)

lemma coeff_half:
  assumes "eta p = 2 \<or> eta p = 4" shows "coeffFromHalfByte (halfAt H n) p = Some (halfCandidate H p n)"
proof -
  obtain c where "coeffFromHalfByte (halfAt H n) p = Some c" by (rule coeffFromHalfByte_ok [OF halfAt_15 assms])
  then show ?thesis by (simp add: halfCandidate_def)
qed

lemma boundedLoop_step:
  assumes "buffered H 136 pos buf off k" "length a < 256" and e: "eta p = 2 \<or> eta p = 4"
  obtains pos' buf' off' where "buffered H 136 pos' buf' off' (Suc k)"
    "boundedLoop H p pos buf off a =
      (let a1 = keep a (halfCandidate H p (2 * k)); a2 = keep a1 (halfCandidate H p (2 * k + 1)) in
       if length a1 \<ge> 256 then Some a1 else if length a2 \<ge> 256 then Some a2 else boundedLoop H p pos' buf' off' a2)"
proof -
  obtain p0 buf' off' pos' where r: "refill H 136 pos buf off = (buf', off', pos')" "off' < 136" "buf' = readAt H p0 136"
    "pos' = p0 + 136" "k = p0 + off'"
    using assms(1) by (rule refill_buffered) simp
  have h: "buf' ! off' AND 15 = halfAt H (2 * k)" "drop_bit 4 (buf' ! off') = halfAt H (2 * k + 1)"
    using r(2) unfolding r(3,5) by (simp_all add: halfAt_def)
  have eq: "boundedLoop H p pos buf off a =
      (let a1 = keep a (halfCandidate H p (2 * k)); a2 = keep a1 (halfCandidate H p (2 * k + 1)) in
       if length a1 \<ge> 256 then Some a1 else if length a2 \<ge> 256 then Some a2 else boundedLoop H p pos' buf' (off' + 1) a2)"
    by (subst boundedLoop.simps) (simp only: refill_def [symmetric] r(1) prod.case h coeff_half [OF e] option.case Let_def)
  show thesis
  proof (rule that [OF _ eq])
    show "buffered H 136 pos' buf' (off' + 1) (Suc k)"
    proof (cases "off' + 1 = 136")
      case True
      then show ?thesis using r(3-5) by (simp add: buffered_def)
    next
      case False
      then show ?thesis using r(2-5) by (auto simp: buffered_def)
    qed
  qed
qed

lemma boundedLoop_accepted:
  assumes "buffered H 136 pos buf off k" "length a < 256" "eta p = 2 \<or> eta p = 4"
    and "256 \<le> length a + length (accepted (halfCandidate H p) (2 * k) (2 * n))"
  shows "boundedLoop H p pos buf off a = Some (take 256 (a @ accepted (halfCandidate H p) (2 * k) (2 * n)))"
  using assms
proof (induction n arbitrary: k pos buf off a)
  case (Suc n)
  define x0 x1 where "x0 = (case halfCandidate H p (2 * k) of None \<Rightarrow> [] | Some x \<Rightarrow> [x])"
    and "x1 = (case halfCandidate H p (2 * k + 1) of None \<Rightarrow> [] | Some x \<Rightarrow> [x])"
  have l: "length x0 \<le> 1" "length x1 \<le> 1" by (simp_all add: x0_def x1_def split: option.splits)
  have acc: "accepted (halfCandidate H p) (2 * k) (2 * Suc n) = x0 @ x1 @ accepted (halfCandidate H p) (2 * Suc k) (2 * n)"
    by (simp add: accepted_Suc x0_def x1_def)
  obtain pos' buf' off' where s: "buffered H 136 pos' buf' off' (Suc k)"
    "boundedLoop H p pos buf off a =
      (let a1 = keep a (halfCandidate H p (2 * k)); a2 = keep a1 (halfCandidate H p (2 * k + 1)) in
       if length a1 \<ge> 256 then Some a1 else if length a2 \<ge> 256 then Some a2 else boundedLoop H p pos' buf' off' a2)"
    by (rule boundedLoop_step [OF Suc.prems(1-3)])
  have k: "keep a (halfCandidate H p (2 * k)) = a @ x0" "keep (a @ x0) (halfCandidate H p (2 * k + 1)) = a @ x0 @ x1"
    by (simp_all add: keep_eq x0_def x1_def)
  have IH: "boundedLoop H p pos' buf' off' (a @ x0 @ x1) =
      Some (take 256 ((a @ x0 @ x1) @ accepted (halfCandidate H p) (2 * Suc k) (2 * n)))" if "length (a @ x0 @ x1) < 256"
    by (rule Suc.IH [OF s(1) that Suc.prems(3)]) (use Suc.prems(4) acc in simp)
  show ?case unfolding s(2) acc Let_def k using IH l Suc.prems(2) by auto
qed simp

lemma sampleBoundedPoly_accepted:
  assumes "eta p = 2 \<or> eta p = 4" "256 \<le> length (accepted (halfCandidate (shake256 (rho @ [r, 0])) p) 0 (2 * n))"
  shows "sampleBoundedPoly shake256 rho r p = Some (take 256 (accepted (halfCandidate (shake256 (rho @ [r, 0])) p) 0 (2 * n)))"
  unfolding sampleBoundedPoly_def
  using boundedLoop_accepted [of "shake256 (rho @ [r, 0])" 0 "replicate 136 0" 136 0 "[]" p n] assms by (simp add: buffered_def)

lemma boundedLoop_small:
  assumes "boundedLoop H p pos buf off a = Some b" "eta p = 2 \<or> eta p = 4" "list_all (smallCoeff (eta p)) a" "length a < 256"
  shows "length b = 256 \<and> list_all (smallCoeff (eta p)) b"
proof -
  have "(eta p = 2 \<or> eta p = 4) \<and> list_all (smallCoeff (eta p)) a \<and> length a < 256 \<longrightarrow>
      length b = 256 \<and> list_all (smallCoeff (eta p)) b"
  proof (rule boundedLoop.raw_induct [where P = "\<lambda>H p pos buf off a b. (eta p = 2 \<or> eta p = 4) \<and>
      list_all (smallCoeff (eta p)) a \<and> length a < 256 \<longrightarrow> length b = 256 \<and> list_all (smallCoeff (eta p)) b", OF _ assms(1)], intro impI)
    fix loop H and p :: parameters and pos buf off a b
    assume IH: "\<And>H p pos buf off a b. loop H p pos buf off a = Some b \<Longrightarrow> (eta p = 2 \<or> eta p = 4) \<and>
        list_all (smallCoeff (eta p)) a \<and> length a < 256 \<longrightarrow> length b = 256 \<and> list_all (smallCoeff (eta p)) b"
      and body: "(case (if off \<ge> length buf then (readAt H pos 136, 0, pos + 136) else (buf, off, pos)) of
        (buf', off', pos') \<Rightarrow>
          (case coeffFromHalfByte (buf' ! off' AND 15) p of
            None \<Rightarrow> None
          | Some c0 \<Rightarrow>
              if length (keep a c0) \<ge> 256 then Some (keep a c0)
              else (case coeffFromHalfByte (drop_bit 4 (buf' ! off')) p of
                None \<Rightarrow> None
              | Some c1 \<Rightarrow>
                  if length (keep (keep a c0) c1) \<ge> 256 then Some (keep (keep a c0) c1)
                  else loop H p pos' buf' (off' + 1) (keep (keep a c0) c1)))) = Some b"
      and pre: "(eta p = 2 \<or> eta p = 4) \<and> list_all (smallCoeff (eta p)) a \<and> length a < 256"
    obtain buf' off' pos' where r: "(if off \<ge> length buf then (readAt H pos 136, 0, pos + 136) else (buf, off, pos)) = (buf', off', pos')"
      by (metis prod_cases3)
    obtain c0 where c0: "coeffFromHalfByte (buf' ! off' AND 15) p = Some c0"
      "list_all (smallCoeff (eta p)) (case c0 of None \<Rightarrow> [] | Some x \<Rightarrow> [x])"
      by (rule coeffFromHalfByte_ok [OF half_byte_15(1) conjunct1 [OF pre]])
    obtain c1 where c1: "coeffFromHalfByte (drop_bit 4 (buf' ! off')) p = Some c1"
      "list_all (smallCoeff (eta p)) (case c1 of None \<Rightarrow> [] | Some x \<Rightarrow> [x])"
      by (rule coeffFromHalfByte_ok [OF half_byte_15(2) conjunct1 [OF pre]])
    have k0: "list_all (smallCoeff (eta p)) (keep a c0)" "length (keep a c0) \<le> Suc (length a)"
      using c0(2) pre by (simp_all add: keep_eq split: option.splits)
    have k1: "list_all (smallCoeff (eta p)) (keep (keep a c0) c1)" "length (keep (keep a c0) c1) \<le> Suc (length (keep a c0))"
      using c1(2) k0(1) by (simp_all add: keep_eq [of _ c1] split: option.splits)
    consider "256 \<le> length (keep a c0)" "b = keep a c0"
      | "\<not> 256 \<le> length (keep a c0)" "256 \<le> length (keep (keep a c0) c1)" "b = keep (keep a c0) c1"
      | "\<not> 256 \<le> length (keep (keep a c0) c1)" "loop H p pos' buf' (off' + 1) (keep (keep a c0) c1) = Some b"
      using body unfolding r by (auto simp: c0(1) c1(1) split: if_splits)
    then show "length b = 256 \<and> list_all (smallCoeff (eta p)) b"
    proof cases
      case 3
      then show ?thesis using IH [OF 3(2)] k1(1) pre by simp
    qed (use k0 k1 pre in auto)
  qed
  then show ?thesis using assms by blast
qed

lemma sampleBoundedPoly_small:
  assumes "sampleBoundedPoly shake256 rho r p = Some a" "eta p = 2 \<or> eta p = 4"
  shows "wf_poly a" "list_all (smallCoeff (eta p)) a"
proof -
  have "length a = 256 \<and> list_all (smallCoeff (eta p)) a"
    using assms(1) unfolding sampleBoundedPoly_def by (rule boundedLoop_small) (use assms(2) in simp_all)
  then show "wf_poly a" "list_all (smallCoeff (eta p)) a"
    by (auto simp: wf_poly_def list_all_iff smallCoeff_def)
qed

section \<open>The challenge sampler\<close>

lemma val_units: "val 0 = 0" "val one = 1" "val minusOne = - 1"
proof -
  show "val 0 = 0" by (simp add: val_def)
  have u: "unat one = 4193792" "unat minusOne = 4186625" by (simp_all add: one_def minusOne_def)
  have "val one = of_nat 4193792 * rinv" unfolding val_def u ..
  also have "(of_nat 4193792 :: Zq) = of_nat (2 ^ 32)" unfolding of_nat_Zq_eq by simp
  finally show o: "val one = 1" by (simp only: R_rinv)
  have "val one + val minusOne = of_nat (4193792 + 4186625) * rinv" unfolding val_def u of_nat_add distrib_right ..
  also have "(of_nat (4193792 + 4186625) :: Zq) = of_nat 0" unfolding of_nat_Zq_eq by simp
  finally have "1 + val minusOne = 0" unfolding o by simp
  then show "val minusOne = - 1" by (simp only: add_eq_0_iff)
qed

definition mag :: "fieldElement \<Rightarrow> nat" where
  "mag x = nat \<bar>centered (val x)\<bar>"

lemma centered_units: "centered 0 = 0" "centered 1 = 1" "centered (- 1) = - 1"
  by (rule centered_unique; simp)+

lemma mag_units: "mag 0 = 0" "mag one = 1" "mag minusOne = 1" "reduced 0" "reduced one" "reduced minusOne"
  by (simp_all add: mag_def val_units centered_units) (simp_all add: reduced_def one_def minusOne_def)

definition weight :: "fieldElement list \<Rightarrow> nat" where
  "weight c = sum_list (map mag c)"

lemma weight_update: "k < length c \<Longrightarrow> weight (c[k := x]) + mag (c ! k) = weight c + mag x"
proof -
  assume k: "k < length c"
  have "mag (c ! k) \<le> weight c" unfolding weight_def using k by (intro member_le_sum_list) simp_all
  then show ?thesis using k sum_list_update [of k "map mag c" "mag x"] by (simp add: weight_def map_update)
qed

lemma ballIndex_le:
  assumes "ballIndex H i pos = Some (j, pos')" shows "j \<le> of_nat i"
proof -
  have "case (j, pos') of (j, _) \<Rightarrow> j \<le> of_nat i"
    by (rule ballIndex.raw_induct [where P = "\<lambda>H i pos r. case r of (j, _) \<Rightarrow> j \<le> of_nat i", OF _ assms])
      (auto split: if_splits)
  then show ?thesis by simp
qed

lemma ballIndex_found:
  assumes "H (pos + n) \<le> of_nat i" shows "\<exists>j pos'. ballIndex H i pos = Some (j, pos')"
  using assms
proof (induction n arbitrary: pos)
  case 0
  then show ?case by (subst ballIndex.simps) (simp add: not_less [symmetric])
next
  case (Suc n)
  then show ?case using Suc.IH [of "pos + 1"] by (subst ballIndex.simps) simp
qed

definition ballInv :: "nat \<Rightarrow> nat \<Rightarrow> fieldElement list \<Rightarrow> bool" where
  "ballInv i n c \<longleftrightarrow> length c = 256 \<and> list_all (\<lambda>x. x = 0 \<or> x = one \<or> x = minusOne) c \<and> weight c = n \<and>
     (\<forall>k. i \<le> k \<and> k < 256 \<longrightarrow> c ! k = 0)"

lemma ballInv_step:
  assumes "ballInv i n c" "i < 256" "j \<le> i" "u = one \<or> u = minusOne"
  shows "ballInv (Suc i) (Suc n) ((c[i := c ! j])[j := u])"
proof -
  have c: "length c = 256" "list_all (\<lambda>x. x = 0 \<or> x = one \<or> x = minusOne) c" "weight c = n" "c ! i = 0"
    "\<forall>k. i \<le> k \<and> k < 256 \<longrightarrow> c ! k = 0" using assms(1,2) by (auto simp: ballInv_def)
  have "weight (c[i := c ! j]) = n + mag (c ! j)"
    using weight_update [of i c "c ! j"] c assms(2) by (simp add: mag_units)
  moreover have "c[i := c ! j] ! j = c ! j" using assms(2,3) c(1) by (cases "j = i") simp_all
  ultimately have w: "weight ((c[i := c ! j])[j := u]) = Suc n"
    using weight_update [of j "c[i := c ! j]" u] assms(2-4) c(1) mag_units by auto
  have "list_all (\<lambda>x. x = 0 \<or> x = one \<or> x = minusOne) ((c[i := c ! j])[j := u])"
    using c(1,2) assms(2-4) by (auto simp: list_all_length nth_list_update)
  then show ?thesis using w c assms(2,3) by (auto simp: ballInv_def)
qed

lemma ballLoop_inv:
  assumes "ballLoop H s p [i..<256] pos c = Some c'" "ballInv i n c" "i \<le> 256"
  shows "ballInv 256 (n + (256 - i)) c'"
  using assms
proof (induction "256 - i" arbitrary: i n pos c)
  case 0
  then show ?case by simp
next
  case (Suc d)
  then have i: "[i..<256] = i # [Suc i..<256]" "i < 256" by (simp_all add: upt_conv_Cons)
  obtain j pos' where j: "ballIndex H i pos = Some (j, pos')"
    using Suc.prems(1) unfolding i(1) by (cases "ballIndex H i pos") auto
  have ji: "unat j \<le> i"
    using ballIndex_le [OF j] i(2) by (simp add: word_le_nat_alt unat_of_nat_small8)
  obtain u where u: "u = one \<or> u = minusOne" "ballLoop H s p [Suc i..<256] pos' ((c[i := c ! unat j])[unat j := u]) = Some c'"
    using Suc.prems(1) unfolding i(1) by (auto simp: j Let_def split: if_splits)
  have "ballInv 256 (Suc n + (256 - Suc i)) c'"
    by (rule Suc.hyps(1) [OF _ u(2) ballInv_step [OF Suc.prems(2) i(2) ji u(1)]]) (use Suc.hyps(2) i(2) in simp_all)
  moreover have "Suc n + (256 - Suc i) = n + (256 - i)" using i(2) by linarith
  ultimately show ?case by (simp only:)
qed

lemma sampleInBall_ball:
  assumes "sampleInBall shake256 rho p = Some c" "tau p \<le> 256"
  shows "wf_poly c" "weight c = tau p"
proof -
  have "ballInv (256 - tau p) 0 (replicate 256 0)"
    by (simp add: ballInv_def list_all_length weight_def mag_units sum_list_replicate)
  then have "ballInv 256 (0 + (256 - (256 - tau p))) c"
    using assms(1) unfolding sampleInBall_def Let_def by (intro ballLoop_inv) simp_all
  then show "wf_poly c" "weight c = tau p"
    using assms(2) mag_units(4-6) by (auto simp: ballInv_def wf_poly_def list_all_iff)
qed

lemma ballLoop_found:
  assumes "\<And>pos. \<exists>n. H (pos + n) \<le> of_nat m" "\<And>i. i \<in> set is \<Longrightarrow> m \<le> i \<and> i < 256"
  shows "\<exists>c'. ballLoop H s p is pos c = Some c'"
  using assms(2)
proof (induction "is" arbitrary: pos c)
  case (Cons i "is")
  have "(of_nat m :: byte) \<le> of_nat i"
    using Cons.prems [of i] by (simp add: word_le_nat_alt unat_of_nat_small8)
  then obtain n where "H (pos + n) \<le> of_nat i" using assms(1) [of pos] by (metis order.trans)
  then obtain j pos' where "ballIndex H i pos = Some (j, pos')" using ballIndex_found by blast
  then show ?case using Cons by (simp add: Let_def)
qed simp

text \<open>
  The challenge of the standard (SampleInBall, algorithm 29), over integers: for each index \<open>i\<close> the
  first byte of what is left of the stream that is at most \<open>i\<close> is the position \<open>j\<close>; then
  coefficient \<open>j\<close> moves to \<open>i\<close> and becomes the sign that the next bit of the first eight bytes gives.
\<close>

fun ballPicks :: "nat list \<Rightarrow> nat list \<Rightarrow> nat list option" where
  "ballPicks [] bs = Some []"
| "ballPicks (i # is) bs =
     (case dropWhile (\<lambda>b. i < b) bs of
        [] \<Rightarrow> None
      | j # rest \<Rightarrow> map_option ((#) j) (ballPicks is rest))"

fun ballSwaps :: "(nat \<Rightarrow> int) \<Rightarrow> (nat \<times> nat) list \<Rightarrow> (nat \<Rightarrow> int) \<Rightarrow> nat \<Rightarrow> int" where
  "ballSwaps signs [] c = c"
| "ballSwaps signs ((i, j) # ps) c = ballSwaps signs ps ((c(i := c j))(j := signs i))"

definition ballSign :: "(nat \<Rightarrow> byte) \<Rightarrow> nat \<Rightarrow> nat \<Rightarrow> int" where
  "ballSign H t i = (let k = i + t - 256 in if bit (H (k div 8)) (k mod 8) then - 1 else 1)"

lemma ballIndex_picks:
  assumes "dropWhile (\<lambda>b. i < b) (map (\<lambda>k. unat (H k)) [pos..<e]) = j # rest" "i < 256"
  shows "\<exists>idx :: byte. \<exists>pos'. ballIndex H i pos = Some (idx, pos') \<and> unat idx = j \<and> j \<le> i \<and>
    rest = map (\<lambda>k. unat (H k)) [pos'..<e]"
  using assms(1)
proof (induction "e - pos" arbitrary: pos)
  case (Suc d)
  then have list: "[pos..<e] = pos # [Suc pos..<e]" by (simp add: upt_conv_Cons)
  have cmp: "H pos > of_nat i \<longleftrightarrow> i < unat (H pos)"
    using assms(2) by (simp add: word_less_nat_alt unat_of_nat_small8)
  show ?case
  proof (cases "i < unat (H pos)")
    case True
    then have "ballIndex H i pos = ballIndex H i (Suc pos)" using cmp by (subst ballIndex.simps) simp
    moreover have "d = e - Suc pos" using Suc.hyps(2) by simp
    ultimately show ?thesis using Suc.hyps(1) [of "Suc pos"] Suc.prems True by (simp add: list)
  next
    case False
    then have "ballIndex H i pos = Some (H pos, Suc pos)" using cmp by (subst ballIndex.simps) simp
    then show ?thesis using Suc.prems False by (auto simp: list)
  qed
qed simp

text \<open>A coefficient array that stands for a function of integers.\<close>

definition ballRel :: "fieldElement list \<Rightarrow> (nat \<Rightarrow> int) \<Rightarrow> bool" where
  "ballRel c f \<longleftrightarrow> length c = 256 \<and> (\<forall>k < 256. centered (val (c ! k)) = f k)"

lemma ballRel_step:
  assumes "ballRel c f" "i < 256" "j \<le> i" "centered (val u) = v"
  shows "ballRel ((c[i := c ! j])[j := u]) ((f(i := f j))(j := v))"
  using assms by (auto simp: ballRel_def nth_list_update)

lemma ball_sign:
  assumes "i < 256" "256 \<le> i + tau p" "tau p \<le> 64"
  shows "centered (val (if drop_bit ((i + tau p - 256) mod 8) (readAt H 0 8 ! ((i + tau p - 256) div 8)) AND 1 = 0
    then one else minusOne)) = ballSign H (tau p) i"
proof -
  have k: "(i + tau p - 256) div 8 < 8" using assms by (simp add: div_less_iff_less_mult)
  have b: "drop_bit n x AND 1 = 0 \<longleftrightarrow> \<not> bit x n" for n and x :: byte
    by (simp add: bit_iff_and_drop_bit_eq_1 and_one_eq)
  show ?thesis
    using k by (simp only: b ballSign_def Let_def nth_readAt add_0 if_distrib [of val] if_distrib [of centered] val_units centered_units)
      (simp add: val_units centered_units)
qed

lemma ballLoop_picks:
  assumes "ballPicks is (map (\<lambda>k. unat (H k)) [pos..<e]) = Some js"
    and "\<And>i. i \<in> set is \<Longrightarrow> i < 256 \<and> 256 \<le> i + tau p" "tau p \<le> 64" "ballRel c f"
  shows "\<exists>c'. ballLoop H (readAt H 0 8) p is pos c = Some c' \<and>
    ballRel c' (ballSwaps (ballSign H (tau p)) (zip is js) f)"
  using assms(1,2,4)
proof (induction "is" arbitrary: pos c f js)
  case (Cons i "is")
  obtain j rest js' where d: "dropWhile (\<lambda>b. i < b) (map (\<lambda>k. unat (H k)) [pos..<e]) = j # rest"
    and js: "js = j # js'" "ballPicks is rest = Some js'"
    using Cons.prems(1) by (auto split: list.splits)
  have i: "i < 256" "256 \<le> i + tau p" using Cons.prems(2) by simp_all
  obtain idx :: byte and pos' where idx: "ballIndex H i pos = Some (idx, pos')" "unat idx = j" "j \<le> i"
    "rest = map (\<lambda>k. unat (H k)) [pos'..<e]"
    using ballIndex_picks [OF d i(1)] by blast
  define u where "u = (if drop_bit ((i + tau p - 256) mod 8) (readAt H 0 8 ! ((i + tau p - 256) div 8)) AND 1 = 0
    then one else minusOne)"
  have "centered (val u) = ballSign H (tau p) i" unfolding u_def by (rule ball_sign [OF i assms(3)])
  note rel = ballRel_step [OF Cons.prems(3) i(1) idx(3) this]
  have "ballLoop H (readAt H 0 8) p (i # is) pos c =
      ballLoop H (readAt H 0 8) p is pos' ((c[i := c ! j])[j := u])"
    using idx(1,2) by (simp add: Let_def u_def)
  moreover have "\<exists>c'. ballLoop H (readAt H 0 8) p is pos' ((c[i := c ! j])[j := u]) = Some c' \<and>
      ballRel c' (ballSwaps (ballSign H (tau p)) (zip is js') ((f(i := f j))(j := ballSign H (tau p) i)))"
    by (rule Cons.IH [OF js(2) [unfolded idx(4)] _ rel]) (use Cons.prems(2) in simp)
  ultimately show ?case by (simp only: js(1) zip_Cons_Cons ballSwaps.simps)
qed simp

lemma sampleInBall_picks:
  assumes "ballPicks [256 - tau p..<256] (map (\<lambda>k. unat (shake256 rho k)) [8..<e]) = Some js" "tau p \<le> 64"
  shows "\<exists>c. sampleInBall shake256 rho p = Some c \<and>
    ballRel c (ballSwaps (ballSign (shake256 rho) (tau p)) (zip [256 - tau p..<256] js) (\<lambda>_. 0))"
proof -
  have "ballRel (replicate 256 0) (\<lambda>_. 0)"
    unfolding ballRel_def by (simp add: val_units centered_units del: replicate.simps)
  then show ?thesis
    unfolding sampleInBall_def Let_def by (intro ballLoop_picks [OF assms(1) _ assms(2)]) auto
qed

text \<open>
  C24. The rejection samplers return, and return what the standard prescribes. If among the first
  \<open>n\<close> three-byte groups of the SHAKE-128 stream at least 256 are below \<open>q\<close>, then \<open>sampleNTT\<close> returns
  the first 256 of them, whatever the buffering; the same holds for \<open>sampleBoundedPoly\<close> and
  half-bytes, whose coefficients are then between \<open>-\<eta>\<close> and \<open>\<eta>\<close>. If the first \<open>n\<close> bytes of the SHAKE-256
  stream suffice to find, behind the first eight, for each \<open>i\<close> from \<open>256 - \<tau>\<close> to 255 in turn a byte of
  at most \<open>i\<close>, then \<open>sampleInBall\<close> returns the polynomial that these positions and the bits of the first
  eight bytes as signs give, and it has exactly \<open>\<tau>\<close> coefficients \<open>\<plusminus>1\<close>.
\<close>

theorem samplers_return:
  assumes "eta p = 2 \<or> eta p = 4" and "tau p \<le> 64"
  shows "(256 \<le> length (accepted (candidate (shake128 (rho @ [s, r]))) 0 n) \<longrightarrow>
      sampleNTT shake128 rho s r = Some (take 256 (accepted (candidate (shake128 (rho @ [s, r]))) 0 n))) \<and>
    (256 \<le> length (accepted (halfCandidate (shake256 (rho @ [r, 0])) p) 0 (2 * n)) \<longrightarrow>
      (\<exists>a. sampleBoundedPoly shake256 rho r p = Some a \<and>
        a = take 256 (accepted (halfCandidate (shake256 (rho @ [r, 0])) p) 0 (2 * n)) \<and> list_all (smallCoeff (eta p)) a)) \<and>
    (\<forall>js. ballPicks [256 - tau p..<256] (map (\<lambda>k. unat (shake256 rho k)) [8..<n]) = Some js \<longrightarrow>
      (\<exists>c. sampleInBall shake256 rho p = Some c \<and> wf_poly c \<and> weight c = tau p \<and>
        (\<forall>k < 256. centered (val (c ! k)) =
          ballSwaps (ballSign (shake256 rho) (tau p)) (zip [256 - tau p..<256] js) (\<lambda>_. 0) k)))"
proof (intro conjI impI allI)
  assume "256 \<le> length (accepted (candidate (shake128 (rho @ [s, r]))) 0 n)"
  then show "sampleNTT shake128 rho s r = Some (take 256 (accepted (candidate (shake128 (rho @ [s, r]))) 0 n))"
    by (rule sampleNTT_accepted)
next
  assume "256 \<le> length (accepted (halfCandidate (shake256 (rho @ [r, 0])) p) 0 (2 * n))"
  from sampleBoundedPoly_accepted [of p shake256 rho r n, OF assms(1) this]
  show "\<exists>a. sampleBoundedPoly shake256 rho r p = Some a \<and>
      a = take 256 (accepted (halfCandidate (shake256 (rho @ [r, 0])) p) 0 (2 * n)) \<and> list_all (smallCoeff (eta p)) a"
    using sampleBoundedPoly_small [OF _ assms(1)] by blast
next
  fix js
  assume "ballPicks [256 - tau p..<256] (map (\<lambda>k. unat (shake256 rho k)) [8..<n]) = Some js"
  from sampleInBall_picks [of p shake256 rho n, OF this assms(2)]
  show "\<exists>c. sampleInBall shake256 rho p = Some c \<and> wf_poly c \<and> weight c = tau p \<and>
      (\<forall>k < 256. centered (val (c ! k)) =
        ballSwaps (ballSign (shake256 rho) (tau p)) (zip [256 - tau p..<256] js) (\<lambda>_. 0) k)"
    using sampleInBall_ball [of shake256 rho p] assms(2) by (auto simp: ballRel_def)
qed

theorem samplers_return_witness:
  "sampleNTT (\<lambda>_ _. 0) [] 0 0 = Some (replicate 256 0) \<and>
   (\<exists>c. sampleInBall (\<lambda>_ _. 34) [] params44 = Some c \<and> weight c = 39 \<and>
      centered (val (c ! 217)) = 0 \<and> centered (val (c ! 218)) = 1 \<and> centered (val (c ! 219)) = - 1)"
proof -
  have p: "eta params44 = 2 \<or> eta params44 = 4" "tau params44 \<le> 64" by (simp_all add: params44_def)
  have tau: "tau params44 = 39" by (simp add: params44_def)
  have "candidate (\<lambda>_. 0) k = Some 0" for k
  proof -
    have "fieldMontgomeryMul 0 RR = 0"
      using val_inject [OF montgomeryMul_any(1) [OF reduced_RR, of 0] mag_units(4)]
      by (simp add: montgomeryMul_any(2) [OF reduced_RR] val_units)
    then show ?thesis by (simp add: candidate_def u32_def fieldToMontgomery_def q_def)
  qed
  then have a: "accepted (candidate (\<lambda>_. 0)) k n = replicate n 0" for k n
    by (induction n arbitrary: k) (simp_all add: accepted_Suc)
  note t = samplers_return [OF p, of "\<lambda>_ _. 0" "[]" 0 0 256 "\<lambda>_ _. 34"]
  have "256 \<le> length (accepted (candidate (\<lambda>_. 0)) 0 256)" by (simp only: a length_replicate)
  from mp [OF conjunct1 [OF t] this] have n: "sampleNTT (\<lambda>_ _. 0) [] 0 0 = Some (replicate 256 0)"
    by (simp only: a take_replicate min.idem)
  have picks: "ballPicks [256 - tau params44..<256] (map (\<lambda>k. unat (34 :: byte)) [8..<256]) = Some (replicate 39 34)"
    unfolding tau by code_simp
  have swaps: "ballSwaps (ballSign (\<lambda>_. 34) 39) (zip [256 - 39..<256] (replicate 39 34)) (\<lambda>_. 0) 217 = 0"
    "ballSwaps (ballSign (\<lambda>_. 34) 39) (zip [256 - 39..<256] (replicate 39 34)) (\<lambda>_. 0) 218 = 1"
    "ballSwaps (ballSign (\<lambda>_. 34) 39) (zip [256 - 39..<256] (replicate 39 34)) (\<lambda>_. 0) 219 = - 1"
    by code_simp+
  from spec [OF conjunct2 [OF conjunct2 [OF t]], THEN mp, OF picks]
  obtain c where c: "sampleInBall (\<lambda>_ _. 34) [] params44 = Some c" "weight c = tau params44"
    "\<And>k. k < 256 \<Longrightarrow> centered (val (c ! k)) =
      ballSwaps (ballSign (\<lambda>_. 34) (tau params44)) (zip [256 - tau params44..<256] (replicate 39 34)) (\<lambda>_. 0) k"
    by blast
  show ?thesis
    using n c(1,2) c(3) [of 217] c(3) [of 218] c(3) [of 219] swaps unfolding tau
    by (intro conjI exI [of _ c]) simp_all
qed

end
