(* ===== verification/MLDSA_Sign.thy ===== *)
theory MLDSA_Sign
  imports MLDSA_Sample
begin

text \<open>
  Key generation, signing and verification of \<open>internal/mldsa/mldsa.go\<close>. The two SHAKE functions
  are parameters, and so are the random bytes of \<open>Sign\<close>. An operation that may panic or may not
  return has an option type.
\<close>

section \<open>Operations on ring elements\<close>

definition highBits :: "fieldElement list \<Rightarrow> parameters \<Rightarrow> bytes option" where
  "highBits r p =
     (if gamma2 p = 32 then Some (map (\<lambda>x. highBits32 (fieldFromMontgomery x)) r)
      else if gamma2 p = 88 then Some (map (\<lambda>x. highBits88 (fieldFromMontgomery x)) r) else None)"

definition useHint :: "fieldElement list \<Rightarrow> bytes \<Rightarrow> parameters \<Rightarrow> bytes option" where
  "useHint r h p =
     (if gamma2 p = 32 then Some (map2 useHint32 r h)
      else if gamma2 p = 88 then Some (map2 useHint88 r h) else None)"

definition hintCount :: "bytes \<Rightarrow> nat" where
  "hintCount h = sum_list (map unat h)"

definition makeHint ::
    "fieldElement list \<Rightarrow> fieldElement list \<Rightarrow> fieldElement list \<Rightarrow> parameters \<Rightarrow> (bytes \<times> nat) option" where
  "makeHint ct0 w cs2 p =
     (if gamma2 p = 32 then
        let h = map (\<lambda>i. makeHint32 (ct0 ! i) (w ! i) (cs2 ! i)) [0..<256] in Some (h, hintCount h)
      else if gamma2 p = 88 then
        let h = map (\<lambda>i. makeHint88 (ct0 ! i) (w ! i) (cs2 ! i)) [0..<256] in Some (h, hintCount h)
      else None)"

definition coefficientsExceedBound :: "fieldElement list \<Rightarrow> uint32 \<Rightarrow> bool" where
  "coefficientsExceedBound w bound = list_ex (\<lambda>x. fieldInfinityNorm x \<ge> bound) w"

definition lowBitsExceedBound :: "fieldElement list \<Rightarrow> uint32 \<Rightarrow> parameters \<Rightarrow> bool option" where
  "lowBitsExceedBound w bound p =
     (if gamma2 p = 32 then Some (list_ex (\<lambda>x. constantTimeAbs (snd (decompose32 x)) \<ge> bound) w)
      else if gamma2 p = 88 then Some (list_ex (\<lambda>x. constantTimeAbs (snd (decompose88 x)) \<ge> bound) w)
      else None)"

definition rowProduct ::
    "fieldElement list list \<Rightarrow> fieldElement list list \<Rightarrow> nat \<Rightarrow> fieldElement list \<Rightarrow> nat \<Rightarrow> fieldElement list" where
  "rowProduct A v l acc i = foldl (\<lambda>acc j. polyAdd acc (nttMul (A ! (i * l + j)) (v ! j))) acc [0..<l]"

abbreviation zeroPoly :: "fieldElement list" where
  "zeroPoly \<equiv> replicate 256 0"

section \<open>Keys\<close>

record PublicKey =
  pkRaw :: bytes
  pkParams :: parameters
  pkA :: "fieldElement list list"
  pkT1 :: "fieldElement list list"
  pkTr :: bytes

record PrivateKey =
  skSeed :: bytes
  skPub :: PublicKey
  skS1 :: "fieldElement list list"
  skS2 :: "fieldElement list list"
  skT0 :: "fieldElement list list"
  skK :: bytes

definition computeMatrixA :: "xof \<Rightarrow> bytes \<Rightarrow> parameters \<Rightarrow> fieldElement list list option" where
  "computeMatrixA shake128 rho p =
     those (concat (map (\<lambda>r. map (\<lambda>s. sampleNTT shake128 rho (of_nat s) (of_nat r)) [0..<dimL p]) [0..<dimK p]))"

definition computePublicKeyHash :: "xof \<Rightarrow> bytes \<Rightarrow> bytes" where
  "computePublicKeyHash shake256 pk = readAt (shake256 pk) 0 64"

definition computeT1Hat :: "uint16 list list \<Rightarrow> fieldElement list list" where
  "computeT1Hat t1 =
     map (\<lambda>row. ntt (map (\<lambda>c. case fieldToMontgomery (push_bit 13 (ucast c)) of None \<Rightarrow> 0 | Some x \<Rightarrow> x) row)) t1"

definition newPrivateKey :: "xof \<Rightarrow> xof \<Rightarrow> bytes \<Rightarrow> parameters \<Rightarrow> PrivateKey option" where
  "newPrivateKey shake128 shake256 seed p =
     (let k = dimK p; l = dimL p;
          xi = shake256 (seed @ [of_nat k, of_nat l]);
          rho = readAt xi 0 32; rhos = readAt xi 32 64; kk = readAt xi 96 32
      in Option.bind (computeMatrixA shake128 rho p) (\<lambda>A.
         Option.bind (those (map (\<lambda>r. map_option ntt (sampleBoundedPoly shake256 rhos (of_nat r) p)) [0..<l])) (\<lambda>s1.
         Option.bind (those (map (\<lambda>r. map_option ntt (sampleBoundedPoly shake256 rhos (of_nat (l + r)) p)) [0..<k])) (\<lambda>s2.
           let tHat = map (\<lambda>i. rowProduct A s1 l (s2 ! i) i) [0..<k];
               t = map inverseNTT tHat;
               t1 = map (map (\<lambda>x. fst (power2Round x))) t;
               t0 = map (\<lambda>row. ntt (map (\<lambda>x. snd (power2Round x)) row)) t;
               pk = pkEncode [] rho t1 p
           in Some \<lparr>skSeed = seed,
                skPub = \<lparr>pkRaw = pk, pkParams = p, pkA = A, pkT1 = computeT1Hat t1,
                  pkTr = computePublicKeyHash shake256 pk\<rparr>,
                skS1 = s1, skS2 = s2, skT0 = t0, skK = kk\<rparr>))))"

definition NewPrivateKey44 :: "xof \<Rightarrow> xof \<Rightarrow> bytes \<Rightarrow> (mldsa_error + PrivateKey) option" where
  "NewPrivateKey44 shake128 shake256 seed =
     (if length seed \<noteq> 32 then Some (Inl ErrInvalidSeedLength)
      else map_option Inr (newPrivateKey shake128 shake256 seed params44))"

definition NewPrivateKey65 :: "xof \<Rightarrow> xof \<Rightarrow> bytes \<Rightarrow> (mldsa_error + PrivateKey) option" where
  "NewPrivateKey65 shake128 shake256 seed =
     (if length seed \<noteq> 32 then Some (Inl ErrInvalidSeedLength)
      else map_option Inr (newPrivateKey shake128 shake256 seed params65))"

definition NewPrivateKey87 :: "xof \<Rightarrow> xof \<Rightarrow> bytes \<Rightarrow> (mldsa_error + PrivateKey) option" where
  "NewPrivateKey87 shake128 shake256 seed =
     (if length seed \<noteq> 32 then Some (Inl ErrInvalidSeedLength)
      else map_option Inr (newPrivateKey shake128 shake256 seed params87))"

definition newPublicKey :: "xof \<Rightarrow> xof \<Rightarrow> bytes \<Rightarrow> parameters \<Rightarrow> (mldsa_error + PublicKey) option" where
  "newPublicKey shake128 shake256 pk p =
     (case pkDecode pk p of
        Inl e \<Rightarrow> Some (Inl e)
      | Inr (rho, t1) \<Rightarrow>
          map_option (\<lambda>A. Inr \<lparr>pkRaw = pk, pkParams = p, pkA = A, pkT1 = computeT1Hat t1,
              pkTr = computePublicKeyHash shake256 pk\<rparr>) (computeMatrixA shake128 rho p))"

definition NewPublicKey44 :: "xof \<Rightarrow> xof \<Rightarrow> bytes \<Rightarrow> (mldsa_error + PublicKey) option" where
  "NewPublicKey44 shake128 shake256 pk = newPublicKey shake128 shake256 pk params44"

definition NewPublicKey65 :: "xof \<Rightarrow> xof \<Rightarrow> bytes \<Rightarrow> (mldsa_error + PublicKey) option" where
  "NewPublicKey65 shake128 shake256 pk = newPublicKey shake128 shake256 pk params65"

definition NewPublicKey87 :: "xof \<Rightarrow> xof \<Rightarrow> bytes \<Rightarrow> (mldsa_error + PublicKey) option" where
  "NewPublicKey87 shake128 shake256 pk = newPublicKey shake128 shake256 pk params87"

section \<open>Signing\<close>

definition computeMessageHash :: "xof \<Rightarrow> bytes \<Rightarrow> bytes \<Rightarrow> bytes \<Rightarrow> mldsa_error + bytes" where
  "computeMessageHash shake256 tr msg ctx =
     (if length ctx > 255 then Inl ErrContextTooLong
      else Inr (readAt (shake256 (tr @ [0] @ [of_nat (length ctx)] @ ctx @ msg)) 0 64))"

definition littleEndian16 :: "nat \<Rightarrow> bytes" where
  "littleEndian16 kappa = (let v = (of_nat kappa :: uint16) in [ucast v, ucast (drop_bit 8 v)])"

primrec commitAll :: "bytes \<Rightarrow> bytes list \<Rightarrow> parameters \<Rightarrow> bytes option" where
  "commitAll H [] p = Some H"
| "commitAll H (w # ws) p = Option.bind (w1Encode H w p) (\<lambda>H'. commitAll H' ws p)"

definition maskVector :: "xof \<Rightarrow> parameters \<Rightarrow> bytes \<Rightarrow> nat \<Rightarrow> fieldElement list list option" where
  "maskVector shake256 p nonce kappa =
     those (map (\<lambda>r. bitUnpack (readAt (shake256 (nonce @ littleEndian16 (kappa + r))) 0 ((gamma1 p + 1) * 256 div 8)) p)
       [0..<dimL p])"

datatype attempt = Rejected string | Accepted bytes

definition signAttempt :: "xof \<Rightarrow> PrivateKey \<Rightarrow> bytes \<Rightarrow> bytes \<Rightarrow> nat \<Rightarrow> attempt option" where
  "signAttempt shake256 priv mu nonce kappa =
     (let p = pkParams (skPub priv); k = dimK p; l = dimL p;
          A = pkA (skPub priv); s1 = skS1 priv; s2 = skS2 priv; t0 = skT0 priv;
          beta = tau p * eta p;
          g1b = 2 ^ gamma1 p - of_nat beta :: uint32;
          g2 = (q - 1) div of_nat (gamma2 p) :: uint32;
          g2b = g2 - of_nat beta
      in Option.bind (maskVector shake256 p nonce kappa) (\<lambda>y.
         let yHat = map ntt y;
             w = map (\<lambda>i. inverseNTT (rowProduct A yHat l zeroPoly i)) [0..<k]
         in Option.bind (those (map (\<lambda>x. highBits x p) w)) (\<lambda>w1.
            Option.bind (commitAll mu w1 p) (\<lambda>H.
            let ch = readAt (shake256 H) 0 (lambda p div 4)
            in Option.bind (sampleInBall shake256 ch p) (\<lambda>cc.
               let c = ntt cc;
                   cs1 = map (\<lambda>s. inverseNTT (nttMul c s)) s1;
                   cs2 = map (\<lambda>s. inverseNTT (nttMul c s)) s2;
                   zs = map2 polyAdd y cs1
               in if list_ex (\<lambda>x. coefficientsExceedBound x g1b) zs then Some (Rejected ''z'')
                  else Option.bind (those (map2 (\<lambda>x cx. lowBitsExceedBound (polySub x cx) g2b p) w cs2)) (\<lambda>lows.
                    if list_ex id lows then Some (Rejected ''r0'')
                    else let ct0 = map (\<lambda>t. inverseNTT (nttMul c t)) t0
                      in if list_ex (\<lambda>x. coefficientsExceedBound x g2) ct0 then Some (Rejected ''ct0'')
                         else Option.bind (those (map (\<lambda>i. makeHint (ct0 ! i) (w ! i) (cs2 ! i) p) [0..<k])) (\<lambda>hs.
                           if sum_list (map snd hs) > omega p then Some (Rejected ''h'')
                           else map_option Accepted (sigEncode ch zs (map fst hs) p))))))))"

partial_function (option) signLoop :: "xof \<Rightarrow> PrivateKey \<Rightarrow> bytes \<Rightarrow> bytes \<Rightarrow> nat \<Rightarrow> bytes option" where
  "signLoop shake256 priv mu nonce kappa =
     (case signAttempt shake256 priv mu nonce kappa of
        None \<Rightarrow> None
      | Some (Accepted sig) \<Rightarrow> Some sig
      | Some (Rejected _) \<Rightarrow> signLoop shake256 priv mu nonce (kappa + dimL (pkParams (skPub priv))))"

definition signInternal :: "xof \<Rightarrow> PrivateKey \<Rightarrow> bytes \<Rightarrow> bytes \<Rightarrow> bytes option" where
  "signInternal shake256 priv mu random =
     (let nonce = readAt (shake256 (skK priv @ random @ mu)) 0 64
      in signLoop shake256 priv mu nonce 0)"

definition Sign :: "xof \<Rightarrow> bytes \<Rightarrow> PrivateKey \<Rightarrow> bytes \<Rightarrow> bytes \<Rightarrow> (mldsa_error + bytes) option" where
  "Sign shake256 random priv msg ctx =
     (case computeMessageHash shake256 (pkTr (skPub priv)) msg ctx of
        Inl e \<Rightarrow> Some (Inl e)
      | Inr mu \<Rightarrow> map_option Inr (signInternal shake256 priv mu random))"

definition SignDeterministic :: "xof \<Rightarrow> PrivateKey \<Rightarrow> bytes \<Rightarrow> bytes \<Rightarrow> (mldsa_error + bytes) option" where
  "SignDeterministic shake256 priv msg ctx =
     (case computeMessageHash shake256 (pkTr (skPub priv)) msg ctx of
        Inl e \<Rightarrow> Some (Inl e)
      | Inr mu \<Rightarrow> map_option Inr (signInternal shake256 priv mu (replicate 32 0)))"

definition SignExternalMu :: "xof \<Rightarrow> bytes \<Rightarrow> PrivateKey \<Rightarrow> bytes \<Rightarrow> (mldsa_error + bytes) option" where
  "SignExternalMu shake256 random priv mu =
     (if length mu \<noteq> 64 then Some (Inl ErrMessageHashLength)
      else map_option Inr (signInternal shake256 priv mu random))"

definition SignExternalMuDeterministic :: "xof \<Rightarrow> PrivateKey \<Rightarrow> bytes \<Rightarrow> (mldsa_error + bytes) option" where
  "SignExternalMuDeterministic shake256 priv mu =
     (if length mu \<noteq> 64 then Some (Inl ErrMessageHashLength)
      else map_option Inr (signInternal shake256 priv mu (replicate 32 0)))"

section \<open>Verification\<close>

definition verifyInternal :: "xof \<Rightarrow> PublicKey \<Rightarrow> bytes \<Rightarrow> bytes \<Rightarrow> (mldsa_error + unit) option" where
  "verifyInternal shake256 pub mu sig =
     (let p = pkParams pub; k = dimK p; l = dimL p; t1 = pkT1 pub; A = pkA pub;
          g1b = 2 ^ gamma1 p - of_nat (tau p * eta p) :: uint32
      in Option.bind (sigDecode sig p) (\<lambda>d. case d of
          Inl e \<Rightarrow> Some (Inl e)
        | Inr (ch, zs, h) \<Rightarrow>
            Option.bind (sampleInBall shake256 ch p) (\<lambda>cc.
            let c = ntt cc; zHat = map ntt zs;
                w = map (\<lambda>i. inverseNTT (polySub (rowProduct A zHat l zeroPoly i) (nttMul c (t1 ! i)))) [0..<k]
            in Option.bind (those (map2 (\<lambda>x hx. useHint x hx p) w h)) (\<lambda>w1.
               Option.bind (commitAll mu w1 p) (\<lambda>H.
               let computedCH = readAt (shake256 H) 0 (lambda p div 4)
               in if list_ex (\<lambda>x. coefficientsExceedBound x g1b) zs then Some (Inl ErrInvalidSignatureCoeffBounds)
                  else if ch \<noteq> computedCH then Some (Inl ErrInvalidSignatureChallenge)
                  else Some (Inr ()))))))"

definition Verify :: "xof \<Rightarrow> PublicKey \<Rightarrow> bytes \<Rightarrow> bytes \<Rightarrow> bytes \<Rightarrow> (mldsa_error + unit) option" where
  "Verify shake256 pub msg sig ctx =
     (case computeMessageHash shake256 (pkTr pub) msg ctx of
        Inl e \<Rightarrow> Some (Inl e)
      | Inr mu \<Rightarrow> verifyInternal shake256 pub mu sig)"

definition VerifyExternalMu :: "xof \<Rightarrow> PublicKey \<Rightarrow> bytes \<Rightarrow> bytes \<Rightarrow> (mldsa_error + unit) option" where
  "VerifyExternalMu shake256 pub mu sig =
     (if length mu \<noteq> 64 then Some (Inl ErrMessageHashLength) else verifyInternal shake256 pub mu sig)"

end
