(* ===== verification/MLDSA_Correct.thy ===== *)
theory MLDSA_Correct
  imports MLDSA_Sign
begin

text \<open>
  Correctness of the ML-DSA implementation: a public key read from its encoding is the one of the
  private key, and every signature that the signing loop returns is accepted by verification,
  whatever the key, the message, the randomness and the two SHAKE functions.
\<close>

section \<open>Lists of results\<close>

lemma those_Some: "those xs = Some ys \<longleftrightarrow> xs = map Some ys"
proof (induction xs arbitrary: ys)
  case (Cons x xs)
  show ?case by (cases x; cases ys) (auto simp: Cons)
qed auto

lemma those_map: "those (map f xs) = Some ys \<longleftrightarrow> length ys = length xs \<and> (\<forall>i < length xs. f (xs ! i) = Some (ys ! i))"
  unfolding those_Some list_eq_iff_nth_eq by auto

section \<open>Matrix rows\<close>

lemma rowProduct:
  assumes "wf_poly acc" "\<And>j. j < l \<Longrightarrow> wf_poly (A ! (i * l + j))" "\<And>j. j < l \<Longrightarrow> wf_poly (v ! j)"
  shows "wf_poly (rowProduct A v l acc i)"
    and "x < 256 \<Longrightarrow> coeff (rowProduct A v l acc i) x = coeff acc x + (\<Sum>j < l. coeff (A ! (i * l + j)) x * coeff (v ! j) x)"
proof -
  have "wf_poly (foldl (\<lambda>acc j. polyAdd acc (nttMul (A ! (i * l + j)) (v ! j))) acc [0..<n]) \<and>
      (x < 256 \<longrightarrow> coeff (foldl (\<lambda>acc j. polyAdd acc (nttMul (A ! (i * l + j)) (v ! j))) acc [0..<n]) x =
        coeff acc x + (\<Sum>j < n. coeff (A ! (i * l + j)) x * coeff (v ! j) x))" if "n \<le> l" for n
    using that
  proof (induction n)
    case (Suc n)
    have n: "wf_poly (nttMul (A ! (i * l + n)) (v ! n))"
      "x < 256 \<Longrightarrow> coeff (nttMul (A ! (i * l + n)) (v ! n)) x = coeff (A ! (i * l + n)) x * coeff (v ! n) x"
      using nttMul [OF assms(2,3), of n n] Suc.prems by simp_all
    show ?case using Suc polyAdd [OF _ n(1)] n(2) by (simp add: add.assoc)
  qed (use assms(1) in simp)
  from this [of l] show "wf_poly (rowProduct A v l acc i)"
    "x < 256 \<Longrightarrow> coeff (rowProduct A v l acc i) x = coeff acc x + (\<Sum>j < l. coeff (A ! (i * l + j)) x * coeff (v ! j) x)"
    by (simp_all add: rowProduct_def)
qed

lemma wf_zeroPoly: "wf_poly zeroPoly" "x < 256 \<Longrightarrow> coeff zeroPoly x = 0"
  by (simp_all add: wf_poly_def list_all_length mag_units coeff_def val_units)

section \<open>The norm of a product\<close>

lemma of_int_conv:
  assumes "k < 256" shows "(of_int (conv C S k) :: Zq) = conv (\<lambda>i. of_int (C i)) (\<lambda>i. of_int (S i)) k"
  unfolding conv_def of_int_sum by (rule sum.cong) simp_all

lemma conv_cong:
  assumes "k < 256" "\<And>i. i < 256 \<Longrightarrow> V i = V' i" "\<And>i. i < 256 \<Longrightarrow> W i = W' i"
  shows "conv V W k = conv V' W' k"
  unfolding conv_def by (rule sum.cong) (use assms in auto)

lemma conv_bound:
  fixes C S :: "nat \<Rightarrow> int"
  assumes "k < 256" "\<And>i. i < 256 \<Longrightarrow> \<bar>S i\<bar> \<le> e"
  shows "\<bar>conv C S k\<bar> \<le> (\<Sum>i < 256. \<bar>C i\<bar>) * e"
proof -
  have "\<bar>conv C S k\<bar> \<le> (\<Sum>i < 256. \<bar>C i * (if i \<le> k then S (k - i) else - S (256 + k - i))\<bar>)"
    unfolding conv_def by (rule sum_abs)
  also have "\<dots> \<le> (\<Sum>i < 256. \<bar>C i\<bar> * e)"
  proof (rule sum_mono)
    fix i :: nat assume "i \<in> {..< 256}"
    then have "\<bar>if i \<le> k then S (k - i) else - S (256 + k - i)\<bar> \<le> e"
      using assms(1) assms(2) [of "k - i"] assms(2) [of "256 + k - i"] by auto
    then show "\<bar>C i * (if i \<le> k then S (k - i) else - S (256 + k - i))\<bar> \<le> \<bar>C i\<bar> * e"
      unfolding abs_mult by (intro mult_left_mono) simp_all
  qed
  finally show ?thesis by (simp add: sum_distrib_right)
qed

lemma weight_sum: "length c = 256 \<Longrightarrow> int (weight c) = (\<Sum>i < 256. \<bar>centered (coeff c i)\<bar>)"
  by (simp add: weight_def sum_list_sum_nth mag_def coeff_def atLeast0LessThan)

lemma product_small:
  assumes "wf_poly c" "wf_poly s" "list_all (smallCoeff e) s" "int (weight c) * int e \<le> 4190208" "k < 256"
  shows "\<bar>centered (coeff (inverseNTT (nttMul (ntt c) (ntt s))) k)\<bar> \<le> int (weight c * e)"
proof -
  define C S where "C i = centered (coeff c i)" and "S i = centered (coeff s i)" for i
  have l: "length c = 256" "length s = 256" using assms(1,2) by (simp_all add: wf_poly_def)
  have "\<bar>conv C S k\<bar> \<le> (\<Sum>i < 256. \<bar>C i\<bar>) * int e"
    by (rule conv_bound [OF assms(5)]) (use assms(3) l in \<open>simp add: S_def coeff_def smallCoeff_def list_all_length\<close>)
  then have b: "\<bar>conv C S k\<bar> \<le> int (weight c) * int e" unfolding weight_sum [OF l(1)] C_def .
  have "coeff (inverseNTT (nttMul (ntt c) (ntt s))) k = of_int (conv C S k)"
    unfolding product_coeff [OF assms(1,2,5)] of_int_conv [OF assms(5)]
    by (rule conv_cong [OF assms(5)]) (simp_all add: C_def S_def of_int_centered)
  then have "centered (coeff (inverseNTT (nttMul (ntt c) (ntt s))) k) = conv C S k"
    using centered_unique [of "conv C S k"] b assms(4) by simp
  then show ?thesis using b by simp
qed

section \<open>The checks of the signer\<close>

lemma coefficients_within:
  assumes "\<not> coefficientsExceedBound w bound" "wf_poly w" "x < 256"
  shows "\<bar>centered (coeff w x)\<bar> < int (unat bound)"
proof -
  have "w ! x \<in> set w" "reduced (w ! x)" using assms(2,3) by (simp_all add: wf_poly_def list_all_length)
  then have "fieldInfinityNorm (w ! x) < bound" using assms(1) by (auto simp: coefficientsExceedBound_def list_ex_iff not_le)
  then have "int (unat (fieldInfinityNorm (w ! x))) < int (unat bound)" by (simp only: word_less_nat_alt of_nat_less_iff)
  then show ?thesis unfolding infinityNorm [OF \<open>reduced (w ! x)\<close>] coeff_def .
qed

lemma abs_within:
  assumes "constantTimeAbs r0 < bound" "\<bar>r0\<bar> < 2 ^ 31" shows "\<bar>r0\<bar> < int (unat bound)"
proof -
  have "constantTimeSelectLessOrEqual 0 r0 r0 (- r0) = (if 0 \<le> r0 then r0 else - r0)"
    by (rule constantTimeSelectLessOrEqual_eq) (use assms(2) in linarith)+
  then have "constantTimeAbs r0 = word_of_int \<bar>r0\<bar>" by (simp add: constantTimeAbs_def abs_if)
  then have "int (unat (constantTimeAbs r0)) = \<bar>r0\<bar>" using assms(2) by (simp add: unsigned_of_int take_bit_int_eq_self)
  then show ?thesis using assms(1) by (simp only: word_less_nat_alt)
qed

lemma low_bits_bounded:
  assumes "reduced r"
  shows "\<bar>snd (decompose32 r)\<bar> < 2 ^ 31" "\<bar>snd (decompose88 r)\<bar> < 2 ^ 31"
proof -
  obtain a b t where "decomposeSpec (2 * 261888) (residue r) = (a, b)" "- 261888 \<le> b" "b \<le> 261888"
    by (rule r32.parts [OF residue(1,2) [OF assms]])
  then show "\<bar>snd (decompose32 r)\<bar> < 2 ^ 31" using decompose32_spec [OF assms] by (cases "decompose32 r") simp
  obtain a b t where "decomposeSpec (2 * 95232) (residue r) = (a, b)" "- 95232 \<le> b" "b \<le> 95232"
    by (rule r88.parts [OF residue(1,2) [OF assms]])
  then show "\<bar>snd (decompose88 r)\<bar> < 2 ^ 31" using decompose88_spec [OF assms] by (cases "decompose88 r") simp
qed

section \<open>One row of the commitment\<close>

definition gamma2Value :: "parameters \<Rightarrow> int" where
  "gamma2Value p = (8380417 - 1) div int (gamma2 p)"

lemma valid_params_cases [consumes 1]:
  assumes "valid_params p"
  obtains "gamma2 p = 32" "gamma2Value p = 261888" | "gamma2 p = 88" "gamma2Value p = 95232"
  using assms by (auto simp: valid_params_def gamma2Value_def params44_def params65_def params87_def)

text \<open>
  The verifier recovers a row of the commitment: from \<open>w - c s\<^sub>2 + c t\<^sub>0\<close> and the hints it computes
  the high bits of \<open>w\<close>, if the checks of the signer passed.
\<close>

lemma row_recovered:
  assumes p: "valid_params p" and wf: "wf_poly w" "wf_poly cs2" "wf_poly ct0"
    and high: "highBits w p = Some w1" and hint: "makeHint ct0 w cs2 p = Some (h, n)"
    and low: "\<And>x. x < 256 \<Longrightarrow> \<bar>(if gamma2 p = 32 then snd (decompose32 (fieldSub (w ! x) (cs2 ! x)))
        else snd (decompose88 (fieldSub (w ! x) (cs2 ! x))))\<bar> + \<bar>centered (coeff cs2 x)\<bar> < gamma2Value p"
    and t0: "\<And>x. x < 256 \<Longrightarrow> \<bar>centered (coeff ct0 x)\<bar> \<le> gamma2Value p"
  shows "useHint (polyAdd (polySub w cs2) ct0) h p = Some w1"
proof -
  have l: "length w = 256" "length cs2 = 256" "length ct0 = 256" using wf by (simp_all add: wf_poly_def)
  have r: "reduced (w ! x)" "reduced (cs2 ! x)" "reduced (ct0 ! x)" if "x < 256" for x
    using that wf by (simp_all add: wf_poly_def list_all_length)
  show ?thesis
  proof (cases rule: valid_params_cases [OF p])
    case 1
    have h: "h = map (\<lambda>i. makeHint32 (ct0 ! i) (w ! i) (cs2 ! i)) [0..<256]" using hint 1 by (simp add: makeHint_def Let_def)
    have w1: "w1 = map (\<lambda>x. highBits32 (fieldFromMontgomery x)) w" using high 1 by (simp add: highBits_def)
    have "map2 useHint32 (polyAdd (polySub w cs2) ct0) h = w1"
    proof (rule nth_equalityI)
      fix x assume "x < length (map2 useHint32 (polyAdd (polySub w cs2) ct0) h)"
      then have x: "x < 256" using l by (simp add: h polyAdd_def polySub_def)
      have "useHint32 (fieldAdd (fieldSub (w ! x) (cs2 ! x)) (ct0 ! x)) (makeHint32 (ct0 ! x) (w ! x) (cs2 ! x))
          = highBits32 (fieldFromMontgomery (fieldSub (w ! x) (cs2 ! x)))"
        by (rule useHint32_makeHint [OF r(3,1,2) [OF x]]) (use t0 [OF x] 1 in \<open>simp add: coeff_def\<close>)
      also have "\<dots> = highBits32 (fieldFromMontgomery (w ! x))"
        by (rule high_unchanged32 [OF r(1,2) [OF x]]) (use low [OF x] 1 in \<open>simp add: coeff_def\<close>)
      finally show "map2 useHint32 (polyAdd (polySub w cs2) ct0) h ! x = w1 ! x"
        using x l by (simp add: h w1 polyAdd_def polySub_def)
    qed (simp add: h w1 l polyAdd_def polySub_def)
    then show ?thesis using 1 by (simp add: useHint_def)
  next
    case 2
    have h: "h = map (\<lambda>i. makeHint88 (ct0 ! i) (w ! i) (cs2 ! i)) [0..<256]" using hint 2 by (simp add: makeHint_def Let_def)
    have w1: "w1 = map (\<lambda>x. highBits88 (fieldFromMontgomery x)) w" using high 2 by (simp add: highBits_def)
    have "map2 useHint88 (polyAdd (polySub w cs2) ct0) h = w1"
    proof (rule nth_equalityI)
      fix x assume "x < length (map2 useHint88 (polyAdd (polySub w cs2) ct0) h)"
      then have x: "x < 256" using l by (simp add: h polyAdd_def polySub_def)
      have "useHint88 (fieldAdd (fieldSub (w ! x) (cs2 ! x)) (ct0 ! x)) (makeHint88 (ct0 ! x) (w ! x) (cs2 ! x))
          = highBits88 (fieldFromMontgomery (fieldSub (w ! x) (cs2 ! x)))"
        by (rule useHint88_makeHint [OF r(3,1,2) [OF x]]) (use t0 [OF x] 2 in \<open>simp add: coeff_def\<close>)
      also have "\<dots> = highBits88 (fieldFromMontgomery (w ! x))"
        by (rule high_unchanged88 [OF r(1,2) [OF x]]) (use low [OF x] 2 in \<open>simp add: coeff_def\<close>)
      finally show "map2 useHint88 (polyAdd (polySub w cs2) ct0) h ! x = w1 ! x"
        using x l by (simp add: h w1 polyAdd_def polySub_def)
    qed (simp add: h w1 l polyAdd_def polySub_def)
    then show ?thesis using 2 by (simp add: useHint_def)
  qed
qed

section \<open>Keys\<close>

definition good_key :: "PrivateKey \<Rightarrow> bool" where
  "good_key priv \<longleftrightarrow>
     (let pub = skPub priv; p = pkParams pub in
      valid_params p \<and> length (pkA pub) = dimK p * dimL p \<and> list_all wf_poly (pkA pub) \<and>
      length (skS1 priv) = dimL p \<and> list_all wf_poly (skS1 priv) \<and>
      (\<exists>S2. skS2 priv = map ntt S2 \<and> length S2 = dimK p \<and>
        list_all (\<lambda>s. wf_poly s \<and> list_all (smallCoeff (eta p)) s) S2) \<and>
      length (skT0 priv) = dimK p \<and> list_all wf_poly (skT0 priv) \<and>
      length (pkT1 pub) = dimK p \<and> list_all wf_poly (pkT1 pub) \<and>
      (\<forall>i < dimK p. rowProduct (pkA pub) (skS1 priv) (dimL p) (skS2 priv ! i) i = polyAdd (pkT1 pub ! i) (skT0 priv ! i)))"

lemma valid_params_bounds:
  assumes "valid_params p"
  shows "eta p = 2 \<or> eta p = 4" "tau p \<le> 64" "0 < tau p" "tau p * eta p < 200" "0 < dimL p" "dimL p \<le> 8" "dimK p \<le> 8"
    "2 ^ gamma1 p \<ge> (131072 :: nat)" "gamma1 p < 20" "200 < gamma2Value p"
  using assms by (auto simp: valid_params_def gamma2Value_def params44_def params65_def params87_def)

lemma computeMatrixA_wf:
  assumes "computeMatrixA shake128 rho p = Some A"
  shows "length A = dimK p * dimL p" "list_all wf_poly A"
proof -
  define xs where "xs = concat (map (\<lambda>r. map (\<lambda>s. sampleNTT shake128 rho (of_nat s) (of_nat r)) [0..<dimL p]) [0..<dimK p])"
  have xs: "xs = map Some A" using assms unfolding computeMatrixA_def xs_def [symmetric] by (simp only: those_Some)
  have "length xs = dimK p * dimL p" by (simp add: xs_def length_concat comp_def sum_list_triv)
  then show "length A = dimK p * dimL p" by (simp add: xs)
  have "wf_poly a" if "a \<in> set A" for a
  proof -
    have "Some a \<in> set xs" using that by (simp add: xs)
    then show ?thesis by (auto simp: xs_def dest: sampleNTT_wf sym)
  qed
  then show "list_all wf_poly A" by (simp add: list_all_iff)
qed

lemma t1_scaled:
  assumes "tenBits c"
  obtains x where "fieldToMontgomery (push_bit 13 (ucast c)) = Some x" "reduced x" "val x = of_nat (unat c * 8192)"
proof -
  have u: "unat (push_bit 13 (ucast c) :: uint32) = unat c * 8192"
    using assms by (simp add: tenBits_def push_bit_eq_mult unat_word_ariths unsigned_ucast_eq take_bit_nat_eq_self)
  have "unat (push_bit 13 (ucast c) :: uint32) < 8380417" unfolding u using assms by (simp add: tenBits_def)
  then obtain x where "fieldToMontgomery (push_bit 13 (ucast c)) = Some x" "reduced x"
    "val x = of_nat (unat (push_bit 13 (ucast c) :: uint32))" by (rule toMontgomery)
  then show thesis using that unfolding u by blast
qed

lemma split_t:
  assumes "wf_poly t"
  defines "t1 \<equiv> map (\<lambda>x. fst (power2Round x)) t" and "t0 \<equiv> map (\<lambda>x. snd (power2Round x)) t"
  shows "length t1 = 256 \<and> list_all tenBits t1" "wf_poly t0"
    and "ntt t = polyAdd (ntt (map (\<lambda>c. case fieldToMontgomery (push_bit 13 (ucast c)) of None \<Rightarrow> 0 | Some x \<Rightarrow> x) t1)) (ntt t0)"
    and "wf_poly (map (\<lambda>c. case fieldToMontgomery (push_bit 13 (ucast c)) of None \<Rightarrow> 0 | Some x \<Rightarrow> x) t1)"
proof -
  have l: "length t = 256" and r: "\<And>x. x < 256 \<Longrightarrow> reduced (t ! x)" using assms(1) by (simp_all add: wf_poly_def list_all_length)
  have p: "reduced (snd (power2Round (t ! x)))" "tenBits (fst (power2Round (t ! x)))"
    "val (t ! x) = of_nat (unat (fst (power2Round (t ! x))) * 8192) + val (snd (power2Round (t ! x)))" if "x < 256" for x
    using power2Round [OF r [OF that], of "fst (power2Round (t ! x))" "snd (power2Round (t ! x))"] by (simp_all add: tenBits_def)
  show "length t1 = 256 \<and> list_all tenBits t1" using l p(2) by (simp add: t1_def list_all_length)
  show t0: "wf_poly t0" using l p(1) by (simp add: t0_def wf_poly_def list_all_length)
  define u where "u = map (\<lambda>c. case fieldToMontgomery (push_bit 13 (ucast c)) of None \<Rightarrow> 0 | Some x \<Rightarrow> x) t1"
  have ux: "reduced (u ! x)" "val (u ! x) = of_nat (unat (t1 ! x) * 8192)" if x: "x < 256" for x
  proof -
    have "tenBits (t1 ! x)" using p(2) x l by (simp add: t1_def)
    then obtain y where "fieldToMontgomery (push_bit 13 (ucast (t1 ! x))) = Some y" "reduced y" "val y = of_nat (unat (t1 ! x) * 8192)"
      by (rule t1_scaled)
    then show "reduced (u ! x)" "val (u ! x) = of_nat (unat (t1 ! x) * 8192)" using x l by (simp_all add: u_def t1_def)
  qed
  show wu: "wf_poly u" using ux(1) l by (simp add: wf_poly_def list_all_length u_def t1_def)
  have "t = polyAdd u t0"
  proof (rule poly_eqI [OF assms(1) polyAdd(1) [OF wu t0]])
    fix x :: nat assume x: "x < 256"
    have "coeff (polyAdd u t0) x = val (u ! x) + val (t0 ! x)" using polyAdd(2) [OF wu t0 x] by (simp add: coeff_def)
    also have "\<dots> = val (t ! x)" unfolding ux(2) [OF x] p(3) [OF x] using x l by (simp add: t1_def t0_def)
    finally show "coeff t x = coeff (polyAdd u t0) x" by (simp add: coeff_def)
  qed
  then show "ntt t = polyAdd (ntt u) (ntt t0)" using ntt_linear(1) [OF wu t0] by simp
qed

lemma newPrivateKey_parts:
  assumes "newPrivateKey shake128 shake256 seed p = Some priv"
  obtains rho rhos A S1 S2 where "length rho = 32" "computeMatrixA shake128 rho p = Some A"
    "length S1 = dimL p" "\<And>r. r < dimL p \<Longrightarrow> sampleBoundedPoly shake256 rhos (of_nat r) p = Some (S1 ! r)"
    "length S2 = dimK p" "\<And>r. r < dimK p \<Longrightarrow> sampleBoundedPoly shake256 rhos (of_nat (dimL p + r)) p = Some (S2 ! r)"
    "skS1 priv = map ntt S1" "skS2 priv = map ntt S2" "pkParams (skPub priv) = p" "pkA (skPub priv) = A"
    "\<And>t. t = map (\<lambda>i. inverseNTT (rowProduct A (map ntt S1) (dimL p) (map ntt S2 ! i) i)) [0..<dimK p] \<Longrightarrow>
      skT0 priv = map (\<lambda>row. ntt (map (\<lambda>x. snd (power2Round x)) row)) t \<and>
      pkRaw (skPub priv) = pkEncode [] rho (map (map (\<lambda>x. fst (power2Round x))) t) p \<and>
      pkT1 (skPub priv) = computeT1Hat (map (map (\<lambda>x. fst (power2Round x))) t)"
    "pkTr (skPub priv) = computePublicKeyHash shake256 (pkRaw (skPub priv))"
proof -
  define xi where "xi = shake256 (seed @ [of_nat (dimK p), of_nat (dimL p)])"
  define rho rhos where "rho = readAt xi 0 32" and "rhos = readAt xi 32 64"
  have samples: "\<exists>S. length S = n \<and> (\<forall>r < n. sampleBoundedPoly shake256 rhos (f r) p = Some (S ! r)) \<and> T = map ntt S"
    if "those (map (\<lambda>r. map_option ntt (sampleBoundedPoly shake256 rhos (f r) p)) [0..<n]) = Some T" for f n T
  proof -
    have t: "length T = n" "\<And>r. r < n \<Longrightarrow> map_option ntt (sampleBoundedPoly shake256 rhos (f r) p) = Some (T ! r)"
      using that unfolding those_map by auto
    define S where "S = map (\<lambda>r. the (sampleBoundedPoly shake256 rhos (f r) p)) [0..<n]"
    have s: "sampleBoundedPoly shake256 rhos (f r) p = Some (S ! r)" "T ! r = ntt (S ! r)" if "r < n" for r
      using t(2) [OF that] that by (auto simp: S_def)
    have "T = map ntt S" using t(1) s(2) by (intro nth_equalityI) (simp_all add: S_def)
    then show ?thesis using s(1) by (intro exI [of _ S]) (simp add: S_def)
  qed
  obtain A T1 T2 where A: "computeMatrixA shake128 rho p = Some A"
    and T1: "those (map (\<lambda>r. map_option ntt (sampleBoundedPoly shake256 rhos (of_nat r) p)) [0..<dimL p]) = Some T1"
    and T2: "those (map (\<lambda>r. map_option ntt (sampleBoundedPoly shake256 rhos (of_nat (dimL p + r)) p)) [0..<dimK p]) = Some T2"
    and priv: "priv = (let tHat = map (\<lambda>i. rowProduct A T1 (dimL p) (T2 ! i) i) [0..<dimK p];
               t = map inverseNTT tHat;
               t1 = map (map (\<lambda>x. fst (power2Round x))) t;
               t0 = map (\<lambda>row. ntt (map (\<lambda>x. snd (power2Round x)) row)) t;
               pk = pkEncode [] rho t1 p
           in \<lparr>skSeed = seed,
                skPub = \<lparr>pkRaw = pk, pkParams = p, pkA = A, pkT1 = computeT1Hat t1,
                  pkTr = computePublicKeyHash shake256 pk\<rparr>,
                skS1 = T1, skS2 = T2, skT0 = t0, skK = readAt xi 96 32\<rparr>)"
    using assms unfolding newPrivateKey_def Let_def xi_def rho_def rhos_def
    by (auto simp: bind_eq_Some_conv)
  obtain S1 where S1: "length S1 = dimL p" "\<forall>r < dimL p. sampleBoundedPoly shake256 rhos (of_nat r) p = Some (S1 ! r)" "T1 = map ntt S1"
    using samples [OF T1] by blast
  obtain S2 where S2: "length S2 = dimK p" "\<forall>r < dimK p. sampleBoundedPoly shake256 rhos (of_nat (dimL p + r)) p = Some (S2 ! r)" "T2 = map ntt S2"
    using samples [OF T2] by blast
  show thesis
    by (rule that [of rho A S1 rhos S2]) (use A S1 S2 in \<open>simp_all add: priv Let_def rho_def comp_def\<close>)
qed

lemma newPrivateKey_good:
  assumes key: "newPrivateKey shake128 shake256 seed p = Some priv" and p: "valid_params p"
  shows "good_key priv" "pkParams (skPub priv) = p"
    "newPublicKey shake128 shake256 (pkRaw (skPub priv)) p = Some (Inr (skPub priv))"
proof -
  obtain rho rhos A S1 S2 where k: "length rho = 32" "computeMatrixA shake128 rho p = Some A"
    "length S1 = dimL p" "\<And>r. r < dimL p \<Longrightarrow> sampleBoundedPoly shake256 rhos (of_nat r) p = Some (S1 ! r)"
    "length S2 = dimK p" "\<And>r. r < dimK p \<Longrightarrow> sampleBoundedPoly shake256 rhos (of_nat (dimL p + r)) p = Some (S2 ! r)"
    "skS1 priv = map ntt S1" "skS2 priv = map ntt S2" "pkParams (skPub priv) = p" "pkA (skPub priv) = A"
    "\<And>t. t = map (\<lambda>i. inverseNTT (rowProduct A (map ntt S1) (dimL p) (map ntt S2 ! i) i)) [0..<dimK p] \<Longrightarrow>
      skT0 priv = map (\<lambda>row. ntt (map (\<lambda>x. snd (power2Round x)) row)) t \<and>
      pkRaw (skPub priv) = pkEncode [] rho (map (map (\<lambda>x. fst (power2Round x))) t) p \<and>
      pkT1 (skPub priv) = computeT1Hat (map (map (\<lambda>x. fst (power2Round x))) t)"
    "pkTr (skPub priv) = computePublicKeyHash shake256 (pkRaw (skPub priv))"
    using key by (rule newPrivateKey_parts) blast
  define t where "t = map (\<lambda>i. inverseNTT (rowProduct A (map ntt S1) (dimL p) (map ntt S2 ! i) i)) [0..<dimK p]"
  define t1 where "t1 = map (map (\<lambda>x. fst (power2Round x))) t"
  note parts = k(11) [OF t_def]
  show pp: "pkParams (skPub priv) = p" by (rule k(9))
  note eta = valid_params_bounds(1) [OF p]
  note A = computeMatrixA_wf [OF k(2)]
  have Aij: "wf_poly (A ! (i * dimL p + j))" if "i < dimK p" "j < dimL p" for i j
  proof -
    have "i * dimL p + j < dimK p * dimL p" using that
      by (metis add.commute mult.commute mult_Suc_right nat_add_left_cancel_less less_le_trans mult_le_mono1 Suc_leI)
    then show ?thesis using A by (simp add: list_all_length)
  qed
  have s1: "wf_poly (ntt (S1 ! j))" if "j < dimL p" for j
    using sampleBoundedPoly_small(1) [OF k(4) [OF that] eta] by (rule ntt_coeff)
  have s2: "wf_poly (S2 ! j)" "list_all (smallCoeff (eta p)) (S2 ! j)" if "j < dimK p" for j
    using sampleBoundedPoly_small [OF k(6) [OF that] eta] by simp_all
  have row: "wf_poly (rowProduct A (map ntt S1) (dimL p) (map ntt S2 ! i) i)" if "i < dimK p" for i
    by (rule rowProduct) (use s1 s2 Aij that k(3,5) ntt_coeff(1) in simp_all)
  have ti: "wf_poly (t ! i)" "ntt (t ! i) = rowProduct A (map ntt S1) (dimL p) (map ntt S2 ! i) i" if "i < dimK p" for i
    using row [OF that] that inverseNTT_coeff(1) ntt_inverseNTT by (simp_all add: t_def)
  have lt: "length t = dimK p" by (simp add: t_def)
  note split = split_t [OF ti(1)]
  have T1: "pkT1 (skPub priv) ! i = ntt (map (\<lambda>c. case fieldToMontgomery (push_bit 13 (ucast c)) of None \<Rightarrow> 0 | Some x \<Rightarrow> x)
      (map (\<lambda>x. fst (power2Round x)) (t ! i)))"
    "skT0 priv ! i = ntt (map (\<lambda>x. snd (power2Round x)) (t ! i))" if "i < dimK p" for i
    using parts that lt by (simp_all add: computeT1Hat_def)
  have wf1: "wf_t1 t1" using split(1) lt by (simp add: wf_t1_def t1_def list_all_length)
  have T1wf: "wf_poly (pkT1 (skPub priv) ! i)" if i: "i < dimK p" for i
    unfolding T1 [OF i] by (rule ntt_coeff(1) [OF split(4) [OF i]])
  have T0wf: "wf_poly (skT0 priv ! i)" if i: "i < dimK p" for i
    unfolding T1 [OF i] by (rule ntt_coeff(1) [OF split(2) [OF i]])
  have sum: "rowProduct A (skS1 priv) (dimL p) (skS2 priv ! i) i = polyAdd (pkT1 (skPub priv) ! i) (skT0 priv ! i)"
    if i: "i < dimK p" for i
    unfolding T1 [OF i] k(7,8) ti(2) [OF i, symmetric] by (rule split(3) [OF i])
  have lens: "length (pkT1 (skPub priv)) = dimK p" "length (skT0 priv) = dimK p"
    using parts lt by (simp_all add: computeT1Hat_def)
  have S1wf: "list_all wf_poly (skS1 priv)" using s1 k(3) by (simp add: k(7) list_all_length)
  have S2wf: "list_all (\<lambda>s. wf_poly s \<and> list_all (smallCoeff (eta p)) s) S2" using s2 k(5) by (simp add: list_all_length)
  have T0: "list_all wf_poly (skT0 priv)" "list_all wf_poly (pkT1 (skPub priv))"
    using T0wf T1wf lens by (simp_all add: list_all_length)
  show "good_key priv"
    unfolding good_key_def Let_def pp k(10)
    using p A S1wf k(3,5,7,8) S2wf T0 lens sum by auto
  have "pkDecode (pkRaw (skPub priv)) p = Inr (rho, t1)"
    using pkDecode_pkEncode(2) [OF wf1 _ k(1), of p] parts lt by (simp add: t1_def)
  then show "newPublicKey shake128 shake256 (pkRaw (skPub priv)) p = Some (Inr (skPub priv))"
    using k(2,9,10,12) parts by (simp add: newPublicKey_def t1_def)
qed

section \<open>An accepted attempt\<close>

lemma signAttempt_accepted:
  assumes "signAttempt shake256 priv mu nonce kappa = Some (Accepted sig)"
  defines "p \<equiv> pkParams (skPub priv)"
  obtains y w w1 H ch cc c cs1 cs2 zs ct0 hs where
    "maskVector shake256 p nonce kappa = Some y"
    "w = map (\<lambda>i. inverseNTT (rowProduct (pkA (skPub priv)) (map ntt y) (dimL p) zeroPoly i)) [0..<dimK p]"
    "those (map (\<lambda>x. highBits x p) w) = Some w1" "commitAll mu w1 p = Some H"
    "ch = readAt (shake256 H) 0 (lambda p div 4)" "sampleInBall shake256 ch p = Some cc" "c = ntt cc"
    "cs1 = map (\<lambda>s. inverseNTT (nttMul c s)) (skS1 priv)" "cs2 = map (\<lambda>s. inverseNTT (nttMul c s)) (skS2 priv)"
    "zs = map2 polyAdd y cs1"
    "\<not> list_ex (\<lambda>x. coefficientsExceedBound x (2 ^ gamma1 p - of_nat (tau p * eta p))) zs"
    "those (map2 (\<lambda>x cx. lowBitsExceedBound (polySub x cx) ((q - 1) div of_nat (gamma2 p) - of_nat (tau p * eta p)) p) w cs2)
      = Some (replicate (min (length w) (length cs2)) False)"
    "ct0 = map (\<lambda>t. inverseNTT (nttMul c t)) (skT0 priv)"
    "\<not> list_ex (\<lambda>x. coefficientsExceedBound x ((q - 1) div of_nat (gamma2 p))) ct0"
    "those (map (\<lambda>i. makeHint (ct0 ! i) (w ! i) (cs2 ! i) p) [0..<dimK p]) = Some hs"
    "sum_list (map snd hs) \<le> omega p" "sigEncode ch zs (map fst hs) p = Some sig"
proof -
  note a = assms(1) [unfolded signAttempt_def Let_def, folded p_def]
  obtain y where y: "maskVector shake256 p nonce kappa = Some y" using a by (auto simp only: bind_eq_Some_conv)
  define w where "w = map (\<lambda>i. inverseNTT (rowProduct (pkA (skPub priv)) (map ntt y) (dimL p) zeroPoly i)) [0..<dimK p]"
  note a = a [unfolded y Option.bind.bind_lunit, folded w_def]
  obtain w1 where w1: "those (map (\<lambda>x. highBits x p) w) = Some w1" using a by (auto simp only: bind_eq_Some_conv)
  note a = a [unfolded w1 Option.bind.bind_lunit]
  obtain H where H: "commitAll mu w1 p = Some H" using a by (auto simp only: bind_eq_Some_conv)
  define ch where "ch = readAt (shake256 H) 0 (lambda p div 4)"
  note a = a [unfolded H Option.bind.bind_lunit, folded ch_def]
  obtain cc where cc: "sampleInBall shake256 ch p = Some cc" using a by (auto simp only: bind_eq_Some_conv)
  define c where "c = ntt cc"
  define cs1 where "cs1 = map (\<lambda>s. inverseNTT (nttMul c s)) (skS1 priv)"
  define cs2 where "cs2 = map (\<lambda>s. inverseNTT (nttMul c s)) (skS2 priv)"
  define zs where "zs = map2 polyAdd y cs1"
  define ct0 where "ct0 = map (\<lambda>t. inverseNTT (nttMul c t)) (skT0 priv)"
  note a = a [unfolded cc Option.bind.bind_lunit, folded c_def, folded cs1_def cs2_def ct0_def, folded zs_def]
  have z: "\<not> list_ex (\<lambda>x. coefficientsExceedBound x (2 ^ gamma1 p - of_nat (tau p * eta p))) zs"
  proof
    assume "list_ex (\<lambda>x. coefficientsExceedBound x (2 ^ gamma1 p - of_nat (tau p * eta p))) zs"
    with a show False by (simp only: if_True option.inject attempt.distinct)
  qed
  note a = a [unfolded if_not_P [OF z]]
  obtain lows where lows: "those (map2 (\<lambda>x cx. lowBitsExceedBound (polySub x cx) ((q - 1) div of_nat (gamma2 p) - of_nat (tau p * eta p)) p) w cs2)
      = Some lows" using a by (auto simp only: bind_eq_Some_conv)
  note a = a [unfolded lows Option.bind.bind_lunit]
  have low: "\<not> list_ex id lows"
  proof
    assume "list_ex id lows" with a show False by (simp only: if_True option.inject attempt.distinct)
  qed
  note a = a [unfolded if_not_P [OF low]]
  have t: "\<not> list_ex (\<lambda>x. coefficientsExceedBound x ((q - 1) div of_nat (gamma2 p))) ct0"
  proof
    assume "list_ex (\<lambda>x. coefficientsExceedBound x ((q - 1) div of_nat (gamma2 p))) ct0"
    with a show False by (simp only: if_True option.inject attempt.distinct)
  qed
  note a = a [unfolded if_not_P [OF t]]
  obtain hs where hs: "those (map (\<lambda>i. makeHint (ct0 ! i) (w ! i) (cs2 ! i) p) [0..<dimK p]) = Some hs"
    using a by (auto simp only: bind_eq_Some_conv)
  note a = a [unfolded hs Option.bind.bind_lunit]
  have h: "\<not> sum_list (map snd hs) > omega p"
  proof
    assume "sum_list (map snd hs) > omega p" with a show False by (simp only: if_True option.inject attempt.distinct)
  qed
  note a = a [unfolded if_not_P [OF h]]
  have "lows = replicate (min (length w) (length cs2)) False"
  proof (rule replicate_eqI)
    show "length lows = min (length w) (length cs2)"
      using arg_cong [OF lows [unfolded those_Some], of length] by (simp only: length_map length_zip)
    show "b = False" if "b \<in> set lows" for b using low that by (auto simp only: list_ex_iff id_apply)
  qed
  note lows' = lows [unfolded this]
  have enc: "sigEncode ch zs (map fst hs) p = Some sig" using a by (auto simp only: map_option_eq_Some attempt.inject)
  have le: "sum_list (map snd hs) \<le> omega p" using h by (simp only: not_less)
  show thesis by (rule that [OF y w_def w1 H ch_def cc c_def cs1_def cs2_def zs_def z lows' ct0_def t hs le enc])
qed

section \<open>Verification accepts\<close>

lemma maskVector_wf:
  assumes "maskVector shake256 p nonce kappa = Some y" "valid_params p"
  shows "length y = dimL p" "\<And>j. j < dimL p \<Longrightarrow> wf_poly (y ! j)"
proof -
  have y: "length y = dimL p" "\<And>j. j < dimL p \<Longrightarrow>
      bitUnpack (readAt (shake256 (nonce @ littleEndian16 (kappa + j))) 0 (polySize p)) p = Some (y ! j)"
    using assms(1) unfolding maskVector_def those_map by auto
  show "length y = dimL p" by (rule y(1))
  fix j assume j: "j < dimL p"
  obtain r where "bitUnpack (readAt (shake256 (nonce @ littleEndian16 (kappa + j))) 0 (polySize p)) p = Some r" "packablePoly p r"
    by (rule bitUnpack_ok [OF assms(2) length_readAt])
  then show "wf_poly (y ! j)" using y(2) [OF j] by (auto simp: packablePoly_def packable_def wf_poly_def list_all_iff)
qed

lemma verifier_row:
  assumes wf: "wf_poly c" "wf_poly s2" "wf_poly t1" "wf_poly t0"
    and A: "\<And>j. j < l \<Longrightarrow> wf_poly (A ! (i * l + j))" and s1: "\<And>j. j < l \<Longrightarrow> wf_poly (s1 ! j)" and y: "\<And>j. j < l \<Longrightarrow> wf_poly (y ! j)"
    and len: "length y = l" "length s1 = l"
    and key: "rowProduct A s1 l s2 i = polyAdd t1 t0"
  defines "zs \<equiv> map2 polyAdd y (map (\<lambda>s. inverseNTT (nttMul c s)) s1)"
  shows "inverseNTT (polySub (rowProduct A (map ntt zs) l zeroPoly i) (nttMul c t1)) =
    polyAdd (polySub (inverseNTT (rowProduct A (map ntt y) l zeroPoly i)) (inverseNTT (nttMul c s2))) (inverseNTT (nttMul c t0))"
proof -
  have z: "ntt (zs ! j) = polyAdd (ntt (y ! j)) (nttMul c (s1 ! j))" if j: "j < l" for j
  proof -
    have m: "wf_poly (nttMul c (s1 ! j))" by (rule nttMul(1) [OF wf(1) s1 [OF j]])
    have "zs ! j = polyAdd (y ! j) (inverseNTT (nttMul c (s1 ! j)))" using j len by (simp add: zs_def)
    then show ?thesis using ntt_linear(1) [OF y [OF j] inverseNTT_coeff(1) [OF m]] ntt_inverseNTT [OF m] by simp
  qed
  have zwf: "wf_poly (map ntt zs ! j)" "wf_poly (map ntt y ! j)" if j: "j < l" for j
    using z [OF j] j len polyAdd(1) [OF ntt_coeff(1) [OF y [OF j]] nttMul(1) [OF wf(1) s1 [OF j]]] ntt_coeff(1) [OF y [OF j]]
    by (simp_all add: zs_def)
  define U V where "U = rowProduct A (map ntt zs) l zeroPoly i" and "V = rowProduct A (map ntt y) l zeroPoly i"
  have ru: "wf_poly U" "\<And>x. x < 256 \<Longrightarrow> coeff U x = coeff zeroPoly x + (\<Sum>j < l. coeff (A ! (i * l + j)) x * coeff (map ntt zs ! j) x)"
    unfolding U_def by (rule rowProduct; (rule wf_zeroPoly A zwf)?; assumption)+
  have rv: "wf_poly V" "\<And>x. x < 256 \<Longrightarrow> coeff V x = coeff zeroPoly x + (\<Sum>j < l. coeff (A ! (i * l + j)) x * coeff (map ntt y ! j) x)"
    unfolding V_def by (rule rowProduct; (rule wf_zeroPoly A zwf)?; assumption)+
  have rk: "\<And>x. x < 256 \<Longrightarrow> coeff (rowProduct A s1 l s2 i) x = coeff s2 x + (\<Sum>j < l. coeff (A ! (i * l + j)) x * coeff (s1 ! j) x)"
    by (rule rowProduct(2) [OF wf(2)]; (rule A s1)?; assumption)
  note m = nttMul [OF wf(1,2)] nttMul [OF wf(1,3)] nttMul [OF wf(1,4)]
  have "polySub U (nttMul c t1) = polyAdd (polySub V (nttMul c s2)) (nttMul c t0)"
  proof (rule poly_eqI)
    show "wf_poly (polySub U (nttMul c t1))" by (rule polySub(1) [OF ru(1) m(3)])
    show "wf_poly (polyAdd (polySub V (nttMul c s2)) (nttMul c t0))"
      by (rule polyAdd(1) [OF polySub(1) [OF rv(1) m(1)] m(5)])
    fix x :: nat assume x: "x < 256"
    let ?a = "\<lambda>j. coeff (A ! (i * l + j)) x"
    have zx: "coeff (map ntt zs ! j) x = coeff (ntt (y ! j)) x + coeff c x * coeff (s1 ! j) x" if j: "j < l" for j
      using z [OF j] j len x polyAdd(2) [OF ntt_coeff(1) [OF y [OF j]] nttMul(1) [OF wf(1) s1 [OF j]] x] nttMul(2) [OF wf(1) s1 [OF j] x]
      by (simp add: zs_def)
    have "coeff U x = (\<Sum>j < l. ?a j * (coeff (ntt (y ! j)) x + coeff c x * coeff (s1 ! j) x))"
      unfolding ru(2) [OF x] wf_zeroPoly(2) [OF x] using zx by simp
    also have "\<dots> = (\<Sum>j < l. ?a j * coeff (ntt (y ! j)) x) + coeff c x * (\<Sum>j < l. ?a j * coeff (s1 ! j) x)"
      by (simp add: distrib_left sum.distrib sum_distrib_left mult.left_commute)
    also have "(\<Sum>j < l. ?a j * coeff (ntt (y ! j)) x) = coeff V x"
      unfolding rv(2) [OF x] wf_zeroPoly(2) [OF x] using len by simp
    also have "(\<Sum>j < l. ?a j * coeff (s1 ! j) x) = coeff t1 x + coeff t0 x - coeff s2 x"
      using rk [OF x] polyAdd(2) [OF wf(3,4) x] unfolding key by (simp add: algebra_simps)
    finally have "coeff U x = coeff V x + coeff c x * (coeff t1 x + coeff t0 x - coeff s2 x)" .
    then show "coeff (polySub U (nttMul c t1)) x = coeff (polyAdd (polySub V (nttMul c s2)) (nttMul c t0)) x"
      unfolding polySub(2) [OF ru(1) m(3) x] polyAdd(2) [OF polySub(1) [OF rv(1) m(1)] m(5) x] polySub(2) [OF rv(1) m(1) x]
        m(2) [OF x] m(4) [OF x] m(6) [OF x]
      by (simp add: algebra_simps)
  qed
  then show ?thesis
    unfolding U_def [symmetric] V_def [symmetric]
    using inverseNTT_linear(1) [OF polySub(1) [OF rv(1) m(1)] m(5)] inverseNTT_linear(2) [OF rv(1) m(1)] by simp
qed

lemma makeHint_row:
  assumes "makeHint ct0 w cs2 p = Some (h, n)" shows "wf_row h" "n = length (positions h)"
proof -
  have bits: "makeHint32 a b c = 0 \<or> makeHint32 a b c = 1" "makeHint88 a b c = 0 \<or> makeHint88 a b c = 1" for a b c
    by (simp_all add: makeHint32_def makeHint88_def Let_def)
  have hn: "h = map (\<lambda>i. makeHint32 (ct0 ! i) (w ! i) (cs2 ! i)) [0..<256] \<or> h = map (\<lambda>i. makeHint88 (ct0 ! i) (w ! i) (cs2 ! i)) [0..<256]"
    "n = hintCount h" using assms by (auto simp: makeHint_def Let_def split: if_splits)
  show wf: "wf_row h" using hn(1) bits unfolding wf_row_def list_all_iff by fastforce
  have "sum_list (map unat h) = length (positionsFrom j h)" for j
    using wf [unfolded wf_row_def, THEN conjunct2]
  proof (induction h arbitrary: j)
    case (Cons b h)
    then show ?case by (cases "b = 0") simp_all
  qed simp
  then show "n = length (positions h)" using hn(2) by (simp add: hintCount_def)
qed

lemma uint_bounds:
  assumes "valid_params p"
  shows "int (unat (2 ^ gamma1 p - of_nat (tau p * eta p) :: uint32)) = 2 ^ gamma1 p - int (tau p * eta p)"
    and "int (unat ((q - 1) div of_nat (gamma2 p) :: uint32)) = gamma2Value p"
    and "int (unat ((q - 1) div of_nat (gamma2 p) - of_nat (tau p * eta p) :: uint32)) = gamma2Value p - int (tau p * eta p)"
  using assms by (auto simp: valid_params_def gamma2Value_def params44_def params65_def params87_def q_def)

lemma lowBits_within:
  assumes p: "valid_params p" and wf: "wf_poly w" "wf_poly cs2"
    and low: "lowBitsExceedBound (polySub w cs2) ((q - 1) div of_nat (gamma2 p) - of_nat (tau p * eta p)) p = Some False"
    and x: "x < 256"
  shows "\<bar>(if gamma2 p = 32 then snd (decompose32 (fieldSub (w ! x) (cs2 ! x)))
      else snd (decompose88 (fieldSub (w ! x) (cs2 ! x))))\<bar> < gamma2Value p - int (tau p * eta p)"
proof -
  define r where "r = fieldSub (w ! x) (cs2 ! x)"
  have mem: "r \<in> set (polySub w cs2)" using x wf by (force simp: r_def polySub_def wf_poly_def set_zip)
  have red: "reduced r" using polySub(1) [OF wf] mem by (simp add: wf_poly_def list_all_iff)
  show ?thesis
  proof (cases rule: valid_params_cases [OF p])
    case 1
    have "constantTimeAbs (snd (decompose32 r)) < (q - 1) div of_nat (gamma2 p) - of_nat (tau p * eta p)"
      using low 1 mem by (auto simp: lowBitsExceedBound_def list_ex_iff not_le)
    from abs_within [OF this low_bits_bounded(1) [OF red]] show ?thesis
      unfolding uint_bounds(3) [OF p] using 1 by (simp add: r_def)
  next
    case 2
    have "constantTimeAbs (snd (decompose88 r)) < (q - 1) div of_nat (gamma2 p) - of_nat (tau p * eta p)"
      using low 2 mem by (auto simp: lowBitsExceedBound_def list_ex_iff not_le)
    from abs_within [OF this low_bits_bounded(2) [OF red]] show ?thesis
      unfolding uint_bounds(3) [OF p] using 2 by (simp add: r_def)
  qed
qed

lemma within_packable:
  assumes p: "valid_params p" and wf: "wf_poly w" and "\<not> coefficientsExceedBound w (2 ^ gamma1 p - of_nat (tau p * eta p))"
  shows "packablePoly p w"
proof -
  have "packable (gamma1 p) (w ! x)" if x: "x < 256" for x
  proof -
    have "\<bar>centered (val (w ! x))\<bar> < 2 ^ gamma1 p - int (tau p * eta p)"
      using coefficients_within [OF assms(3) wf x] unfolding uint_bounds(1) [OF p] coeff_def .
    moreover have "0 \<le> int (tau p * eta p)" by simp
    ultimately have "\<bar>centered (val (w ! x))\<bar> < 2 ^ gamma1 p" by linarith
    then show ?thesis using wf x by (auto simp: packable_def wf_poly_def list_all_length abs_less_iff)
  qed
  then show ?thesis using wf by (simp add: packablePoly_def wf_poly_def list_all_length)
qed

lemma good_key_parts:
  assumes "good_key priv"
  defines "p \<equiv> pkParams (skPub priv)"
  obtains S2 where "valid_params p" "\<And>i j. i < dimK p \<Longrightarrow> j < dimL p \<Longrightarrow> wf_poly (pkA (skPub priv) ! (i * dimL p + j))"
    "length (skS1 priv) = dimL p" "\<And>j. j < dimL p \<Longrightarrow> wf_poly (skS1 priv ! j)"
    "skS2 priv = map ntt S2" "length S2 = dimK p" "\<And>i. i < dimK p \<Longrightarrow> wf_poly (S2 ! i)"
    "\<And>i. i < dimK p \<Longrightarrow> list_all (smallCoeff (eta p)) (S2 ! i)"
    "length (skT0 priv) = dimK p" "\<And>i. i < dimK p \<Longrightarrow> wf_poly (skT0 priv ! i)"
    "\<And>i. i < dimK p \<Longrightarrow> wf_poly (pkT1 (skPub priv) ! i)"
    "\<And>i. i < dimK p \<Longrightarrow> rowProduct (pkA (skPub priv)) (skS1 priv) (dimL p) (skS2 priv ! i) i =
      polyAdd (pkT1 (skPub priv) ! i) (skT0 priv ! i)"
proof -
  have index: "i * l + j < k * l" if "i < k" "j < l" for i j k l :: nat
  proof -
    have "i * l + j < Suc i * l" using that(2) by simp
    also have "\<dots> \<le> k * l" using that(1) by (intro mult_le_mono1) simp
    finally show ?thesis .
  qed
  obtain S2 where S2: "skS2 priv = map ntt S2" "length S2 = dimK p" "list_all (\<lambda>s. wf_poly s \<and> list_all (smallCoeff (eta p)) s) S2"
    using assms(1) unfolding good_key_def Let_def p_def by blast
  have g: "valid_params p" "length (pkA (skPub priv)) = dimK p * dimL p" "list_all wf_poly (pkA (skPub priv))"
    "length (skS1 priv) = dimL p" "list_all wf_poly (skS1 priv)" "length (skT0 priv) = dimK p" "list_all wf_poly (skT0 priv)"
    "length (pkT1 (skPub priv)) = dimK p" "list_all wf_poly (pkT1 (skPub priv))"
    "\<forall>i < dimK p. rowProduct (pkA (skPub priv)) (skS1 priv) (dimL p) (skS2 priv ! i) i =
      polyAdd (pkT1 (skPub priv) ! i) (skT0 priv ! i)"
    using assms(1) unfolding good_key_def Let_def p_def by blast+
  show thesis
    by (rule that [of S2]) (use g S2 index in \<open>simp_all add: list_all_length\<close>)
qed

lemma attempt_verifies:
  assumes key: "good_key priv" and acc: "signAttempt shake256 priv mu nonce kappa = Some (Accepted sig)"
  shows "verifyInternal shake256 (skPub priv) mu sig = Some (Inr ())"
proof -
  define pub p where "pub = skPub priv" and "p = pkParams pub"
  obtain S2 where g: "valid_params p" "\<And>i j. i < dimK p \<Longrightarrow> j < dimL p \<Longrightarrow> wf_poly (pkA pub ! (i * dimL p + j))"
    "length (skS1 priv) = dimL p" "\<And>j. j < dimL p \<Longrightarrow> wf_poly (skS1 priv ! j)"
    "skS2 priv = map ntt S2" "length S2 = dimK p" "\<And>i. i < dimK p \<Longrightarrow> wf_poly (S2 ! i)"
    "\<And>i. i < dimK p \<Longrightarrow> list_all (smallCoeff (eta p)) (S2 ! i)"
    "length (skT0 priv) = dimK p" "\<And>i. i < dimK p \<Longrightarrow> wf_poly (skT0 priv ! i)"
    "\<And>i. i < dimK p \<Longrightarrow> wf_poly (pkT1 pub ! i)"
    "\<And>i. i < dimK p \<Longrightarrow> rowProduct (pkA pub) (skS1 priv) (dimL p) (skS2 priv ! i) i = polyAdd (pkT1 pub ! i) (skT0 priv ! i)"
    unfolding pub_def p_def by (rule good_key_parts [OF key]) blast
  obtain y w w1 H ch cc c cs1 cs2 zs ct0 hs where a:
    "maskVector shake256 p nonce kappa = Some y"
    "w = map (\<lambda>i. inverseNTT (rowProduct (pkA pub) (map ntt y) (dimL p) zeroPoly i)) [0..<dimK p]"
    "those (map (\<lambda>x. highBits x p) w) = Some w1" "commitAll mu w1 p = Some H"
    "ch = readAt (shake256 H) 0 (lambda p div 4)" "sampleInBall shake256 ch p = Some cc" "c = ntt cc"
    "cs1 = map (\<lambda>s. inverseNTT (nttMul c s)) (skS1 priv)" "cs2 = map (\<lambda>s. inverseNTT (nttMul c s)) (skS2 priv)"
    "zs = map2 polyAdd y cs1"
    "\<not> list_ex (\<lambda>x. coefficientsExceedBound x (2 ^ gamma1 p - of_nat (tau p * eta p))) zs"
    "those (map2 (\<lambda>x cx. lowBitsExceedBound (polySub x cx) ((q - 1) div of_nat (gamma2 p) - of_nat (tau p * eta p)) p) w cs2)
      = Some (replicate (min (length w) (length cs2)) False)"
    "ct0 = map (\<lambda>t. inverseNTT (nttMul c t)) (skT0 priv)"
    "\<not> list_ex (\<lambda>x. coefficientsExceedBound x ((q - 1) div of_nat (gamma2 p))) ct0"
    "those (map (\<lambda>i. makeHint (ct0 ! i) (w ! i) (cs2 ! i) p) [0..<dimK p]) = Some hs"
    "sum_list (map snd hs) \<le> omega p" "sigEncode ch zs (map fst hs) p = Some sig"
    using acc unfolding p_def pub_def by (rule signAttempt_accepted) blast
  note y = maskVector_wf [OF a(1) g(1)]
  have ball: "wf_poly cc" "weight cc = tau p"
    using sampleInBall_ball [OF a(6)] valid_params_bounds(2) [OF g(1)] by simp_all
  have c: "wf_poly c" unfolding a(7) by (rule ntt_coeff(1) [OF ball(1)])
  have lens: "length w = dimK p" "length cs2 = dimK p" "length ct0 = dimK p" "length zs = dimL p"
    using g(3,6,9) y(1) by (simp_all add: a(2,8,9,10,13) g(5))
  have zwf: "wf_poly (zs ! j)" if j: "j < dimL p" for j
  proof -
    have "zs ! j = polyAdd (y ! j) (inverseNTT (nttMul c (skS1 priv ! j)))" using j y(1) g(3) by (simp add: a(8,10))
    then show ?thesis using polyAdd(1) [OF y(2) [OF j] inverseNTT_coeff(1) [OF nttMul(1) [OF c g(4) [OF j]]]] by simp
  qed
  have zsmall: "\<not> coefficientsExceedBound (zs ! j) (2 ^ gamma1 p - of_nat (tau p * eta p))" if "j < dimL p" for j
    using a(11) that lens(4) by (auto simp: list_ex_length)
  have row: "wf_poly (w ! i)" "wf_poly (cs2 ! i)" "wf_poly (ct0 ! i)"
    "w ! i = inverseNTT (rowProduct (pkA pub) (map ntt y) (dimL p) zeroPoly i)"
    "cs2 ! i = inverseNTT (nttMul c (skS2 priv ! i))" "ct0 ! i = inverseNTT (nttMul c (skT0 priv ! i))" if i: "i < dimK p" for i
  proof -
    show w: "w ! i = inverseNTT (rowProduct (pkA pub) (map ntt y) (dimL p) zeroPoly i)" using i by (simp add: a(2))
    show s: "cs2 ! i = inverseNTT (nttMul c (skS2 priv ! i))" using i g(5,6) by (simp add: a(9))
    show t: "ct0 ! i = inverseNTT (nttMul c (skT0 priv ! i))" using i g(9) by (simp add: a(13))
    have "wf_poly (rowProduct (pkA pub) (map ntt y) (dimL p) zeroPoly i)"
      by (rule rowProduct(1)) (use wf_zeroPoly g(2) i y ntt_coeff(1) in simp_all)
    then show "wf_poly (w ! i)" unfolding w by (rule inverseNTT_coeff)
    have "wf_poly (skS2 priv ! i)" using i g(5-7) ntt_coeff(1) by simp
    then show "wf_poly (cs2 ! i)" unfolding s by (intro inverseNTT_coeff nttMul c)
    show "wf_poly (ct0 ! i)" unfolding t by (intro inverseNTT_coeff nttMul c g(10) i)
  qed
  have hl: "length hs = dimK p" and hints: "\<And>i. i < dimK p \<Longrightarrow> makeHint (ct0 ! i) (w ! i) (cs2 ! i) p = Some (fst (hs ! i), snd (hs ! i))"
    using a(15) unfolding those_map by auto
  have wf: "wf_sig p ch zs (map fst hs)"
  proof -
    have "packablePoly p (zs ! j)" if "j < dimL p" for j
      by (rule within_packable [OF g(1) zwf [OF that] zsmall [OF that]])
    moreover have "hintTotal (map fst hs) = sum_list (map snd hs)"
    proof -
      have "map (\<lambda>row. length (positions row)) (map fst hs) = map snd hs"
        using makeHint_row(2) [OF hints] hl by (intro nth_equalityI) simp_all
      then show ?thesis by (simp only: hintTotal_def)
    qed
    moreover have "list_all wf_row (map fst hs)" using makeHint_row(1) [OF hints] hl by (simp add: list_all_length)
    ultimately show ?thesis using lens(4) hl a(16) by (simp add: wf_sig_def a(5) list_all_length)
  qed
  have dec: "sigDecode sig p = Some (Inr (ch, zs, map fst hs))"
    using sigEncode_ok [OF g(1) wf] a(17) by force
  have useRow: "useHint (inverseNTT (polySub (rowProduct (pkA pub) (map ntt zs) (dimL p) zeroPoly i) (nttMul c (pkT1 pub ! i)))) (fst (hs ! i)) p
      = Some (w1 ! i)" if i: "i < dimK p" for i
  proof -
    have v: "inverseNTT (polySub (rowProduct (pkA pub) (map ntt zs) (dimL p) zeroPoly i) (nttMul c (pkT1 pub ! i))) =
        polyAdd (polySub (w ! i) (cs2 ! i)) (ct0 ! i)"
      unfolding row(4-6) [OF i] a(8,10)
      by (rule verifier_row) (use c g i y ntt_coeff(1) in simp_all)
    have "highBits (w ! i) p = Some (w1 ! i)" using a(3) i lens(1) unfolding those_map by auto
    moreover have "lowBitsExceedBound (polySub (w ! i) (cs2 ! i)) ((q - 1) div of_nat (gamma2 p) - of_nat (tau p * eta p)) p = Some False"
      using a(12) i lens(1,2) unfolding those_map by auto
    note low = lowBits_within [OF g(1) row(1,2) [OF i] this]
    have prod: "\<bar>centered (coeff (cs2 ! i) x)\<bar> \<le> int (tau p * eta p)" if "x < 256" for x
    proof -
      have "tau p * eta p < 200" by (rule valid_params_bounds(4) [OF g(1)])
      then have "int (weight cc) * int (eta p) \<le> 4190208" unfolding ball(2) of_nat_mult [symmetric] by linarith
      from product_small [OF ball(1) g(7) [OF i] g(8) [OF i] this that] show ?thesis
        unfolding row(5) [OF i] a(7) ball(2) using i g(5,6) by simp
    qed
    have ct: "\<not> coefficientsExceedBound (ct0 ! i) ((q - 1) div of_nat (gamma2 p))"
      using a(14) i lens(3) by (auto simp: list_ex_length)
    ultimately show ?thesis unfolding v
      by (intro row_recovered [OF g(1) row(1-3) [OF i] _ hints [OF i]])
        (use low prod coefficients_within [OF ct row(3) [OF i]] uint_bounds(2) [OF g(1)] in force)+
  qed
  define w' where "w' = map (\<lambda>i. inverseNTT (polySub (rowProduct (pkA pub) (map ntt zs) (dimL p) zeroPoly i) (nttMul c (pkT1 pub ! i)))) [0..<dimK p]"
  have lw1: "length w1 = dimK p" using a(3) lens(1) unfolding those_map by simp
  have used: "those (map2 (\<lambda>x hx. useHint x hx p) w' (map fst hs)) = Some w1"
    unfolding those_Some using useRow hl lw1 by (intro nth_equalityI) (simp_all add: w'_def)
  have z: "\<not> list_ex (\<lambda>x. coefficientsExceedBound x (2 ^ gamma1 p - of_nat (tau p * eta p))) zs" by (rule a(11))
  show ?thesis
    unfolding verifyInternal_def Let_def pub_def [symmetric] p_def [symmetric] dec Option.bind.bind_lunit sum.case prod.case
      a(6) a(7) [symmetric] w'_def [symmetric] used a(4) a(5) [symmetric] if_not_P [OF z]
    by simp
qed

lemma signLoop_verifies:
  assumes "signLoop shake256 priv mu nonce kappa = Some sig" "good_key priv"
  shows "verifyInternal shake256 (skPub priv) mu sig = Some (Inr ())"
proof -
  have "good_key priv \<longrightarrow> verifyInternal shake256 (skPub priv) mu sig = Some (Inr ())"
    by (rule signLoop.raw_induct [where P = "\<lambda>shake256 priv mu nonce kappa sig. good_key priv \<longrightarrow>
        verifyInternal shake256 (skPub priv) mu sig = Some (Inr ())", OF _ assms(1)])
      (auto dest: attempt_verifies split: option.splits attempt.splits)
  then show ?thesis using assms(2) by simp
qed

section \<open>A run over constant streams\<close>

text \<open>
  With zero bytes in the place of SHAKE-128 and the byte 34 in the place of SHAKE-256 the matrix and
  the secrets are zero, and the first attempt to sign is accepted.
\<close>

abbreviation zeros :: xof where "zeros \<equiv> \<lambda>_ _. 0"
abbreviation bytes34 :: xof where "bytes34 \<equiv> \<lambda>_ _. 34"

lemma reduced_val_0: "reduced x \<Longrightarrow> val x = 0 \<Longrightarrow> x = 0"
  using val_inject [of x 0] mag_units(4) by (simp add: val_units)

lemma field_zero: "fieldAdd 0 0 = 0" "fieldSub 0 0 = 0" "fieldFromMontgomery 0 = 0" "fieldSubToMontgomery 0 0 = 0"
proof -
  note z = mag_units(4)
  show "fieldAdd 0 0 = 0" using fieldAdd [OF z z] by (intro reduced_val_0) (simp_all add: val_units)
  show "fieldSub 0 0 = 0" using fieldSub [OF z z] by (intro reduced_val_0) (simp_all add: val_units)
  have "(of_nat (unat (fieldFromMontgomery 0)) :: Zq) = of_nat 0" using fromMontgomery(2) [OF z] by (simp add: val_units)
  then have "unat (fieldFromMontgomery 0) = 0" using fromMontgomery(1) [OF z] unfolding of_nat_Zq_eq by simp
  then show "fieldFromMontgomery 0 = 0" by (simp add: unat_eq_zero)
  show "fieldSubToMontgomery 0 0 = 0" using subToMontgomery [of 0 0, OF _ z] by (intro reduced_val_0) simp_all
qed

lemma candidate_zero: "candidate (\<lambda>_. 0) k = Some 0"
proof -
  have "fieldMontgomeryMul 0 RR = 0"
    by (intro reduced_val_0) (simp_all add: montgomeryMul_any [OF reduced_RR] val_units)
  then show ?thesis by (simp add: candidate_def u32_def fieldToMontgomery_def q_def)
qed

lemma accepted_constant: "(\<And>k. f k = Some x) \<Longrightarrow> accepted f k n = replicate n x"
  by (induction n arbitrary: k) (simp_all add: accepted_Suc)

lemma sampleNTT_zero: "sampleNTT zeros rho s r = Some zeroPoly"
  using sampleNTT_accepted [of zeros rho s r 256] accepted_constant [OF candidate_zero] by (simp only: length_replicate order_refl take_replicate min.idem simp_thms)

lemma halfCandidate_34: "halfCandidate (\<lambda>_. 34) params44 n = Some 0"
proof -
  have "(34 :: byte) AND 15 = 2" "drop_bit 4 (34 :: byte) = 2" by code_simp+
  then have h: "halfAt (\<lambda>_. 34) n = 2" by (simp add: halfAt_def)
  have e: "eta params44 = 2" by (simp add: params44_def)
  have "(2 :: byte) \<le> 15" by simp
  then show ?thesis
  proof (rule coeffFromHalfByte_spec [of _ params44])
    fix x assume x: "coeffFromHalfByte 2 params44 = Some (Some x)" "reduced x" "halfSpec (eta params44) (unat (2 :: byte)) = Some (centered (val x))"
    then have "centered (val x) = 0" by (simp add: halfSpec_def e)
    then have "val x = 0" by (metis of_int_centered of_int_0)
    then show ?thesis using x(1) reduced_val_0 [OF x(2)] by (simp add: halfCandidate_def h)
  qed (simp_all add: e halfSpec_def)
qed

lemma sampleBoundedPoly_34: "sampleBoundedPoly bytes34 rho r params44 = Some zeroPoly"
proof -
  have "eta params44 = 2 \<or> eta params44 = 4" by (simp add: params44_def)
  from sampleBoundedPoly_accepted [of params44 bytes34 rho r 128, OF this] show ?thesis
    unfolding accepted_constant [OF halfCandidate_34] by (simp only: length_replicate) simp
qed

lemma polySub_self: "wf_poly f \<Longrightarrow> polySub f f = zeroPoly"
  by (rule poly_eqI) (simp_all add: polySub wf_zeroPoly)

lemma ring_zero: "ntt zeroPoly = zeroPoly" "inverseNTT zeroPoly = zeroPoly" "polyAdd zeroPoly zeroPoly = zeroPoly"
  "polySub zeroPoly zeroPoly = zeroPoly"
proof -
  note w = wf_zeroPoly(1)
  show s: "polySub zeroPoly zeroPoly = zeroPoly" by (rule polySub_self [OF w])
  show n: "ntt zeroPoly = zeroPoly"
    using ntt_linear(2) [OF w w] polySub_self [OF ntt_coeff(1) [OF w]] unfolding s by simp
  show "inverseNTT zeroPoly = zeroPoly" using inverseNTT_ntt [OF w] unfolding n .
  show "polyAdd zeroPoly zeroPoly = zeroPoly"
    by (rule poly_eqI) (simp_all add: polyAdd wf_zeroPoly)
qed

lemma product_zero: "wf_poly c \<Longrightarrow> nttMul c zeroPoly = zeroPoly"
  by (rule poly_eqI) (simp_all add: nttMul wf_zeroPoly)

lemma rowProduct_zero:
  assumes "\<And>j. j < l \<Longrightarrow> A ! (i * l + j) = zeroPoly" "\<And>j. j < l \<Longrightarrow> wf_poly (v ! j)"
  shows "rowProduct A v l zeroPoly i = zeroPoly"
proof -
  have w: "wf_poly (A ! (i * l + j))" if "j < l" for j using assms(1) [OF that] wf_zeroPoly(1) by simp
  note r = rowProduct [OF wf_zeroPoly(1), of l A i v]
  show ?thesis by (rule poly_eqI) (use r w assms wf_zeroPoly in simp_all)
qed

lemma those_all: "(\<And>x. x \<in> set xs \<Longrightarrow> f x = Some (g x)) \<Longrightarrow> those (map f xs) = Some (map g xs)"
  unfolding those_Some by simp

lemma constant_matrix: "concat (map (\<lambda>r. map (\<lambda>s. x) [0..<l]) [0..<k]) = replicate (k * l) x"
proof (induction k)
  case (Suc k)
  then show ?case by (simp add: map_replicate_const replicate_add)
qed simp

lemma list_constant: "length xs = n \<Longrightarrow> (\<And>i. i < n \<Longrightarrow> xs ! i = x) \<Longrightarrow> xs = replicate n x"
  by (simp add: list_eq_iff_nth_eq)

lemma zero_key:
  obtains priv where "newPrivateKey zeros bytes34 seed params44 = Some priv" "skS1 priv = replicate 4 zeroPoly"
    "skS2 priv = replicate 4 zeroPoly" "skT0 priv = replicate 4 zeroPoly" "pkA (skPub priv) = replicate 16 zeroPoly"
    "pkParams (skPub priv) = params44"
proof -
  have kl: "dimK params44 = 4" "dimL params44 = 4" by (simp_all add: params44_def)
  have A: "computeMatrixA zeros rho params44 = Some (replicate 16 zeroPoly)" for rho
    unfolding computeMatrixA_def sampleNTT_zero those_Some kl constant_matrix by (simp only: map_replicate) simp
  have S: "those (map (\<lambda>r. map_option ntt (sampleBoundedPoly bytes34 rhos (f r) params44)) [0..<4]) = Some (replicate 4 zeroPoly)" for rhos f
    unfolding sampleBoundedPoly_34 those_Some option.map ring_zero(1) map_replicate_const map_replicate by (simp only: length_upt diff_zero)
  have "\<exists>priv. newPrivateKey zeros bytes34 seed params44 = Some priv"
    unfolding newPrivateKey_def Let_def A Option.bind.bind_lunit kl S by blast
  then obtain priv where priv: "newPrivateKey zeros bytes34 seed params44 = Some priv" by blast
  show thesis
  proof (rule newPrivateKey_parts [OF priv])
    fix rho rhos A' S1 S2
    assume k: "length rho = 32" "computeMatrixA zeros rho params44 = Some A'"
      "length S1 = dimL params44" "\<And>r. r < dimL params44 \<Longrightarrow> sampleBoundedPoly bytes34 rhos (of_nat r) params44 = Some (S1 ! r)"
      "length S2 = dimK params44" "\<And>r. r < dimK params44 \<Longrightarrow> sampleBoundedPoly bytes34 rhos (of_nat (dimL params44 + r)) params44 = Some (S2 ! r)"
      "skS1 priv = map ntt S1" "skS2 priv = map ntt S2" "pkParams (skPub priv) = params44" "pkA (skPub priv) = A'"
      and t: "\<And>t. t = map (\<lambda>i. inverseNTT (rowProduct A' (map ntt S1) (dimL params44) (map ntt S2 ! i) i)) [0..<dimK params44] \<Longrightarrow>
        skT0 priv = map (\<lambda>row. ntt (map (\<lambda>x. snd (power2Round x)) row)) t \<and>
        pkRaw (skPub priv) = pkEncode [] rho (map (map (\<lambda>x. fst (power2Round x))) t) params44 \<and>
        pkT1 (skPub priv) = computeT1Hat (map (map (\<lambda>x. fst (power2Round x))) t)"
    have A': "A' = replicate 16 zeroPoly" using k(2) A by simp
    have s: "map ntt S1 = replicate 4 zeroPoly" "map ntt S2 = replicate 4 zeroPoly"
    proof -
      have "S1 ! r = zeroPoly" "S2 ! r = zeroPoly" if "r < 4" for r
        using k(4) [of r] k(6) [of r] that unfolding sampleBoundedPoly_34 kl by (simp_all only: option.inject)
      note r = this
      have "S1 = replicate 4 zeroPoly" by (rule list_constant) (use k(3) kl r(1) in \<open>simp_all only:\<close>)
      moreover have "S2 = replicate 4 zeroPoly" by (rule list_constant) (use k(5) kl r(2) in \<open>simp_all only:\<close>)
      ultimately show "map ntt S1 = replicate 4 zeroPoly" "map ntt S2 = replicate 4 zeroPoly"
        by (simp_all only: map_replicate ring_zero(1))
    qed
    have row: "rowProduct (replicate 16 zeroPoly) (replicate 4 zeroPoly) 4 (replicate 4 zeroPoly ! i) i = zeroPoly" if "i < 4" for i
      using rowProduct_zero [of 4 "replicate 16 zeroPoly" i "replicate 4 zeroPoly"] that wf_zeroPoly(1) by (simp del: replicate.simps)
    have "snd (power2Round 0) = 0"
      by (simp add: power2Round_def field_zero Let_def drop_bit_eq_div)
    moreover have "map (\<lambda>i. inverseNTT (rowProduct (replicate 16 zeroPoly) (replicate 4 zeroPoly) 4 (replicate 4 zeroPoly ! i) i)) [0..<4]
        = replicate 4 zeroPoly"
      by (rule list_constant) (simp_all only: length_map length_upt diff_zero nth_map nth_upt add_0 row ring_zero(2))
    ultimately have "skT0 priv = replicate 4 zeroPoly"
      using t [OF refl] unfolding A' s kl by (simp only: map_replicate ring_zero(1))
    then show thesis using that [OF priv] k(7-10) s A' by simp
  qed
qed

lemma mask34:
  obtains r where "bitUnpack (readAt (\<lambda>_. 34) 0 (polySize params44)) params44 = Some r" "wf_poly r"
    "\<not> coefficientsExceedBound r (2 ^ 17 - 78)"
proof -
  have v: "readAt (\<lambda>_. 34) 0 (polySize params44) = replicate (9 * 64) (34 :: byte)"
    by (simp add: readAt_def params44_def map_replicate_const)
  have j: "unat (joined 18 0 34 34 34) = 139810" "unat (joined 18 2 34 34 34) = 34952"
    "unat (joined 18 4 34 34 34) = 139810" "unat (joined 18 6 34 34 34) = 34952"
    by (simp_all add: joined_def u32_def push_bit_eq_mult drop_bit_eq_div)
  have ok: "fieldInfinityNorm (fieldSubToMontgomery (2 ^ 17) x) < 2 ^ 17 - 78" if "unat x = 139810 \<or> unat x = 34952" for x
  proof -
    have "unat x < 2 ^ Suc 17" using that by auto
    note o = unpacked_offset [OF this]
    have red: "reduced (fieldSubToMontgomery (2 ^ 17) x)" using o(1) by (simp add: packable_def)
    have "centered (val (fieldSubToMontgomery (2 ^ 17) x)) = 2 ^ 17 - int (unat x)"
      using o(2) centeredMod [OF red] by simp
    moreover have "\<bar>2 ^ 17 - int (unat x)\<bar> < 130994" using that by (elim disjE) (simp_all del: of_nat_unat)
    ultimately have "int (unat (fieldInfinityNorm (fieldSubToMontgomery (2 ^ 17) x))) < 130994"
      unfolding infinityNorm [OF red] by (simp only:)
    then have "unat (fieldInfinityNorm (fieldSubToMontgomery (2 ^ 17) x)) < 130994" by linarith
    then show ?thesis by (simp add: word_less_nat_alt)
  qed
  have "list_all (\<lambda>x. fieldInfinityNorm x < 2 ^ 17 - 78) (unpack18 (replicate (9 * n) 34))" for n
  proof (induction n)
    case (Suc n)
    have "replicate (9 * Suc n) (34 :: byte) = 34 # 34 # 34 # 34 # 34 # 34 # 34 # 34 # 34 # replicate (9 * n) 34"
      by (simp add: numeral_eq_Suc)
    then show ?case using Suc ok j by (simp only: unpack18_joined list_all_append list.pred_inject list.map simp_thms)
  qed simp
  from this [of 64] have "\<not> coefficientsExceedBound (unpack18 (replicate (9 * 64) 34)) (2 ^ 17 - 78)"
    by (simp add: coefficientsExceedBound_def list_all_iff list_ex_iff not_le del: replicate.simps)
  moreover have "valid_params params44" by (simp add: valid_params_def)
  then obtain r where "bitUnpack (readAt (\<lambda>_. 34) 0 (polySize params44)) params44 = Some r" "packablePoly params44 r"
    using bitUnpack_ok [OF _ length_readAt] by blast
  ultimately show thesis
    using that [of r] unfolding v
    by (simp add: bitUnpack_def bitUnpack18_def params44_def packablePoly_def packable_def wf_poly_def list_all_iff split: if_splits del: replicate.simps)
qed

lemma commitAll_ok:
  assumes "valid_params p" shows "\<exists>H. commitAll mu ws p = Some H"
proof (induction ws arbitrary: mu)
  case (Cons w ws)
  obtain H where "w1Encode mu w p = Some H" by (cases rule: valid_params_cases [OF assms]) (auto simp: w1Encode_def)
  then show ?case using Cons by simp
qed simp

lemma polyAdd_zero: "wf_poly f \<Longrightarrow> polyAdd f zeroPoly = f"
  by (rule poly_eqI) (simp_all add: polyAdd wf_zeroPoly)

lemma decompose_zero: "decompose88 0 = (0, 0)"
  by (simp add: decompose88_def highBits88_def Let_def field_zero drop_bit_eq_div constantTimeSelectEqual_def
      constantTimeSelectLessOrEqual_eq int32_def q_def)

lemma map2_replicate: "map2 f (replicate n a) (replicate n b) = replicate n (f a b)"
  by (induction n) simp_all

lemma ball34: obtains cc where "sampleInBall bytes34 ch params44 = Some cc"
proof -
  have t: "tau params44 = 39" by (simp add: params44_def)
  have "\<exists>cc. ballLoop (\<lambda>_. 34) (readAt (\<lambda>_. 34) 0 8) params44 [256 - tau params44..<256] 8 (replicate 256 0) = Some cc"
    by (rule ballLoop_found [where m = "256 - tau params44"]) (auto simp: t)
  then show thesis using that by (auto simp only: sampleInBall_def Let_def)
qed

lemma constant_attempt:
  assumes key: "skS1 priv = replicate 4 zeroPoly" "skS2 priv = replicate 4 zeroPoly" "skT0 priv = replicate 4 zeroPoly"
    "pkA (skPub priv) = replicate 16 zeroPoly" "pkParams (skPub priv) = params44"
  shows "\<exists>sig. signAttempt bytes34 priv mu nonce kappa = Some (Accepted sig)"
proof -
  define p where "p = params44"
  have v: "valid_params p" by (simp add: valid_params_def p_def)
  have par: "dimK p = 4" "dimL p = 4" "gamma1 p = 17" "gamma2 p = 88" "eta p = 2" "omega p = 80" "tau p = 39" "lambda p = 128"
    by (simp_all add: p_def params44_def)
  obtain r where r: "bitUnpack (readAt (\<lambda>_. 34) 0 (polySize p)) p = Some r" "wf_poly r" "\<not> coefficientsExceedBound r (2 ^ 17 - 78)"
    unfolding p_def by (rule mask34)
  have y: "maskVector bytes34 p nonce kappa = Some (replicate 4 r)"
    unfolding maskVector_def r(1) those_Some par(2) map_replicate_const map_replicate by (simp only: length_upt diff_zero)
  define w where "w = map (\<lambda>i. inverseNTT (rowProduct (replicate 16 zeroPoly) (map ntt (replicate 4 r)) 4 zeroPoly i)) [0..<4]"
  have w: "w = replicate 4 zeroPoly"
  proof (rule list_constant)
    fix i :: nat assume i: "i < 4"
    have "rowProduct (replicate 16 zeroPoly) (map ntt (replicate 4 r)) 4 zeroPoly i = zeroPoly"
      by (rule rowProduct_zero) (use i ntt_coeff(1) [OF r(2)] in \<open>simp_all del: replicate.simps\<close>)
    then show "w ! i = zeroPoly" using i by (simp add: w_def ring_zero(2) del: replicate.simps upt_Suc)
  qed (simp add: w_def)
  define h0 where "h0 = replicate 256 (highBits88 (fieldFromMontgomery 0))"
  have w1: "those (map (\<lambda>x. highBits x p) (replicate 4 zeroPoly)) = Some (replicate 4 h0)"
    unfolding those_Some by (simp add: highBits_def par h0_def del: replicate.simps)
  obtain H where H: "commitAll mu (replicate 4 h0) p = Some H" using commitAll_ok [OF v] by blast
  define ch where "ch = readAt (bytes34 H) 0 (lambda p div 4)"
  obtain cc where cc: "sampleInBall bytes34 ch p = Some cc" unfolding p_def by (rule ball34)
  have c: "wf_poly (ntt cc)" using sampleInBall_ball [OF cc] ntt_coeff(1) par by simp
  have cs: "map (\<lambda>s. inverseNTT (nttMul (ntt cc) s)) (replicate 4 zeroPoly) = replicate 4 zeroPoly"
    by (simp only: map_replicate product_zero [OF c] ring_zero(2))
  have zs: "map2 polyAdd (replicate 4 r) (replicate 4 zeroPoly) = replicate 4 r"
    by (simp only: map2_replicate polyAdd_zero [OF r(2)])
  have zb: "\<not> list_ex (\<lambda>x. coefficientsExceedBound x (2 ^ gamma1 p - of_nat (tau p * eta p))) (replicate 4 r)"
    using r(3) by (simp add: par list_ex_iff)
  have low: "those (map2 (\<lambda>x cx. lowBitsExceedBound (polySub x cx) ((q - 1) div of_nat (gamma2 p) - of_nat (tau p * eta p)) p)
      (replicate 4 zeroPoly) (replicate 4 zeroPoly)) = Some (replicate 4 False)"
    unfolding those_Some map2_replicate ring_zero(4) map_replicate
    by (simp add: lowBitsExceedBound_def par decompose_zero list_ex_iff constantTimeAbs_def constantTimeSelectLessOrEqual_eq q_def)
  have ct: "\<not> list_ex (\<lambda>x. coefficientsExceedBound x ((q - 1) div of_nat (gamma2 p))) (replicate 4 zeroPoly)"
  proof -
    have "int (unat (fieldInfinityNorm 0)) = 0" unfolding infinityNorm [OF mag_units(4)] by (simp add: val_units centered_units)
    then have "unat (fieldInfinityNorm 0) = 0" by linarith
    then have "fieldInfinityNorm 0 = 0" by (simp add: unat_eq_zero)
    then show ?thesis by (simp add: list_ex_iff coefficientsExceedBound_def par q_def)
  qed
  have hs: "those (map (\<lambda>i. makeHint (replicate 4 zeroPoly ! i) (replicate 4 zeroPoly ! i) (replicate 4 zeroPoly ! i) p) [0..<4])
      = Some (replicate 4 (replicate 256 0, 0))"
  proof -
    have "makeHint88 0 0 0 = 0" by (simp add: makeHint88_def field_zero)
    then have "map (\<lambda>i. makeHint88 (zeroPoly ! i) (zeroPoly ! i) (zeroPoly ! i)) [0..<256] = replicate 256 0"
      by (intro list_constant) (simp_all del: replicate.simps upt_Suc)
    then have "makeHint zeroPoly zeroPoly zeroPoly p = Some (replicate 256 0, 0)"
      by (simp add: makeHint_def par hintCount_def Let_def sum_list_replicate del: replicate.simps upt_Suc)
    then show ?thesis unfolding those_Some map_replicate
      by (intro list_constant) (simp_all del: replicate.simps upt_Suc)
  qed
  have wf: "wf_sig p ch (replicate 4 r) (replicate 4 (replicate 256 0))"
  proof -
    have "packablePoly p r" by (rule within_packable [OF v r(2)]) (use r(3) par in simp)
    moreover have "positionsFrom j (replicate n 0) = []" for j n by (induction n arbitrary: j) simp_all
    moreover have "wf_row (replicate 256 0)" by (simp add: wf_row_def list_all_length)
    ultimately show ?thesis
      by (simp add: wf_sig_def ch_def par hintTotal_def list_all_iff sum_list_replicate del: replicate.simps)
  qed
  obtain sig where sig: "sigEncode ch (replicate 4 r) (replicate 4 (replicate 256 0)) p = Some sig"
    using sigEncode_ok [OF v wf] by blast
  have "signAttempt bytes34 priv mu nonce kappa = Some (Accepted sig)"
    unfolding signAttempt_def Let_def key p_def [symmetric] y Option.bind.bind_lunit par(1,2)
    unfolding w_def [symmetric]
    unfolding w w1 H Option.bind.bind_lunit
    unfolding ch_def [symmetric] cc Option.bind.bind_lunit
    unfolding cs zs if_not_P [OF zb] low Option.bind.bind_lunit if_not_P [OF ct] hs
    unfolding map_replicate fst_conv snd_conv sig
    by (simp add: sum_list_replicate del: replicate.simps) (simp add: list_ex_iff)
  then show ?thesis by blast
qed

section \<open>Verification\<close>

lemma length_unpackT1: "5 * n \<le> length pk \<Longrightarrow> length (unpackT1 n pk) = 4 * n"
  by (induction n pk rule: unpackT1.induct) (auto simp: Let_def)

lemma unpackT1Rows_lengths:
  "320 * r \<le> length pk \<Longrightarrow> length (unpackT1Rows r pk) = r \<and> list_all (\<lambda>row. length row = 256) (unpackT1Rows r pk)"
  by (induction r arbitrary: pk) (simp_all add: length_unpackT1)

text \<open>A parsed public key has a matrix and a vector of the right size with reduced entries.\<close>

lemma newPublicKey_wf:
  assumes "newPublicKey shake128 shake256 pk p = Some (Inr pub)"
  shows "pkParams pub = p" "i < dimK p \<Longrightarrow> j < dimL p \<Longrightarrow> wf_poly (pkA pub ! (i * dimL p + j))"
    "i < dimK p \<Longrightarrow> wf_poly (pkT1 pub ! i)"
proof -
  obtain rho t1 A where d: "pkDecode pk p = Inr (rho, t1)" "computeMatrixA shake128 rho p = Some A"
    and pub: "pkParams pub = p" "pkA pub = A" "pkT1 pub = computeT1Hat t1"
    using assms by (auto simp: newPublicKey_def split: sum.splits)
  show "pkParams pub = p" by (rule pub(1))
  note A = computeMatrixA_wf [OF d(2)]
  show "wf_poly (pkA pub ! (i * dimL p + j))" if "i < dimK p" "j < dimL p"
  proof -
    have "i * dimL p + j < Suc i * dimL p" using that(2) by simp
    also have "\<dots> \<le> dimK p * dimL p" using that(1) by (intro mult_le_mono1) simp
    finally show ?thesis using A by (simp add: pub list_all_length)
  qed
  have "t1 = unpackT1Rows (dimK p) (drop 32 pk)" "320 * dimK p \<le> length (drop 32 pk)"
    using d(1) by (auto simp: pkDecode_def pubKeySize_def split: if_splits)
  then have "length t1 = dimK p" "list_all (\<lambda>row. length row = 256) t1"
    using unpackT1Rows_lengths [of "dimK p" "drop 32 pk"] by simp_all
  then show "wf_poly (pkT1 pub ! i)" if "i < dimK p"
    using that toMontgomery_reduced mag_units(4)
    by (auto simp: pub computeT1Hat_def wf_poly_def list_all_length intro!: ntt_coeff(1) [unfolded wf_poly_def list_all_length]
        split: option.splits)
qed

lemma exceeds_iff:
  assumes "valid_params p" "wf_poly f"
  shows "coefficientsExceedBound f (2 ^ gamma1 p - of_nat (tau p * eta p)) \<longleftrightarrow>
    (\<exists>x < 256. 2 ^ gamma1 p - int (tau p * eta p) \<le> \<bar>centered (coeff f x)\<bar>)"
proof -
  define b where "b = (2 ^ gamma1 p - of_nat (tau p * eta p) :: uint32)"
  have b: "int (unat b) = 2 ^ gamma1 p - int (tau p * eta p)"
    unfolding b_def by (rule uint_bounds(1) [OF assms(1)])
  have "b \<le> fieldInfinityNorm (f ! x) \<longleftrightarrow> 2 ^ gamma1 p - int (tau p * eta p) \<le> \<bar>centered (coeff f x)\<bar>"
    if "x < 256" for x
  proof -
    have "reduced (f ! x)" using that assms(2) by (simp add: wf_poly_def list_all_length)
    from infinityNorm [OF this] show ?thesis
      unfolding b [symmetric] coeff_def by (simp only: word_le_nat_alt of_nat_le_iff [symmetric, where 'a = int])
  qed
  moreover have "length f = 256" using assms(2) by (simp add: wf_poly_def)
  ultimately show ?thesis
    unfolding coefficientsExceedBound_def b_def [symmetric] by (auto simp: list_ex_length)
qed

lemma verify_row:
  assumes "\<And>j. j < l \<Longrightarrow> wf_poly (A ! (i * l + j))" "\<And>j. j < l \<Longrightarrow> wf_poly (v ! j)" "wf_poly c" "wf_poly t"
  defines "w \<equiv> inverseNTT (polySub (rowProduct A v l zeroPoly i) (nttMul c t))"
  shows "wf_poly w" "x < 256 \<Longrightarrow> coeff (ntt w) x =
    (\<Sum>j < l. coeff (A ! (i * l + j)) x * coeff (v ! j) x) - coeff c x * coeff t x"
proof -
  have row: "wf_poly (rowProduct A v l zeroPoly i)"
    "x < 256 \<Longrightarrow> coeff (rowProduct A v l zeroPoly i) x = coeff zeroPoly x + (\<Sum>j < l. coeff (A ! (i * l + j)) x * coeff (v ! j) x)" for x
    by (rule rowProduct [OF wf_zeroPoly(1)]; use assms(1,2) in blast)+
  note prod = nttMul [OF assms(3,4)]
  note sub = polySub [OF row(1) prod(1)]
  show "wf_poly w" unfolding w_def by (rule inverseNTT_coeff(1) [OF sub(1)])
  show "x < 256 \<Longrightarrow> coeff (ntt w) x = (\<Sum>j < l. coeff (A ! (i * l + j)) x * coeff (v ! j) x) - coeff c x * coeff t x"
    unfolding w_def ntt_inverseNTT [OF sub(1)] using sub(2) row(2) prod(2) wf_zeroPoly(2) by simp
qed

lemma decoded_parts:
  assumes "valid_params p" "sigDecode sig p = Some (Inr (ch, zs, h))"
  shows "length sig = sigSize p \<and> ch = take (lambda p div 4) sig \<and> length zs = dimL p \<and>
    list_all wf_poly zs \<and> length h = dimK p"
proof -
  have "wf_sig p ch zs h" using sigDecode_ok(2) [OF assms] by simp
  moreover obtain a b where "length sig = sigSize p"
    "(case hintDecode b p of Inl e \<Rightarrow> Inl e | Inr h \<Rightarrow> Inr (take (lambda p div 4) sig, a, h)) = Inr (ch, zs, h)"
    using assms(2) by (auto simp: sigDecode_def split: if_split_asm)
  then have "length sig = sigSize p \<and> ch = take (lambda p div 4) sig"
    by (cases "hintDecode b p") simp_all
  ultimately show ?thesis by (auto simp: wf_sig_def packablePoly_def wf_poly_def list_all_iff packable_def)
qed

text \<open>The value of verification on a signature that decodes.\<close>

lemma verify_value:
  assumes v: "valid_params p" and pp: "pkParams pub = p" and dec: "sigDecode sig p = Some (Inr (ch, zs, h))"
    and lh: "length h = dimK p" and cc: "sampleInBall shake256 ch p = Some cc"
  shows "\<exists>w w1 H. w = map (\<lambda>i. inverseNTT (polySub (rowProduct (pkA pub) (map ntt zs) (dimL p) zeroPoly i)
      (nttMul (ntt cc) (pkT1 pub ! i)))) [0..<dimK p] \<and>
    length w1 = dimK p \<and> (\<forall>i < dimK p. useHint (w ! i) (h ! i) p = Some (w1 ! i)) \<and>
    commitAll mu w1 p = Some H \<and>
    verifyInternal shake256 pub mu sig =
      (if list_ex (\<lambda>x. coefficientsExceedBound x (2 ^ gamma1 p - of_nat (tau p * eta p))) zs
       then Some (Inl ErrInvalidSignatureCoeffBounds)
       else if ch \<noteq> readAt (shake256 H) 0 (lambda p div 4) then Some (Inl ErrInvalidSignatureChallenge)
       else Some (Inr ()))"
proof -
  define w where "w = map (\<lambda>i. inverseNTT (polySub (rowProduct (pkA pub) (map ntt zs) (dimL p) zeroPoly i)
      (nttMul (ntt cc) (pkT1 pub ! i)))) [0..<dimK p]"
  have "\<exists>u. useHint x hx p = Some u" for x hx
    by (cases rule: valid_params_cases [OF v]) (simp_all add: useHint_def)
  then obtain u where u: "\<And>x hx. useHint x hx p = Some (u x hx)" by metis
  have used: "those (map2 (\<lambda>x hx. useHint x hx p) w h) = Some (map2 u w h)"
    unfolding u those_Some by (simp add: case_prod_beta)
  obtain H where H: "commitAll mu (map2 u w h) p = Some H" using commitAll_ok [OF v] by blast
  have r: "verifyInternal shake256 pub mu sig =
      (if list_ex (\<lambda>x. coefficientsExceedBound x (2 ^ gamma1 p - of_nat (tau p * eta p))) zs
       then Some (Inl ErrInvalidSignatureCoeffBounds)
       else if ch \<noteq> readAt (shake256 H) 0 (lambda p div 4) then Some (Inl ErrInvalidSignatureChallenge)
       else Some (Inr ()))"
    unfolding verifyInternal_def Let_def pp dec Option.bind.bind_lunit sum.case prod.case cc w_def [symmetric] used H ..
  have "length w = dimK p" by (simp add: w_def)
  then show ?thesis
    using lh u H r by (intro exI [of _ w] exI [of _ "map2 u w h"] exI [of _ H]) (simp add: w_def)
qed

section \<open>Properties\<close>

text \<open>
  C25. Sign, then verify: for each parameter set, a private key made from any seed and a signature
  that \<open>Sign\<close> returns for any message, context and random bytes, the public key parsed from the
  encoding in the private key accepts the signature for this message and context. This holds for
  any two functions in the place of SHAKE-128 and SHAKE-256.
\<close>

theorem sign_then_verify:
  assumes "valid_params p" and "newPrivateKey shake128 shake256 seed p = Some priv"
    and "Sign shake256 random priv msg ctx = Some (Inr sig)"
  shows "\<exists>pub. newPublicKey shake128 shake256 (pkRaw (skPub priv)) p = Some (Inr pub) \<and>
    Verify shake256 pub msg sig ctx = Some (Inr ())"
proof -
  note k = newPrivateKey_good [OF assms(2,1)]
  obtain mu where mu: "computeMessageHash shake256 (pkTr (skPub priv)) msg ctx = Inr mu"
    "signInternal shake256 priv mu random = Some sig"
    using assms(3) by (auto simp: Sign_def split: sum.splits)
  have "verifyInternal shake256 (skPub priv) mu sig = Some (Inr ())"
    using mu(2) k(1) unfolding signInternal_def Let_def by (rule signLoop_verifies)
  then show ?thesis using k(3) mu(1) by (simp add: Verify_def)
qed

theorem sign_then_verify_witness:
  "\<exists>priv sig pub. newPrivateKey zeros bytes34 (replicate 32 1) params44 = Some priv \<and>
     Sign bytes34 (replicate 32 9) priv [1, 2, 3] [] = Some (Inr sig) \<and>
     newPublicKey zeros bytes34 (pkRaw (skPub priv)) params44 = Some (Inr pub) \<and>
     Verify bytes34 pub [1, 2, 3] sig [] = Some (Inr ())"
proof -
  have v: "valid_params params44" by (simp add: valid_params_def)
  obtain priv where priv: "newPrivateKey zeros bytes34 (replicate 32 1) params44 = Some priv"
    and z: "skS1 priv = replicate 4 zeroPoly" "skS2 priv = replicate 4 zeroPoly" "skT0 priv = replicate 4 zeroPoly"
      "pkA (skPub priv) = replicate 16 zeroPoly" "pkParams (skPub priv) = params44"
    by (rule zero_key)
  obtain mu where mu: "computeMessageHash bytes34 (pkTr (skPub priv)) [1, 2, 3] [] = Inr mu"
    by (simp add: computeMessageHash_def)
  obtain sig where "signAttempt bytes34 priv mu (readAt (\<lambda>_. 34) 0 64) 0 = Some (Accepted sig)"
    using constant_attempt [OF z] by blast
  then have "signInternal bytes34 priv mu (replicate 32 9) = Some sig"
    unfolding signInternal_def Let_def by (subst signLoop.simps) (simp only: option.case attempt.case)
  then have sign: "Sign bytes34 (replicate 32 9) priv [1, 2, 3] [] = Some (Inr sig)" using mu by (simp add: Sign_def)
  from sign_then_verify [OF v priv sign] show ?thesis using priv sign by blast
qed

text \<open>
  C26. Verification is total and decides what it should. For a public key parsed under one of the
  three parameter sets and any byte string offered as a signature, provided that the challenge
  sampler returns on the first \<open>\<lambda>/4\<close> bytes of a string of the right length, verification returns
  without a panic. A string of the wrong length is refused as such and one that does not decode
  with the error of the decoder. For one that decodes to a challenge, a vector \<open>z\<close> and hints, let
  \<open>w\<close> be the vector of polynomials whose transform is \<open>A z - c t\<^sub>1\<close> with the matrix and vector of the
  key and the polynomial \<open>c\<close> that the challenge gives, and \<open>w\<^sub>1\<close> what the hints make of it: then the
  result is the error for the bounds if a coefficient of \<open>z\<close> has magnitude at least \<open>\<gamma>\<^sub>1 - \<beta>\<close>, else
  the error for the challenge unless the challenge is the hash of the message representative
  followed by the encoding of \<open>w\<^sub>1\<close>, and else success.
\<close>

theorem verify_total:
  assumes "valid_params p" and "newPublicKey shake128 shake256 pk p = Some (Inr pub)"
    and "length sig = sigSize p \<Longrightarrow> sampleInBall shake256 (take (lambda p div 4) sig) p = Some c"
  shows "\<exists>result. verifyInternal shake256 pub mu sig = Some result \<and>
    (length sig \<noteq> sigSize p \<longrightarrow> result = Inl ErrInvalidSignatureLength) \<and>
    (\<forall>e. sigDecode sig p = Some (Inl e) \<longrightarrow> result = Inl e) \<and>
    (\<forall>ch zs h. sigDecode sig p = Some (Inr (ch, zs, h)) \<longrightarrow>
      (\<exists>w w1 H. length w = dimK p \<and>
        (\<forall>i < dimK p. wf_poly (w ! i) \<and> (\<forall>x < 256. coeff (ntt (w ! i)) x =
          (\<Sum>j < dimL p. coeff (pkA pub ! (i * dimL p + j)) x * coeff (ntt (zs ! j)) x)
            - coeff (ntt c) x * coeff (pkT1 pub ! i) x)) \<and>
        length w1 = dimK p \<and> (\<forall>i < dimK p. useHint (w ! i) (h ! i) p = Some (w1 ! i)) \<and>
        commitAll mu w1 p = Some H \<and>
        result =
          (if \<exists>f \<in> set zs. \<exists>x < 256. 2 ^ gamma1 p - int (tau p * eta p) \<le> \<bar>centered (coeff f x)\<bar>
           then Inl ErrInvalidSignatureCoeffBounds
           else if ch \<noteq> readAt (shake256 H) 0 (lambda p div 4) then Inl ErrInvalidSignatureChallenge
           else Inr ())))"
proof -
  note key = newPublicKey_wf [OF assms(2)]
  obtain d where d: "sigDecode sig p = Some d" using sigDecode_ok(1) [OF assms(1)] by blast
  show ?thesis
  proof (cases d)
    case (Inl e)
    then have "verifyInternal shake256 pub mu sig = Some (Inl e)"
      unfolding verifyInternal_def Let_def key(1) d by simp
    moreover have "e = ErrInvalidSignatureLength" if "length sig \<noteq> sigSize p"
      using that d Inl by (simp add: sigDecode_def)
    ultimately show ?thesis using d Inl by auto
  next
    case (Inr t)
    obtain ch zs h where t: "t = (ch, zs, h)" by (cases t)
    note dec = d [unfolded Inr t]
    from decoded_parts [OF assms(1) dec] have len: "length sig = sigSize p" "ch = take (lambda p div 4) sig"
      and wf: "length zs = dimL p" "list_all wf_poly zs" "length h = dimK p" by simp_all
    note c = assms(3) [OF len(1), folded len(2)]
    have cwf: "wf_poly (ntt c)"
      using sampleInBall_ball(1) [OF c] valid_params_bounds(2) [OF assms(1)] ntt_coeff(1) by simp
    from verify_value [OF assms(1) key(1) dec wf(3) c, of mu] obtain w w1 H
      where w: "w = map (\<lambda>i. inverseNTT (polySub (rowProduct (pkA pub) (map ntt zs) (dimL p) zeroPoly i)
          (nttMul (ntt c) (pkT1 pub ! i)))) [0..<dimK p]"
        and w1: "length w1 = dimK p" "\<forall>i < dimK p. useHint (w ! i) (h ! i) p = Some (w1 ! i)" "commitAll mu w1 p = Some H"
        and r: "verifyInternal shake256 pub mu sig =
          (if list_ex (\<lambda>x. coefficientsExceedBound x (2 ^ gamma1 p - of_nat (tau p * eta p))) zs
           then Some (Inl ErrInvalidSignatureCoeffBounds)
           else if ch \<noteq> readAt (shake256 H) 0 (lambda p div 4) then Some (Inl ErrInvalidSignatureChallenge)
           else Some (Inr ()))" by blast
    have rows: "wf_poly (w ! i) \<and> (\<forall>x < 256. coeff (ntt (w ! i)) x =
        (\<Sum>j < dimL p. coeff (pkA pub ! (i * dimL p + j)) x * coeff (ntt (zs ! j)) x)
          - coeff (ntt c) x * coeff (pkT1 pub ! i) x)" if i: "i < dimK p" for i
    proof -
      have z: "wf_poly (map ntt zs ! j)" if "j < dimL p" for j
        using that wf(1,2) ntt_coeff(1) by (simp add: list_all_length)
      show ?thesis
        using verify_row [of "dimL p" "pkA pub" i "map ntt zs" "ntt c" "pkT1 pub ! i"] key(2,3) i z cwf wf(1) w by simp
    qed
    have "list_ex (\<lambda>x. coefficientsExceedBound x (2 ^ gamma1 p - of_nat (tau p * eta p))) zs \<longleftrightarrow>
        (\<exists>f \<in> set zs. \<exists>x < 256. 2 ^ gamma1 p - int (tau p * eta p) \<le> \<bar>centered (coeff f x)\<bar>)"
      using exceeds_iff [OF assms(1)] wf(2) by (auto simp: list_ex_iff list_all_iff)
    note r = r [unfolded this]
    have "length w = dimK p" by (simp add: w)
    then show ?thesis
      using rows w1 dec len(1) by (intro exI conjI allI impI, rule_tac [1] r [unfolded if_distrib [of Some, symmetric]]) auto
  qed
qed

theorem verify_total_witness:
  "\<exists>pk pub mu sig ch zs h. newPublicKey zeros bytes34 pk params44 = Some (Inr pub) \<and>
     verifyInternal bytes34 pub mu sig = Some (Inr ()) \<and>
     sigDecode sig params44 = Some (Inr (ch, zs, h)) \<and>
     (\<forall>f \<in> set zs. \<forall>x < 256. \<bar>centered (coeff f x)\<bar> < 2 ^ 17 - 78) \<and>
     verifyInternal bytes34 pub mu [1, 2, 3] = Some (Inl ErrInvalidSignatureLength)"
proof -
  have v: "valid_params params44" by (simp add: valid_params_def)
  have par: "gamma1 params44 = 17" "tau params44 * eta params44 = 78" "sigSize params44 = 2420"
    by (simp_all add: params44_def sigSize_def)
  obtain priv where priv: "newPrivateKey zeros bytes34 (replicate 32 1) params44 = Some priv"
    and key: "skS1 priv = replicate 4 zeroPoly" "skS2 priv = replicate 4 zeroPoly" "skT0 priv = replicate 4 zeroPoly"
      "pkA (skPub priv) = replicate 16 zeroPoly" "pkParams (skPub priv) = params44"
    by (rule zero_key)
  note good = newPrivateKey_good [OF priv v]
  define pub where "pub = skPub priv"
  obtain sig where "signAttempt bytes34 priv [] [] 0 = Some (Accepted sig)"
    using constant_attempt [OF key] by blast
  then have "signLoop bytes34 priv [] [] 0 = Some sig"
    by (subst signLoop.simps) (simp only: option.case attempt.case)
  then have ok: "verifyInternal bytes34 pub [] sig = Some (Inr ())"
    unfolding pub_def using good(1) by (rule signLoop_verifies)
  obtain c where "sampleInBall bytes34 (take (lambda params44 div 4) sig) params44 = Some c" by (rule ball34)
  note t = verify_total [OF v good(3) this, folded pub_def, of "[]", unfolded ok]
  have "verifyInternal bytes34 pub [] [1, 2, 3] = Some (Inl ErrInvalidSignatureLength)"
    using verify_total [OF v good(3), folded pub_def, of "[1, 2, 3]" _ "[]"] par(3) by auto
  moreover obtain ch zs h where dec: "sigDecode sig params44 = Some (Inr (ch, zs, h))"
  proof -
    obtain d where "sigDecode sig params44 = Some d" using sigDecode_ok(1) [OF v] by blast
    then show thesis using t that by (cases d) (auto simp del: split_paired_Ex)
  qed
  moreover have "\<not> (\<exists>f \<in> set zs. \<exists>x < 256. 2 ^ 17 - int 78 \<le> \<bar>centered (coeff f x)\<bar>)"
  proof
    assume "\<exists>f \<in> set zs. \<exists>x < 256. 2 ^ 17 - int 78 \<le> \<bar>centered (coeff f x)\<bar>"
    with t dec show False unfolding par(1,2) by (auto split: if_splits)
  qed
  then have "\<forall>f \<in> set zs. \<forall>x < 256. \<bar>centered (coeff f x)\<bar> < 2 ^ 17 - 78" by (simp add: not_le)
  ultimately show ?thesis using good(3) ok unfolding pub_def by blast
qed

end
